(* ===== verification/Mars_Prelude.thy ===== *)
theory Mars_Prelude
  imports "HOL-Library.Word"
begin

text \<open>
  Shared vocabulary of the MarsOS development: the fixed-width integers of \<open>stdint.h\<close>, page
  arithmetic on 32-bit addresses, the "scan a table for the first entry with P" and "count the
  entries with P" loops that every table of the kernel is searched with, and the C string
  primitives.  A C string argument is the list of the bytes its pointer reaches; every byte past
  the end of the list reads as the terminator, and \<open>cstr\<close> is the text before the first NUL.
\<close>

unbundle bit_operations_syntax

type_synonym u8 = "8 word"
type_synonym u16 = "16 word"
type_synonym u32 = "32 word"
type_synonym u64 = "64 word"

named_theorems page_simps
named_theorems cstr_simps
named_theorems table_simps

section \<open>Words and pages\<close>

abbreviation PAGE_SIZE :: u32 where
  "PAGE_SIZE \<equiv> 4096"

lemma unat_and_mask: "unat (x AND mask n :: 'a::len word) = unat x mod 2 ^ n"
proof -
  have "unat (take_bit n x) = take_bit n (unat x)"
    by (rule unsigned_take_bit_eq)
  then show ?thesis
    by (simp only: take_bit_eq_mask [of n x] take_bit_eq_mod [of n "unat x"])
qed

lemma and_not_mask: "(x AND NOT (mask n) :: 'a::len word) = push_bit n (drop_bit n x)"
  by (rule bit_eqI) (auto simp: bit_simps)

lemma unat_and_not_mask: "unat (x AND NOT (mask n) :: 'a::len word) = unat x div 2 ^ n * 2 ^ n"
proof -
  have "unat x div 2 ^ n * 2 ^ n < 2 ^ LENGTH('a)"
    by (rule le_less_trans [OF div_times_less_eq_dividend]) (rule unsigned_less)
  then have "take_bit LENGTH('a) (push_bit n (drop_bit n (unat x))) = unat x div 2 ^ n * 2 ^ n"
    by (simp only: drop_bit_eq_div push_bit_eq_mult take_bit_eq_mod mod_less)
  then show ?thesis
    by (simp only: and_not_mask unsigned_push_bit_eq unat_drop_bit_eq)
qed

lemma mask12_u32 [page_simps]: "(mask 12 :: u32) = 4095"
  by (simp add: mask_eq_exp_minus_1)

lemma mask10_u32: "(mask 10 :: u32) = 1023"
  by (simp add: mask_eq_exp_minus_1)

lemma mask5_u32: "(mask 5 :: u32) = 31"
  by (simp add: mask_eq_exp_minus_1)

lemma unat_page_offset [page_simps]: "unat (x AND 4095 :: u32) = unat x mod 4096"
  using unat_and_mask [of x 12] by (simp add: mask12_u32)

lemma unat_page_base [page_simps]: "unat (x AND - 4096 :: u32) = unat x div 4096 * 4096"
  using unat_and_not_mask [of x 12] by (simp add: mask12_u32)

lemma page_mask_minus [page_simps]: "(0xFFFFF000 :: u32) = - 4096"
  by simp

lemma unat_u32_less: "unat (x :: u32) < 4294967296"
  using unsigned_less [of x] by simp

lemma unat_inj_u32: "unat (x :: u32) = unat y \<longleftrightarrow> x = y"
  by (simp add: word_unat_eq_iff)

lemma of_nat_u32_eq: "m < 4294967296 \<Longrightarrow> n < 4294967296 \<Longrightarrow> (of_nat m :: u32) = of_nat n \<longleftrightarrow> m = n"
  using unat_inj_u32 [of "of_nat m" "of_nat n"] by (simp add: unat_of_nat)

lemma page_offset_eq_0: "(x AND 4095 :: u32) = 0 \<longleftrightarrow> unat x mod 4096 = 0"
  using unat_inj_u32 [of "x AND 4095" 0] by (simp add: unat_page_offset)

definition align_up_4k :: "u32 \<Rightarrow> u32" where
  "align_up_4k value = (value + (PAGE_SIZE - 1)) AND NOT (PAGE_SIZE - 1)"

definition align_down_4k :: "u32 \<Rightarrow> u32" where
  "align_down_4k value = value AND NOT (PAGE_SIZE - 1)"

lemma unat_align_down [page_simps]: "unat (align_down_4k x) = unat x div 4096 * 4096"
  by (simp add: align_down_4k_def unat_page_base)

lemma unat_align_up:
  "unat (align_up_4k x) =
     (if unat x \<le> 0xFFFFF000 then (unat x + 4095) div 4096 * 4096 else 0)"
proof -
  have "unat (x + 4095) = (unat x + 4095) mod 4294967296"
    by (simp add: unat_word_ariths)
  moreover have "unat x < 4294967296" by (rule unat_u32_less)
  ultimately show ?thesis
    by (auto simp: align_up_4k_def unat_page_base mod_if)
qed

lemma align_up_aligned: "unat (align_up_4k x) mod 4096 = 0"
  by (simp add: unat_align_up)

lemma align_up_id: "unat x mod 4096 = 0 \<Longrightarrow> align_up_4k x = x"
  using unat_u32_less [of x]
  by (subst unat_inj_u32 [symmetric]) (auto simp: unat_align_up mod_eq_0_iff_dvd elim!: dvdE)

lemma align_down_id: "unat x mod 4096 = 0 \<Longrightarrow> align_down_4k x = x"
  by (subst unat_inj_u32 [symmetric]) (auto simp: page_simps)

lemma unat_bits_mod32: "unat (i AND 31 :: u32) = unat i mod 32"
  using unat_and_mask [of i 5] by (simp add: mask5_u32)

section \<open>Table scans\<close>

text \<open>\<open>for (i = 0; i < N; i++) if (P(t[i])) return i; return -1;\<close>\<close>

fun first_idx :: "('e \<Rightarrow> bool) \<Rightarrow> 'e list \<Rightarrow> nat option" where
  "first_idx P [] = None"
| "first_idx P (x # xs) = (if P x then Some 0 else map_option Suc (first_idx P xs))"

text \<open>\<open>count = 0; for (i = 0; i < N; i++) if (P(t[i])) count++; return count;\<close>\<close>

fun count_loop :: "('e \<Rightarrow> bool) \<Rightarrow> 'e list \<Rightarrow> u32 \<Rightarrow> u32" where
  "count_loop P [] c = c"
| "count_loop P (x # xs) c = count_loop P xs (if P x then c + 1 else c)"

text \<open>\<open>seen = 0; for (...) if (P(t[i])) { if (seen == index) return i; seen++; } return none;\<close>\<close>

fun nth_loop :: "('e \<Rightarrow> bool) \<Rightarrow> 'e list \<Rightarrow> u32 \<Rightarrow> u32 \<Rightarrow> 'e option" where
  "nth_loop P [] seen index = None"
| "nth_loop P (x # xs) seen index =
     (if P x then (if seen = index then Some x else nth_loop P xs (seen + 1) index)
      else nth_loop P xs seen index)"

lemma first_idx_None [table_simps]: "first_idx P xs = None \<longleftrightarrow> (\<forall>x \<in> set xs. \<not> P x)"
  by (induction xs) auto

lemma first_idx_Some:
  "first_idx P xs = Some i \<longleftrightarrow> i < length xs \<and> P (xs ! i) \<and> (\<forall>j < i. \<not> P (xs ! j))"
proof (induction xs arbitrary: i)
  case Nil
  then show ?case by simp
next
  case (Cons x xs)
  show ?case
    by (cases i) (auto simp: Cons.IH less_Suc_eq_0_disj)
qed

lemma first_idx_SomeD:
  assumes "first_idx P xs = Some i"
  shows "i < length xs" and "P (xs ! i)" and "j < i \<Longrightarrow> \<not> P (xs ! j)"
  using assms by (auto simp: first_idx_Some)

lemma first_idx_ex: "(\<exists>i. first_idx P xs = Some i) \<longleftrightarrow> (\<exists>x \<in> set xs. P x)"
  using first_idx_None [of P xs] by (cases "first_idx P xs") auto

lemma first_idx_cong: "(\<And>x. x \<in> set xs \<Longrightarrow> P x = Q x) \<Longrightarrow> first_idx P xs = first_idx Q xs"
  by (induction xs) auto

lemma count_loop_eq [table_simps]: "count_loop P xs c = c + of_nat (length (filter P xs))"
  by (induction xs arbitrary: c) (auto simp: algebra_simps)

lemma nth_loop_eq:
  assumes "unat seen + length xs < 2 ^ 32" and "unat seen \<le> unat index"
  shows "nth_loop P xs seen index =
    (let ys = filter P xs; k = unat index - unat seen in
     if k < length ys then Some (ys ! k) else None)"
  using assms
proof (induction xs arbitrary: seen)
  case Nil
  then show ?case by simp
next
  case (Cons x xs)
  have suc: "unat (seen + 1) = Suc (unat seen)"
    using Cons.prems(1) by (simp add: unat_word_ariths)
  show ?case
  proof (cases "P x")
    case False
    with Cons show ?thesis by simp
  next
    case True
    show ?thesis
    proof (cases "seen = index")
      case True
      with \<open>P x\<close> show ?thesis by simp
    next
      case False
      then have "unat seen \<noteq> unat index" by (simp add: unat_inj_u32)
      with Cons.prems(2) have lt: "unat seen < unat index" by simp
      have "nth_loop P xs (seen + 1) index =
          (let ys = filter P xs; k = unat index - unat (seen + 1) in
           if k < length ys then Some (ys ! k) else None)"
        using Cons.prems(1) lt by (intro Cons.IH) (simp_all add: suc)
      moreover have "unat index - unat seen = Suc (unat index - unat (seen + 1))"
        using lt by (simp add: suc)
      ultimately show ?thesis using \<open>P x\<close> False by (simp add: Let_def)
    qed
  qed
qed

lemma nth_upd: "j < length xs \<Longrightarrow> xs[i := v] ! j = (if i = j then v else xs ! j)"
  by (cases "i = j") auto

lemma length_filter_update:
  "i < length xs \<Longrightarrow>
   length (filter P (xs[i := v])) + (if P (xs ! i) then 1 else 0) =
   length (filter P xs) + (if P v then 1 else 0)"
proof (induction xs arbitrary: i)
  case Nil
  then show ?case by simp
next
  case (Cons x xs)
  then show ?case by (cases i) auto
qed

section \<open>C strings\<close>

abbreviation NUL :: char where
  "NUL \<equiv> CHR 0x00"

definition c_at :: "string \<Rightarrow> nat \<Rightarrow> char" where
  "c_at s i = (if i < length s then s ! i else NUL)"

definition cstr :: "string \<Rightarrow> string" where
  "cstr s = takeWhile (\<lambda>c. c \<noteq> NUL) s"

text \<open>\<open>while (s[n] != '\0') n++;\<close>\<close>

function str_len_loop :: "string \<Rightarrow> nat \<Rightarrow> nat" where
  "str_len_loop s n = (if c_at s n \<noteq> NUL then str_len_loop s (n + 1) else n)"
  by pat_completeness auto
termination
  by (relation "measure (\<lambda>(s, n). length s - n)") (auto simp: c_at_def split: if_splits)

declare str_len_loop.simps [simp del]

text \<open>
  \<open>while (a[i] != '\0' && b[i] != '\0') { if (a[i] != b[i]) return 0; i++; }
  return a[i] == '\0' && b[i] == '\0';\<close>
\<close>

function str_eq_loop :: "string \<Rightarrow> string \<Rightarrow> nat \<Rightarrow> bool" where
  "str_eq_loop a b i =
     (if c_at a i \<noteq> NUL \<and> c_at b i \<noteq> NUL
      then (if c_at a i \<noteq> c_at b i then False else str_eq_loop a b (i + 1))
      else c_at a i = NUL \<and> c_at b i = NUL)"
  by pat_completeness auto
termination
  by (relation "measure (\<lambda>(a, b, i). length a - i)") (auto simp: c_at_def split: if_splits)

declare str_eq_loop.simps [simp del]

text \<open>\<open>while (i + 1u < n && src[i] != '\0') { dst[i] = src[i]; i++; } dst[i] = '\0';\<close>\<close>

function str_copy_loop :: "string \<Rightarrow> string \<Rightarrow> nat \<Rightarrow> nat \<Rightarrow> string \<times> nat" where
  "str_copy_loop dst src n i =
     (if i + 1 < n \<and> c_at src i \<noteq> NUL then str_copy_loop (dst[i := c_at src i]) src n (i + 1)
      else (dst[i := NUL], i))"
  by pat_completeness auto
termination
  by (relation "measure (\<lambda>(dst, src, n, i). n - i)") auto

declare str_copy_loop.simps [simp del]

lemma cstr_Nil [cstr_simps, simp]: "cstr [] = []"
  by (simp add: cstr_def)

lemma cstr_no_NUL: "NUL \<notin> set (cstr s)"
  by (auto simp: cstr_def dest: set_takeWhileD)

lemma cstr_id: "NUL \<notin> set s \<Longrightarrow> cstr s = s"
  unfolding cstr_def by (rule takeWhile_eq_all_conv [THEN iffD2]) auto

lemma cstr_idem [cstr_simps, simp]: "cstr (cstr s) = cstr s"
  by (simp add: cstr_id cstr_no_NUL)

lemma c_at_cstr: "n \<le> length (cstr s) \<Longrightarrow> c_at (cstr s) n = c_at s n"
proof (cases "n < length (cstr s)")
  case True
  moreover have "n < length s"
    using True length_takeWhile_le [of "\<lambda>c. c \<noteq> NUL" s] by (simp add: cstr_def)
  moreover have "cstr s ! n = s ! n"
    using True by (simp add: cstr_def takeWhile_nth)
  ultimately show ?thesis by (simp add: c_at_def)
next
  case False
  assume "n \<le> length (cstr s)"
  with False have n: "n = length (takeWhile (\<lambda>c. c \<noteq> NUL) s)" by (simp add: cstr_def)
  show ?thesis
  proof (cases "n < length s")
    case True
    then have "s ! n = NUL" using n nth_length_takeWhile by blast
    with True False show ?thesis by (simp add: c_at_def)
  next
    case F: False
    with False show ?thesis by (simp add: c_at_def)
  qed
qed

lemma c_at_NUL_iff: "n \<le> length (cstr s) \<Longrightarrow> c_at s n = NUL \<longleftrightarrow> n = length (cstr s)"
  using c_at_cstr [of n s] cstr_no_NUL [of s] nth_mem [of n "cstr s"]
  by (cases "n < length (cstr s)") (auto simp: c_at_def [of "cstr s"])

lemma str_len_loop_eq: "n \<le> length (cstr s) \<Longrightarrow> str_len_loop s n = length (cstr s)"
proof (induction "length (cstr s) - n" arbitrary: n)
  case 0
  then have "c_at s n = NUL" by (simp add: c_at_NUL_iff)
  with 0 show ?case by (simp add: str_len_loop.simps [of s n])
next
  case (Suc k)
  then have "c_at s n \<noteq> NUL" by (simp add: c_at_NUL_iff)
  with Suc show ?case by (simp add: str_len_loop.simps [of s n])
qed

lemma str_eq_loop_drop:
  assumes "i \<le> length (cstr a)" and "i \<le> length (cstr b)"
  shows "str_eq_loop a b i \<longleftrightarrow> drop i (cstr a) = drop i (cstr b)"
  using assms
proof (induction "length (cstr a) - i" arbitrary: i)
  case 0
  then have "c_at a i = NUL" by (simp add: c_at_NUL_iff)
  with 0 show ?case
    by (auto simp: str_eq_loop.simps [of a b i] c_at_NUL_iff)
next
  case (Suc k)
  then have a: "c_at a i \<noteq> NUL" and ia: "i < length (cstr a)" by (auto simp: c_at_NUL_iff)
  show ?case
  proof (cases "i < length (cstr b)")
    case False
    with Suc.prems ia have "c_at b i = NUL" "i = length (cstr b)" by (auto simp: c_at_NUL_iff)
    with a ia show ?thesis by (subst str_eq_loop.simps) simp
  next
    case True
    then have "c_at b i \<noteq> NUL" by (simp add: c_at_NUL_iff)
    moreover have "c_at a i = cstr a ! i" "c_at b i = cstr b ! i"
      using ia True c_at_cstr [of i a] c_at_cstr [of i b] by (simp_all add: c_at_def)
    moreover have "drop i (cstr a) = cstr a ! i # drop (i + 1) (cstr a)"
      "drop i (cstr b) = cstr b ! i # drop (i + 1) (cstr b)"
      using ia True by (simp_all add: Cons_nth_drop_Suc)
    moreover have "str_eq_loop a b (i + 1) \<longleftrightarrow> drop (i + 1) (cstr a) = drop (i + 1) (cstr b)"
      using Suc ia True by (intro Suc.hyps) auto
    ultimately show ?thesis using a by (simp add: str_eq_loop.simps [of a b i])
  qed
qed

lemma str_eq_loop_cstr [cstr_simps]: "str_eq_loop a b 0 \<longleftrightarrow> cstr a = cstr b"
  using str_eq_loop_drop [of 0 a b] by simp

lemma str_len_loop_cstr [cstr_simps]: "str_len_loop s 0 = length (cstr s)"
  by (rule str_len_loop_eq) simp

lemma str_copy_loop_eq:
  assumes "i \<le> length (cstr src)" and "i < n" and "n \<le> length dst"
  shows "str_copy_loop dst src n i =
    (let k = min (n - 1) (length (cstr src)) in
     (take i dst @ take (k - i) (drop i (cstr src)) @ [NUL] @ drop (k + 1) dst, k))"
  using assms
proof (induction "n - i" arbitrary: i dst)
  case 0
  then show ?case by simp
next
  case (Suc m)
  show ?case
  proof (cases "i + 1 < n \<and> i < length (cstr src)")
    case True
    then have nn: "c_at src i \<noteq> NUL" and ch: "c_at src i = cstr src ! i"
      using c_at_cstr [of i src] by (auto simp: c_at_NUL_iff c_at_def [of "cstr src"])
    define dst' where "dst' = dst[i := c_at src i]"
    let ?k = "min (n - 1) (length (cstr src))"
    have "str_copy_loop dst src n i = str_copy_loop dst' src n (i + 1)"
      using True nn by (subst str_copy_loop.simps) (simp add: dst'_def)
    also have "\<dots> = (take (i + 1) dst' @ take (?k - (i + 1)) (drop (i + 1) (cstr src)) @ [NUL]
        @ drop (?k + 1) dst', ?k)"
      using Suc.prems Suc.hyps(2) True
        Suc.hyps(1) [of "i + 1" dst'] by (simp add: dst'_def Let_def)
    also have "take (i + 1) dst' = take i dst @ [cstr src ! i]"
      using Suc.prems ch by (simp add: dst'_def take_Suc_conv_app_nth)
    also have "drop (?k + 1) dst' = drop (?k + 1) dst"
      using True unfolding dst'_def by (intro drop_update_cancel) auto
    finally have "str_copy_loop dst src n i = (take i dst @ (cstr src ! i #
        take (?k - (i + 1)) (drop (i + 1) (cstr src))) @ [NUL] @ drop (?k + 1) dst, ?k)"
      by simp
    moreover have "cstr src ! i # take (?k - (i + 1)) (drop (i + 1) (cstr src)) =
        take (?k - i) (drop i (cstr src))"
    proof -
      have "?k - i = Suc (?k - (i + 1))" using True by auto
      then show ?thesis using True by (simp add: Cons_nth_drop_Suc [symmetric])
    qed
    ultimately show ?thesis by (simp add: Let_def)
  next
    case False
    then have "\<not> (i + 1 < n \<and> c_at src i \<noteq> NUL)" using Suc.prems by (auto simp: c_at_NUL_iff)
    moreover have "min (n - 1) (length (cstr src)) = i" using False Suc.prems by auto
    ultimately show ?thesis
      using Suc.prems by (subst str_copy_loop.simps) (auto simp: Let_def upd_conv_take_nth_drop)
  qed
qed

lemma str_copy_loop_0:
  assumes "0 < n" and "n \<le> length dst"
  shows "str_copy_loop dst src n 0 =
    (let k = min (n - 1) (length (cstr src)) in
     (take k (cstr src) @ NUL # drop (k + 1) dst, k))"
  using str_copy_loop_eq [of 0 src n dst] assms by (simp add: Let_def)

lemma cstr_append_NUL: "NUL \<notin> set xs \<Longrightarrow> cstr (xs @ NUL # ys) = xs"
  unfolding cstr_def by (subst takeWhile_append2) auto

lemma cstr_str_copy:
  assumes "0 < n" and "n \<le> length dst"
  shows "cstr (fst (str_copy_loop dst src n 0)) = take (n - 1) (cstr src)"
    and "snd (str_copy_loop dst src n 0) = length (take (n - 1) (cstr src))"
    and "length (fst (str_copy_loop dst src n 0)) = length dst"
proof -
  have "NUL \<notin> set (take k (cstr src))" for k
    using cstr_no_NUL [of src] by (meson in_set_takeD)
  then show "cstr (fst (str_copy_loop dst src n 0)) = take (n - 1) (cstr src)"
    using assms by (simp add: str_copy_loop_0 Let_def cstr_append_NUL min_def)
qed (use assms in \<open>auto simp: str_copy_loop_0 Let_def min_def\<close>)

text \<open>
  Every subsystem carries its own static \<open>str_copy\<close>.  The contract they share is stated once: the
  copy is the text cut to what fits in front of the terminator, inside the destination buffer.
\<close>

locale bounded_copy =
  fixes copy :: "string \<Rightarrow> u32 \<Rightarrow> string \<Rightarrow> string"
  assumes copy_text: "0 < n \<Longrightarrow> unat n \<le> length dst \<Longrightarrow> cstr (copy dst n src) = take (unat n - 1) (cstr src)"
    and copy_size: "unat n \<le> length dst \<Longrightarrow> length (copy dst n src) = length dst"
begin

lemma copy_exact:
  assumes "length (cstr src) < unat n" and "unat n \<le> length dst"
  shows "cstr (copy dst n src) = cstr src"
proof -
  from assms have "0 < n" by (auto simp: word_gt_0)
  with assms show ?thesis using copy_text [of n dst src] by simp
qed

lemma copy_fits:
  assumes "0 < n" and "unat n \<le> length dst"
  shows "length (cstr (copy dst n src)) < unat n"
proof -
  from assms have "0 < unat n" by (simp add: unat_gt_0 word_gt_0)
  with assms show ?thesis using copy_text [of n dst src] by simp
qed

end

end
