(* ===== verification/Memory.thy ===== *)
theory Memory
  imports Mars_Prelude
begin

text \<open>
  Physical memory as the kernel sees it through its identity map: a function from 32-bit addresses
  to bytes, with the little-endian 16-, 32- and 64-bit accesses the C code makes through typed
  pointers, and the byte loops \<open>mem_copy_u8\<close> and \<open>mem_zero_u8\<close>.
\<close>

type_synonym mem = "u32 \<Rightarrow> u8"

definition load16 :: "mem \<Rightarrow> u32 \<Rightarrow> u16" where
  "load16 m a = push_bit 8 (ucast (m (a + 1))) OR ucast (m a)"

definition load32 :: "mem \<Rightarrow> u32 \<Rightarrow> u32" where
  "load32 m a = push_bit 24 (ucast (m (a + 3))) OR push_bit 16 (ucast (m (a + 2)))
     OR push_bit 8 (ucast (m (a + 1))) OR ucast (m a)"

definition load64 :: "mem \<Rightarrow> u32 \<Rightarrow> u64" where
  "load64 m a = push_bit 32 (ucast (load32 m (a + 4))) OR ucast (load32 m a)"

definition store32 :: "mem \<Rightarrow> u32 \<Rightarrow> u32 \<Rightarrow> mem" where
  "store32 m a v = m(a := ucast v, a + 1 := ucast (drop_bit 8 v),
     a + 2 := ucast (drop_bit 16 v), a + 3 := ucast (drop_bit 24 v))"

definition page_of :: "u32 \<Rightarrow> nat" where
  "page_of a = unat a div 4096"

definition aligned4 :: "u32 \<Rightarrow> bool" where
  "aligned4 a \<longleftrightarrow> unat a mod 4 = 0"

lemma load32_store32_same: "load32 (store32 m a v) a = v"
proof -
  have d: "a + 1 \<noteq> a" "a + 2 \<noteq> a" "a + 3 \<noteq> a" "a + 2 \<noteq> a + 1" "a + 3 \<noteq> a + 1" "a + 3 \<noteq> a + 2"
    by auto
  have "push_bit 24 (ucast (ucast (drop_bit 24 v) :: u8)) OR
      push_bit 16 (ucast (ucast (drop_bit 16 v) :: u8)) OR
      push_bit 8 (ucast (ucast (drop_bit 8 v) :: u8)) OR ucast (ucast v :: u8) = v" (is "?w = v")
  proof (rule bit_word_eqI)
    fix n
    assume "n < LENGTH(32)"
    then consider "n < 8" | "8 \<le> n" "n < 16" | "16 \<le> n" "n < 24" | "24 \<le> n" "n < 32"
      by fastforce
    then show "bit ?w n = bit v n"
      by cases (auto simp: bit_simps)
  qed
  then show ?thesis
    using d by (simp add: load32_def store32_def)
qed

lemma unat_plus_small:
  "unat (a :: u32) + unat k < 4294967296 \<Longrightarrow> unat (a + k) = unat a + unat k"
  by (simp add: unat_word_ariths)

lemma aligned4_plus:
  assumes "aligned4 a" and "k \<in> {0, 1, 2, 3}"
  shows "unat (a + k) = unat a + unat k"
proof -
  have "unat a \<le> 4294967292" using assms(1) unat_u32_less [of a]
    by (auto simp: aligned4_def mod_eq_0_iff_dvd elim!: dvdE)
  then show ?thesis using assms(2) by (intro unat_plus_small) auto
qed

lemma store32_byte_other:
  "b \<notin> {a, a + 1, a + 2, a + 3} \<Longrightarrow> store32 m a v b = m b"
  by (simp add: store32_def)

lemma aligned4_disjoint:
  assumes "aligned4 a" "aligned4 b" "a \<noteq> b" "j \<in> {0, 1, 2, 3}" "k \<in> {0, 1, 2, 3}"
  shows "b + k \<noteq> a + j"
proof
  assume "b + k = a + j"
  then have "unat b + unat k = unat a + unat j"
    using assms aligned4_plus [of a j] aligned4_plus [of b k] by simp
  moreover have "unat j \<le> 3" "unat k \<le> 3" using assms(4,5) by auto
  moreover have "unat a mod 4 = 0" "unat b mod 4 = 0" using assms(1,2) by (auto simp: aligned4_def)
  ultimately have "unat a = unat b" by presburger
  with assms(3) show False by (simp add: unat_inj_u32)
qed

lemma load32_store32_other:
  assumes "aligned4 a" "aligned4 b" "a \<noteq> b"
  shows "load32 (store32 m a v) b = load32 m b"
proof -
  have "store32 m a v (b + k) = m (b + k)" if "k \<in> {0, 1, 2, 3}" for k
    using aligned4_disjoint [OF assms _ that, of 0] aligned4_disjoint [OF assms _ that, of 1]
      aligned4_disjoint [OF assms _ that, of 2] aligned4_disjoint [OF assms _ that, of 3]
    by (intro store32_byte_other) auto
  from this [of 0] this [of 1] this [of 2] this [of 3] show ?thesis
    by (simp add: load32_def)
qed

section \<open>Arrays of 1024 words inside one page\<close>

text \<open>\<open>table[i]\<close> for a table that starts at the page address \<open>t\<close>.\<close>

definition entry_addr :: "u32 \<Rightarrow> nat \<Rightarrow> u32" where
  "entry_addr t i = t + 4 * of_nat i"

definition page_addr :: "u32 \<Rightarrow> bool" where
  "page_addr t \<longleftrightarrow> unat t mod 4096 = 0"

lemma unat_entry_addr:
  assumes "page_addr t" and "i < 1024"
  shows "unat (entry_addr t i) = unat t + 4 * i"
proof -
  have "unat t \<le> 4294963200" using assms(1) unat_u32_less [of t]
    by (auto simp: page_addr_def mod_eq_0_iff_dvd elim!: dvdE)
  moreover have "unat (4 * of_nat i :: u32) = 4 * i"
    using assms(2) by (simp add: unat_word_ariths unat_of_nat)
  ultimately show ?thesis
    using assms(2) by (simp add: entry_addr_def unat_plus_small)
qed

lemma aligned4_entry_addr: "page_addr t \<Longrightarrow> i < 1024 \<Longrightarrow> aligned4 (entry_addr t i)"
  by (auto simp: aligned4_def unat_entry_addr page_addr_def mod_eq_0_iff_dvd elim!: dvdE)

lemma entry_addr_eq_iff:
  assumes "page_addr t" "page_addr t'" "i < 1024" "j < 1024"
  shows "entry_addr t i = entry_addr t' j \<longleftrightarrow> t = t' \<and> i = j"
proof -
  have "unat t + 4 * i = unat t' + 4 * j \<longleftrightarrow> unat t = unat t' \<and> i = j"
  proof
    assume eq: "unat t + 4 * i = unat t' + 4 * j"
    obtain p q where p: "unat t = 4096 * p" and q: "unat t' = 4096 * q"
      using assms(1,2) by (auto simp: page_addr_def mod_eq_0_iff_dvd elim!: dvdE)
    have "(unat t + 4 * i) div 4096 = p" "(unat t' + 4 * j) div 4096 = q"
      using assms(3,4) p q by simp_all
    with eq p q show "unat t = unat t' \<and> i = j" by simp
  qed simp
  then show ?thesis
    using assms by (simp add: unat_inj_u32 [symmetric] unat_entry_addr)
qed

lemma load32_store_entry:
  assumes "page_addr t" "page_addr t'" "i < 1024" "j < 1024"
  shows "load32 (store32 m (entry_addr t i) v) (entry_addr t' j) =
    (if t = t' \<and> i = j then v else load32 m (entry_addr t' j))"
  using assms load32_store32_other [of "entry_addr t i" "entry_addr t' j" m v]
  by (auto simp: aligned4_entry_addr entry_addr_eq_iff load32_store32_same)

end
