(* ===== verification/Pmm.thy ===== *)
theory Pmm
  imports Memory
begin

text \<open>
  The physical frame allocator of \<open>kernel/pmm.c\<close>: a bitmap with one bit per 4 KiB frame of the
  32-bit address space (1 = taken), the usable regions reported by the Multiboot memory map, and the
  counters.  The allocator's contract is the locale \<open>frame_allocator\<close>; its interpretation on the
  bitmap operations is \<open>pmm_frames\<close>.
\<close>

section \<open>State\<close>

abbreviation PMM_MAX_REGIONS :: nat where
  "PMM_MAX_REGIONS \<equiv> 32"

abbreviation PMM_MAX_FRAMES :: nat where
  "PMM_MAX_FRAMES \<equiv> 1048576"

record pmm =
  pmm_region_start :: "u32 list"
  pmm_region_end :: "u32 list"
  pmm_region_count :: nat
  pmm_total :: u32
  pmm_used :: u32
  pmm_bitmap :: "nat \<Rightarrow> u32"
  pmm_hint_frame :: u32
  pmm_highest_end :: u32
  pmm_initialized :: bool

record multiboot_info =
  mbi_flags :: u32
  mbi_mem_lower :: u32
  mbi_mem_upper :: u32
  mbi_cmdline :: u32
  mbi_mods_count :: u32
  mbi_mods_addr :: u32
  mbi_mmap_length :: u32
  mbi_mmap_addr :: u32

record mmap_entry =
  me_size :: u32
  me_addr :: u64
  me_len :: u64
  me_type :: u32

record multiboot_module =
  mod_start :: u32
  mod_end :: u32
  mod_string :: u32

text \<open>The three structures of \<open>multiboot.h\<close> at their packed offsets.\<close>

definition mbi_at :: "mem \<Rightarrow> u32 \<Rightarrow> multiboot_info" where
  "mbi_at m a = \<lparr> mbi_flags = load32 m a, mbi_mem_lower = load32 m (a + 4),
     mbi_mem_upper = load32 m (a + 8), mbi_cmdline = load32 m (a + 16),
     mbi_mods_count = load32 m (a + 20), mbi_mods_addr = load32 m (a + 24),
     mbi_mmap_length = load32 m (a + 44), mbi_mmap_addr = load32 m (a + 48) \<rparr>"

definition mmap_entry_at :: "mem \<Rightarrow> u32 \<Rightarrow> mmap_entry" where
  "mmap_entry_at m a = \<lparr> me_size = load32 m a, me_addr = load64 m (a + 4),
     me_len = load64 m (a + 12), me_type = load32 m (a + 20) \<rparr>"

definition module_at :: "mem \<Rightarrow> u32 \<Rightarrow> multiboot_module" where
  "module_at m a = \<lparr> mod_start = load32 m a, mod_end = load32 m (a + 4),
     mod_string = load32 m (a + 8) \<rparr>"

section \<open>Bitmap and regions\<close>

definition pmm_bit_is_set :: "pmm \<Rightarrow> u32 \<Rightarrow> bool" where
  "pmm_bit_is_set s frame_index \<longleftrightarrow>
     (pmm_bitmap s (unat (drop_bit 5 frame_index)) AND push_bit (unat (frame_index AND 31)) 1) \<noteq> 0"

definition pmm_set_bit :: "u32 \<Rightarrow> pmm \<Rightarrow> pmm" where
  "pmm_set_bit frame_index s =
     (let w = unat (drop_bit 5 frame_index) in
      s\<lparr>pmm_bitmap := (pmm_bitmap s)
        (w := pmm_bitmap s w OR push_bit (unat (frame_index AND 31)) 1)\<rparr>)"

definition pmm_clear_bit :: "u32 \<Rightarrow> pmm \<Rightarrow> pmm" where
  "pmm_clear_bit frame_index s =
     (let w = unat (drop_bit 5 frame_index) in
      s\<lparr>pmm_bitmap := (pmm_bitmap s)
        (w := pmm_bitmap s w AND NOT (push_bit (unat (frame_index AND 31)) 1))\<rparr>)"

definition pmm_frame_in_regions :: "pmm \<Rightarrow> u32 \<Rightarrow> bool" where
  "pmm_frame_in_regions s frame \<longleftrightarrow>
     list_ex (\<lambda>i. frame \<ge> pmm_region_start s ! i \<and> frame < pmm_region_end s ! i)
       [0..<pmm_region_count s]"

text \<open>
  The two range loops step a page-aligned address by \<open>PAGE_SIZE\<close> up to a page-aligned limit; the
  model runs over the page numbers in between.  The guard \<open>frame_index >= PMM_MAX_FRAMES\<close> of the
  source cannot hold for a 32-bit address (\<open>frame_index_bound\<close> below).
\<close>

definition page_range :: "u32 \<Rightarrow> u32 \<Rightarrow> u32 list" where
  "page_range frame limit = map of_nat [unat frame div 4096..<unat limit div 4096]"

definition pmm_mark_step :: "u32 \<Rightarrow> pmm \<Rightarrow> pmm" where
  "pmm_mark_step frame_index s =
     (if pmm_bit_is_set s frame_index
      then (pmm_clear_bit frame_index s)\<lparr>pmm_total := pmm_total s + 1\<rparr> else s)"

definition pmm_mark_region_usable :: "u32 \<Rightarrow> u32 \<Rightarrow> pmm \<Rightarrow> pmm" where
  "pmm_mark_region_usable start end s =
     fold pmm_mark_step (page_range (align_up_4k start) (align_down_4k end)) s"

definition pmm_reserve_step :: "u32 \<Rightarrow> pmm \<Rightarrow> pmm" where
  "pmm_reserve_step frame_index s =
     (if pmm_frame_in_regions s (frame_index * PAGE_SIZE) \<and> \<not> pmm_bit_is_set s frame_index
      then (pmm_set_bit frame_index s)\<lparr>pmm_used := pmm_used s + 1\<rparr> else s)"

definition pmm_reserve_range :: "u32 \<Rightarrow> u32 \<Rightarrow> pmm \<Rightarrow> pmm" where
  "pmm_reserve_range start end s =
     (let start_aligned = align_down_4k start; end_aligned = align_up_4k end in
      if start_aligned \<ge> end_aligned then s
      else fold pmm_reserve_step (page_range start_aligned end_aligned) s)"

section \<open>Initialisation\<close>

text \<open>\<open>while (len < 4096u) { if (text[len] == '\0') { len++; break; } len++; }\<close>\<close>

function bounded_text_len :: "mem \<Rightarrow> u32 \<Rightarrow> nat \<Rightarrow> nat" where
  "bounded_text_len m a len =
     (if len < 4096 then (if m (a + of_nat len) = 0 then len + 1 else bounded_text_len m a (len + 1))
      else len)"
  by pat_completeness auto
termination
  by (relation "measure (\<lambda>(m, a, len). 4096 - len)") auto

declare bounded_text_len.simps [simp del]

definition pmm_reserve_text :: "mem \<Rightarrow> u32 \<Rightarrow> pmm \<Rightarrow> pmm" where
  "pmm_reserve_text m a s =
     (let len = bounded_text_len m a 0; len' = (if len = 0 then 1 else len) in
      pmm_reserve_range a (a + of_nat len') s)"

definition pmm_reserve_module :: "mem \<Rightarrow> u32 \<Rightarrow> nat \<Rightarrow> pmm \<Rightarrow> pmm" where
  "pmm_reserve_module m mods_addr i s =
     (let md = module_at m (mods_addr + 16 * of_nat i);
          s1 = (if mod_end md > mod_start md
                then pmm_reserve_range (mod_start md) (mod_end md) s else s) in
      if mod_string md \<noteq> 0 then pmm_reserve_text m (mod_string md) s1 else s1)"

definition pmm_reserve_multiboot_data :: "mem \<Rightarrow> u32 \<Rightarrow> pmm \<Rightarrow> pmm" where
  "pmm_reserve_multiboot_data m mbi s =
     (let i = mbi_at m mbi;
          s1 = pmm_reserve_range mbi (mbi + 52) s;
          s2 = (if mbi_flags i AND 64 \<noteq> 0
                then pmm_reserve_range (mbi_mmap_addr i) (mbi_mmap_addr i + mbi_mmap_length i) s1
                else s1);
          s3 = (if mbi_cmdline i \<noteq> 0 then pmm_reserve_text m (mbi_cmdline i) s2 else s2) in
      if mbi_mods_count i > 0 \<and> mbi_mods_addr i \<noteq> 0
      then fold (pmm_reserve_module m (mbi_mods_addr i)) [0..<unat (mbi_mods_count i)]
             (pmm_reserve_range (mbi_mods_addr i)
               (mbi_mods_addr i + mbi_mods_count i * 16) s3)
      else s3)"

text \<open>The body of the memory-map loop for one entry.\<close>

definition pmm_init_entry :: "u32 \<Rightarrow> mmap_entry \<Rightarrow> pmm \<Rightarrow> pmm" where
  "pmm_init_entry required_start entry s =
     (if me_type entry = 1 then
        let start0 = me_addr entry;
            end0 = me_addr entry + me_len entry;
            region_start_64 = (if start0 < 0x100000 then 0x100000 else start0);
            region_end_64 = (if end0 > 0xFFFFFFFF then 0xFFFFFFFF else end0) in
        if region_start_64 < region_end_64 then
          let region_start0 = align_up_4k (ucast region_start_64);
              region_end = (ucast region_end_64 :: u32) AND NOT (PAGE_SIZE - 1);
              region_start = (if region_start0 < required_start
                              then align_up_4k required_start else region_start0) in
          if region_start < region_end \<and> pmm_region_count s < PMM_MAX_REGIONS then
            let c = pmm_region_count s in
            pmm_mark_region_usable region_start region_end
              (s\<lparr>pmm_region_start := (pmm_region_start s)[c := region_start],
                 pmm_region_end := (pmm_region_end s)[c := region_end],
                 pmm_highest_end := (if region_end > pmm_highest_end s then region_end
                                     else pmm_highest_end s),
                 pmm_region_count := c + 1\<rparr>)
          else s
        else s
      else s)"

text \<open>
  The loop follows the size field of each entry; a map whose sizes wrap around never ends, which is
  the value \<open>None\<close>.
\<close>

partial_function (option) pmm_mmap_loop :: "mem \<Rightarrow> u32 \<Rightarrow> u32 \<Rightarrow> u32 \<Rightarrow> pmm \<Rightarrow> pmm option" where
  "pmm_mmap_loop m mmap_end required_start entry s =
     (if entry < mmap_end
      then pmm_mmap_loop m mmap_end required_start (entry + me_size (mmap_entry_at m entry) + 4)
             (pmm_init_entry required_start (mmap_entry_at m entry) s)
      else Some s)"

definition pmm_init :: "mem \<Rightarrow> u32 \<Rightarrow> u32 \<Rightarrow> pmm \<Rightarrow> pmm option" where
  "pmm_init m mbi kernel_end s =
     (let i = mbi_at m mbi in
      if mbi_flags i AND 64 = 0 then Some (s\<lparr>pmm_initialized := False\<rparr>)
      else
        let mmap_end = mbi_mmap_addr i + mbi_mmap_length i;
            required_start = align_up_4k kernel_end;
            s0 = s\<lparr>pmm_initialized := False, pmm_region_count := 0, pmm_total := 0, pmm_used := 0,
                   pmm_hint_frame := 0, pmm_highest_end := 0, pmm_bitmap := (\<lambda>_. 0xFFFFFFFF)\<rparr> in
        case pmm_mmap_loop m mmap_end required_start (mbi_mmap_addr i) s0 of
          None \<Rightarrow> None
        | Some s1 \<Rightarrow>
            if pmm_region_count s1 = 0 then Some (s1\<lparr>pmm_initialized := False\<rparr>)
            else Some ((pmm_reserve_multiboot_data m mbi s1)\<lparr>pmm_initialized := True\<rparr>))"

section \<open>Allocation\<close>

function pmm_alloc_scan :: "pmm \<Rightarrow> u32 \<Rightarrow> nat \<Rightarrow> u32 option" where
  "pmm_alloc_scan s frame_index checked =
     (if checked < PMM_MAX_FRAMES then
        if \<not> pmm_bit_is_set s frame_index \<and> pmm_frame_in_regions s (frame_index * PAGE_SIZE)
        then Some frame_index
        else let next = frame_index + 1 in
             pmm_alloc_scan s (if next \<ge> of_nat PMM_MAX_FRAMES then 0 else next) (checked + 1)
      else None)"
  by pat_completeness auto
termination
  by (relation "measure (\<lambda>(s, fi, checked). PMM_MAX_FRAMES - checked)") auto

declare pmm_alloc_scan.simps [simp del]

definition pmm_alloc_frame :: "pmm \<Rightarrow> u32 \<times> pmm" where
  "pmm_alloc_frame s =
     (if \<not> pmm_initialized s then (0, s)
      else if pmm_used s \<ge> pmm_total s then (0, s)
      else case pmm_alloc_scan s (pmm_hint_frame s) 0 of
        Some frame_index \<Rightarrow>
          (frame_index * PAGE_SIZE,
           (pmm_set_bit frame_index s)
             \<lparr>pmm_hint_frame := (frame_index + 1) mod of_nat PMM_MAX_FRAMES,
              pmm_used := pmm_used s + 1\<rparr>)
      | None \<Rightarrow> (0, s))"

definition pmm_free_frame :: "u32 \<Rightarrow> pmm \<Rightarrow> bool \<times> pmm" where
  "pmm_free_frame frame s =
     (let frame_addr = frame AND NOT (PAGE_SIZE - 1);
          frame_index = frame_addr div PAGE_SIZE in
      if \<not> pmm_initialized s then (False, s)
      else if frame AND (PAGE_SIZE - 1) \<noteq> 0 then (False, s)
      else if frame_index \<ge> of_nat PMM_MAX_FRAMES then (False, s)
      else if \<not> pmm_frame_in_regions s frame_addr then (False, s)
      else if \<not> pmm_bit_is_set s frame_index then (False, s)
      else let s1 = pmm_clear_bit frame_index s;
               s2 = (if frame_index < pmm_hint_frame s1
                     then s1\<lparr>pmm_hint_frame := frame_index\<rparr> else s1);
               s3 = (if pmm_used s2 > 0 then s2\<lparr>pmm_used := pmm_used s2 - 1\<rparr> else s2) in
           (True, s3))"

definition pmm_total_frames :: "pmm \<Rightarrow> u32" where
  "pmm_total_frames s = (if \<not> pmm_initialized s then 0 else pmm_total s)"

definition pmm_used_frames :: "pmm \<Rightarrow> u32" where
  "pmm_used_frames s = (if \<not> pmm_initialized s then 0 else pmm_used s)"

definition pmm_free_frames :: "pmm \<Rightarrow> u32" where
  "pmm_free_frames s =
     (if \<not> pmm_initialized s \<or> pmm_used s \<ge> pmm_total s then 0 else pmm_total s - pmm_used s)"

definition pmm_highest_address :: "pmm \<Rightarrow> u32" where
  "pmm_highest_address s = (if \<not> pmm_initialized s then 0 else pmm_highest_end s)"

definition pmm_ready :: "pmm \<Rightarrow> bool" where
  "pmm_ready s = pmm_initialized s"

text \<open>The loop of the shell command \<open>allocn\<close>: allocate until the count or the first failure.\<close>

fun alloc_many :: "('s \<Rightarrow> u32 \<times> 's) \<Rightarrow> nat \<Rightarrow> 's \<Rightarrow> u32 list \<times> 's" where
  "alloc_many alloc 0 s = ([], s)"
| "alloc_many alloc (Suc n) s =
     (let (f, s') = alloc s in
      if f = 0 then ([], s')
      else let (fs, s'') = alloc_many alloc n s' in (f # fs, s''))"

text \<open>The zero-initialised statics at boot.\<close>

definition pmm_static :: pmm where
  "pmm_static = \<lparr> pmm_region_start = replicate 32 0, pmm_region_end = replicate 32 0,
     pmm_region_count = 0, pmm_total = 0, pmm_used = 0, pmm_bitmap = (\<lambda>_. 0), pmm_hint_frame = 0,
     pmm_highest_end = 0, pmm_initialized = False \<rparr>"

section \<open>Abstraction and invariant\<close>

text \<open>Frames are numbered; \<open>free_set\<close> are the clear bits, \<open>region_set\<close> the usable frames.\<close>

definition taken :: "pmm \<Rightarrow> nat \<Rightarrow> bool" where
  "taken s n \<longleftrightarrow> bit (pmm_bitmap s (n div 32)) (n mod 32)"

definition free_set :: "pmm \<Rightarrow> nat set" where
  "free_set s = {n. n < PMM_MAX_FRAMES \<and> \<not> taken s n}"

definition region_set :: "pmm \<Rightarrow> nat set" where
  "region_set s = {n. n < PMM_MAX_FRAMES \<and> pmm_frame_in_regions s (of_nat n * 4096)}"

definition pmm_inv :: "pmm \<Rightarrow> bool" where
  "pmm_inv s \<longleftrightarrow>
     length (pmm_region_start s) = PMM_MAX_REGIONS \<and> length (pmm_region_end s) = PMM_MAX_REGIONS \<and>
     pmm_region_count s \<le> PMM_MAX_REGIONS \<and> unat (pmm_hint_frame s) < PMM_MAX_FRAMES \<and>
     0 \<notin> region_set s \<and> free_set s \<subseteq> region_set s \<and>
     unat (pmm_total s) = card (region_set s) \<and>
     unat (pmm_used s) = card (region_set s - free_set s)"

section \<open>Bit-level lemmas\<close>

lemma frame_index_bound: "unat (x div 4096 :: u32) < PMM_MAX_FRAMES"
  using unat_u32_less [of x] by (simp add: unat_div)

lemma unat_word_index: "unat (drop_bit 5 fi :: u32) = unat fi div 32"
  using unat_div [of fi 32] by (simp add: drop_bit_eq_div)

lemma bit_or_single: "k < 32 \<Longrightarrow> bit (w OR push_bit k 1 :: u32) n \<longleftrightarrow> bit w n \<or> n = k"
  by (auto simp: bit_simps)

lemma bit_and_not_single: "k < 32 \<Longrightarrow> bit (w AND NOT (push_bit k 1) :: u32) n \<longleftrightarrow> bit w n \<and> n \<noteq> k"
  by (auto simp: bit_simps dest: bit_imp_le_length)

lemma and_single_nonzero: "k < 32 \<Longrightarrow> (w AND push_bit k 1 :: u32) \<noteq> 0 \<longleftrightarrow> bit w k"
proof -
  assume k: "k < 32"
  have "bit (w AND push_bit k 1) n \<longleftrightarrow> n = k \<and> bit w k" for n
    using k by (auto simp: bit_simps)
  then have "bit (w AND push_bit k 1) k \<longleftrightarrow> bit w k"
    and "\<not> bit w k \<Longrightarrow> (w AND push_bit k 1) = 0"
    by (auto intro: bit_eqI)
  then show ?thesis by (metis bit_0_eq bot_apply bot_bool_def)
qed

lemma pmm_bit_is_set_taken: "pmm_bit_is_set s fi \<longleftrightarrow> taken s (unat fi)"
  unfolding pmm_bit_is_set_def taken_def unat_word_index unat_bits_mod32
  by (rule and_single_nonzero) simp

lemma same_slot: "(n :: nat) div 32 = m div 32 \<Longrightarrow> n mod 32 = m mod 32 \<Longrightarrow> n = m"
  by (metis div_mult_mod_eq)

lemma taken_set_bit: "taken (pmm_set_bit fi s) n \<longleftrightarrow> taken s n \<or> n = unat fi"
proof -
  have "taken (pmm_set_bit fi s) n \<longleftrightarrow> taken s n \<or> n div 32 = unat fi div 32 \<and> n mod 32 = unat fi mod 32"
    unfolding taken_def pmm_set_bit_def Let_def unat_word_index unat_bits_mod32
    using bit_or_single [of "unat fi mod 32" "pmm_bitmap s (unat fi div 32)" "n mod 32"] by auto
  then show ?thesis using same_slot [of n "unat fi"] by auto
qed

lemma taken_clear_bit: "taken (pmm_clear_bit fi s) n \<longleftrightarrow> taken s n \<and> n \<noteq> unat fi"
proof -
  have "taken (pmm_clear_bit fi s) n \<longleftrightarrow>
      taken s n \<and> \<not> (n div 32 = unat fi div 32 \<and> n mod 32 = unat fi mod 32)"
    unfolding taken_def pmm_clear_bit_def Let_def unat_word_index unat_bits_mod32
    using bit_and_not_single [of "unat fi mod 32" "pmm_bitmap s (unat fi div 32)" "n mod 32"] by auto
  then show ?thesis using same_slot [of n "unat fi"] by auto
qed

lemma pmm_set_bit_fields [simp]:
  "pmm_region_start (pmm_set_bit fi s) = pmm_region_start s"
  "pmm_region_end (pmm_set_bit fi s) = pmm_region_end s"
  "pmm_region_count (pmm_set_bit fi s) = pmm_region_count s"
  "pmm_total (pmm_set_bit fi s) = pmm_total s"
  "pmm_used (pmm_set_bit fi s) = pmm_used s"
  "pmm_hint_frame (pmm_set_bit fi s) = pmm_hint_frame s"
  "pmm_highest_end (pmm_set_bit fi s) = pmm_highest_end s"
  "pmm_initialized (pmm_set_bit fi s) = pmm_initialized s"
  by (simp_all add: pmm_set_bit_def Let_def)

lemma pmm_clear_bit_fields [simp]:
  "pmm_region_start (pmm_clear_bit fi s) = pmm_region_start s"
  "pmm_region_end (pmm_clear_bit fi s) = pmm_region_end s"
  "pmm_region_count (pmm_clear_bit fi s) = pmm_region_count s"
  "pmm_total (pmm_clear_bit fi s) = pmm_total s"
  "pmm_used (pmm_clear_bit fi s) = pmm_used s"
  "pmm_hint_frame (pmm_clear_bit fi s) = pmm_hint_frame s"
  "pmm_highest_end (pmm_clear_bit fi s) = pmm_highest_end s"
  "pmm_initialized (pmm_clear_bit fi s) = pmm_initialized s"
  by (simp_all add: pmm_clear_bit_def Let_def)

lemma taken_fields [simp]:
  "taken (s\<lparr>pmm_total := v\<rparr>) n = taken s n"
  "taken (s\<lparr>pmm_used := v\<rparr>) n = taken s n"
  "taken (s\<lparr>pmm_hint_frame := v\<rparr>) n = taken s n"
  "taken (s\<lparr>pmm_initialized := b\<rparr>) n = taken s n"
  by (simp_all add: taken_def)

lemma in_regions_cong:
  "pmm_region_start s = pmm_region_start t \<Longrightarrow> pmm_region_end s = pmm_region_end t \<Longrightarrow>
   pmm_region_count s = pmm_region_count t \<Longrightarrow> pmm_frame_in_regions s = pmm_frame_in_regions t"
  by (simp add: pmm_frame_in_regions_def fun_eq_iff)

lemma in_regions_fields [simp]:
  "pmm_frame_in_regions (s\<lparr>pmm_total := v\<rparr>) = pmm_frame_in_regions s"
  "pmm_frame_in_regions (s\<lparr>pmm_used := v\<rparr>) = pmm_frame_in_regions s"
  "pmm_frame_in_regions (s\<lparr>pmm_hint_frame := v\<rparr>) = pmm_frame_in_regions s"
  "pmm_frame_in_regions (s\<lparr>pmm_initialized := b\<rparr>) = pmm_frame_in_regions s"
  "pmm_frame_in_regions (pmm_set_bit fi s) = pmm_frame_in_regions s"
  "pmm_frame_in_regions (pmm_clear_bit fi s) = pmm_frame_in_regions s"
  by (rule in_regions_cong; simp)+

lemma unat_frame_addr: "n < PMM_MAX_FRAMES \<Longrightarrow> unat (of_nat n * 4096 :: u32) = n * 4096"
  by (simp add: unat_word_ariths unat_of_nat)

lemma in_regions_iff:
  "pmm_frame_in_regions s a \<longleftrightarrow>
   (\<exists>i < pmm_region_count s. pmm_region_start s ! i \<le> a \<and> a < pmm_region_end s ! i)"
  by (auto simp: pmm_frame_in_regions_def list_ex_iff)

lemma finite_region_set [simp]: "finite (region_set s)" and finite_free_set [simp]: "finite (free_set s)"
  by (simp_all add: region_set_def free_set_def)

lemma card_region_set: "card (region_set s) \<le> PMM_MAX_FRAMES"
proof -
  have "region_set s \<subseteq> {..<PMM_MAX_FRAMES}" by (auto simp: region_set_def)
  then have "card (region_set s) \<le> card {..<PMM_MAX_FRAMES}" by (intro card_mono) auto
  then show ?thesis by simp
qed

section \<open>Taking and returning one frame\<close>

text \<open>The two elementary moves all operations are made of.\<close>

lemma inv_take:
  assumes inv: "pmm_inv s" and fi: "unat fi \<in> free_set s"
  shows "pmm_inv ((pmm_set_bit fi s)\<lparr>pmm_used := pmm_used s + 1\<rparr>)" (is "pmm_inv ?t")
    and "free_set ((pmm_set_bit fi s)\<lparr>pmm_used := pmm_used s + 1\<rparr>) = free_set s - {unat fi}"
proof -
  have free: "free_set ?t = free_set s - {unat fi}"
    by (auto simp: free_set_def taken_set_bit)
  then show "free_set ((pmm_set_bit fi s)\<lparr>pmm_used := pmm_used s + 1\<rparr>) = free_set s - {unat fi}" .
  have reg: "region_set ?t = region_set s" by (simp add: region_set_def)
  from inv fi have mem: "unat fi \<in> region_set s" by (auto simp: pmm_inv_def)
  have diff: "region_set s - (free_set s - {unat fi}) = insert (unat fi) (region_set s - free_set s)"
    using mem by auto
  have card: "card (region_set s - (free_set s - {unat fi})) = Suc (card (region_set s - free_set s))"
    using fi by (simp add: diff)
  have "card (region_set s - free_set s) \<le> PMM_MAX_FRAMES"
    using card_mono [of "region_set s" "region_set s - free_set s"] card_region_set [of s] by simp
  then have "unat (pmm_used s + 1) = Suc (unat (pmm_used s))"
    using inv by (simp add: pmm_inv_def unat_word_ariths)
  then show "pmm_inv ?t"
    using inv card by (auto simp: pmm_inv_def free reg)
qed

lemma inv_return:
  assumes inv: "pmm_inv s" and fi: "unat fi \<in> region_set s" "taken s (unat fi)"
  shows "pmm_inv ((pmm_clear_bit fi s)\<lparr>pmm_used := pmm_used s - 1\<rparr>)" (is "pmm_inv ?t")
    and "free_set ((pmm_clear_bit fi s)\<lparr>pmm_used := pmm_used s - 1\<rparr>) = insert (unat fi) (free_set s)"
    and "pmm_used s \<noteq> 0"
proof -
  have lt: "unat fi < PMM_MAX_FRAMES" and notfree: "unat fi \<notin> free_set s"
    using fi by (auto simp: region_set_def free_set_def)
  have free: "free_set ?t = insert (unat fi) (free_set s)"
    using lt by (auto simp: free_set_def taken_clear_bit)
  then show "free_set ((pmm_clear_bit fi s)\<lparr>pmm_used := pmm_used s - 1\<rparr>) = insert (unat fi) (free_set s)" .
  have reg: "region_set ?t = region_set s" by (simp add: region_set_def)
  have diff: "region_set s - insert (unat fi) (free_set s) = (region_set s - free_set s) - {unat fi}"
    by auto
  have card: "Suc (card (region_set s - insert (unat fi) (free_set s))) = card (region_set s - free_set s)"
    unfolding diff using fi notfree by (intro card_Suc_Diff1) auto
  then have pos: "0 < unat (pmm_used s)" using inv by (simp add: pmm_inv_def)
  then show "pmm_used s \<noteq> 0" by auto
  from pos have "unat (pmm_used s - 1) = unat (pmm_used s) - 1"
    by (simp add: unat_minus_one unat_gt_0)
  then show "pmm_inv ?t"
    using inv card fi by (auto simp: pmm_inv_def free reg)
qed

section \<open>The allocation scan\<close>

lemma scan_hit_iff:
  assumes "unat fi < PMM_MAX_FRAMES"
  shows "\<not> pmm_bit_is_set s fi \<and> pmm_frame_in_regions s (fi * 4096) \<longleftrightarrow>
    unat fi \<in> free_set s \<inter> region_set s"
  using assms by (auto simp: pmm_bit_is_set_taken free_set_def region_set_def)

lemma scan_next:
  fixes fi :: u32
  assumes "unat fi < PMM_MAX_FRAMES"
  shows "unat (if fi + 1 \<ge> of_nat PMM_MAX_FRAMES then 0 else fi + 1) = (unat fi + 1) mod PMM_MAX_FRAMES"
proof -
  have "unat (fi + 1) = unat fi + 1"
    using assms by (simp add: unat_word_ariths)
  then show ?thesis
    using assms by (auto simp: word_le_nat_alt mod_if)
qed

lemma pmm_alloc_scan_Some:
  assumes "pmm_alloc_scan s fi c = Some r" and "unat fi < PMM_MAX_FRAMES"
  shows "unat r \<in> free_set s \<inter> region_set s"
  using assms
proof (induction s fi c rule: pmm_alloc_scan.induct)
  case (1 s fi c)
  show ?case
  proof (cases "\<not> pmm_bit_is_set s fi \<and> pmm_frame_in_regions s (fi * 4096)")
    case True
    with "1.prems"(1) have "r = fi"
      by (simp add: pmm_alloc_scan.simps [of s fi c] split: if_splits)
    with True "1.prems"(2) show ?thesis by (simp only: scan_hit_iff)
  next
    case False
    with "1.prems"(1) have c: "c < PMM_MAX_FRAMES"
      and r: "pmm_alloc_scan s (if fi + 1 \<ge> of_nat PMM_MAX_FRAMES then 0 else fi + 1) (c + 1) = Some r"
      by (simp_all add: pmm_alloc_scan.simps [of s fi c] Let_def split: if_splits)
    have "unat (if fi + 1 \<ge> of_nat PMM_MAX_FRAMES then 0 else fi + 1) < PMM_MAX_FRAMES"
      using scan_next [OF "1.prems"(2)] by simp
    with "1.IH" [OF c False refl] r show ?thesis by simp
  qed
qed

lemma pmm_alloc_scan_None:
  assumes "pmm_alloc_scan s fi c = None" and "unat fi < PMM_MAX_FRAMES" and "c + k < PMM_MAX_FRAMES"
  shows "(unat fi + k) mod PMM_MAX_FRAMES \<notin> free_set s \<inter> region_set s"
  using assms
proof (induction k arbitrary: fi c)
  case 0
  then show ?case
    using scan_hit_iff [of fi s] by (auto simp: pmm_alloc_scan.simps [of s fi c] split: if_splits)
next
  case (Suc k)
  define nx where "nx = (if fi + 1 \<ge> of_nat PMM_MAX_FRAMES then 0 else fi + 1)"
  have n: "unat nx = (unat fi + 1) mod PMM_MAX_FRAMES"
    unfolding nx_def by (rule scan_next [OF Suc.prems(2)])
  have "pmm_alloc_scan s nx (c + 1) = None"
    using Suc.prems(1,3) unfolding nx_def
    by (simp add: pmm_alloc_scan.simps [of s fi c] Let_def split: if_splits)
  moreover have "unat nx < PMM_MAX_FRAMES" by (simp add: n)
  ultimately have "(unat nx + k) mod PMM_MAX_FRAMES \<notin> free_set s \<inter> region_set s"
    using Suc.prems(3) by (intro Suc.IH [of nx "c + 1"]) auto
  moreover have "(unat nx + k) mod PMM_MAX_FRAMES = (unat fi + Suc k) mod PMM_MAX_FRAMES"
    by (simp add: n mod_add_left_eq)
  ultimately show ?case by simp
qed

lemma pmm_alloc_scan_complete:
  assumes "n \<in> free_set s \<inter> region_set s" and "unat fi < PMM_MAX_FRAMES"
  shows "\<exists>r. pmm_alloc_scan s fi 0 = Some r"
proof (rule ccontr)
  assume "\<not> ?thesis"
  then have none: "pmm_alloc_scan s fi 0 = None" by auto
  have n: "n < PMM_MAX_FRAMES" using assms(1) by (simp add: free_set_def)
  define k where "k = (n + PMM_MAX_FRAMES - unat fi) mod PMM_MAX_FRAMES"
  have "(unat fi + k) mod PMM_MAX_FRAMES = (unat fi + (n + PMM_MAX_FRAMES - unat fi)) mod PMM_MAX_FRAMES"
    unfolding k_def by (rule mod_add_right_eq)
  also have "unat fi + (n + PMM_MAX_FRAMES - unat fi) = n + PMM_MAX_FRAMES" using assms(2) by simp
  also have "(n + PMM_MAX_FRAMES) mod PMM_MAX_FRAMES = n" using n by simp
  finally have eq: "(unat fi + k) mod PMM_MAX_FRAMES = n" .
  have "0 + k < PMM_MAX_FRAMES" by (simp add: k_def)
  from pmm_alloc_scan_None [OF none assms(2) this] have "n \<notin> free_set s \<inter> region_set s"
    by (simp only: eq not_False_eq_True)
  with assms(1) show False by blast
qed

lemma free_nonempty:
  assumes "pmm_inv s" and "pmm_used s < pmm_total s"
  shows "free_set s \<noteq> {}"
proof
  assume "free_set s = {}"
  with assms(1) have "unat (pmm_used s) = unat (pmm_total s)" by (simp add: pmm_inv_def)
  with assms(2) show False by (simp add: word_less_nat_alt)
qed

lemma hint_update_inv:
  "pmm_inv s \<Longrightarrow> unat h < PMM_MAX_FRAMES \<Longrightarrow> pmm_inv (s\<lparr>pmm_hint_frame := h\<rparr>)"
  by (simp add: pmm_inv_def region_set_def free_set_def)

lemma free_set_fields [simp]:
  "free_set (s\<lparr>pmm_hint_frame := h\<rparr>) = free_set s"
  "free_set (s\<lparr>pmm_used := v\<rparr>) = free_set s"
  "free_set (s\<lparr>pmm_total := v\<rparr>) = free_set s"
  "free_set (s\<lparr>pmm_initialized := b\<rparr>) = free_set s"
  by (simp_all add: free_set_def)

lemma region_set_fields [simp]:
  "region_set (s\<lparr>pmm_hint_frame := h\<rparr>) = region_set s"
  "region_set (s\<lparr>pmm_used := v\<rparr>) = region_set s"
  "region_set (s\<lparr>pmm_total := v\<rparr>) = region_set s"
  "region_set (s\<lparr>pmm_initialized := b\<rparr>) = region_set s"
  "region_set (pmm_set_bit fi s) = region_set s"
  "region_set (pmm_clear_bit fi s) = region_set s"
  by (simp_all add: region_set_def)

lemma pmm_alloc_frame_result:
  assumes inv: "pmm_inv s" and init: "pmm_initialized s" and less: "pmm_used s < pmm_total s"
  obtains fi where "pmm_alloc_scan s (pmm_hint_frame s) 0 = Some fi" and "unat fi \<in> free_set s"
    and "unat (fi * 4096) = unat fi * 4096" and "fi * 4096 \<noteq> 0"
proof -
  have hint: "unat (pmm_hint_frame s) < PMM_MAX_FRAMES" and sub: "free_set s \<subseteq> region_set s"
    using inv by (auto simp: pmm_inv_def)
  obtain n where "n \<in> free_set s" using free_nonempty [OF inv less] by blast
  with sub obtain fi where scan: "pmm_alloc_scan s (pmm_hint_frame s) 0 = Some fi"
    using pmm_alloc_scan_complete [of n s "pmm_hint_frame s"] hint by blast
  have mem: "unat fi \<in> free_set s \<inter> region_set s"
    by (rule pmm_alloc_scan_Some [OF scan hint])
  then have lt: "unat fi < PMM_MAX_FRAMES" by (simp add: free_set_def)
  have addr: "unat (fi * 4096) = unat fi * 4096"
    using unat_frame_addr [OF lt] by simp
  have "0 \<notin> region_set s" using inv by (simp add: pmm_inv_def)
  with mem have "unat fi \<noteq> 0" by (metis IntE)
  with addr have "unat (fi * 4096) \<noteq> 0" by simp
  then have "fi * 4096 \<noteq> 0" by (metis unat_0)
  with scan mem addr show thesis by (intro that) auto
qed

section \<open>The allocator contract\<close>

text \<open>
  What the clients of the frame allocator (paging, the kernel heap, the process loader) rely on:
  \<open>owned s\<close> are the frames handed out and not returned, \<open>avail s\<close> those that can still be
  handed out.  Address 0 is the failure value.
\<close>

locale frame_allocator =
  fixes alloc :: "'s \<Rightarrow> u32 \<times> 's"
    and release :: "u32 \<Rightarrow> 's \<Rightarrow> bool \<times> 's"
    and inv :: "'s \<Rightarrow> bool"
    and avail :: "'s \<Rightarrow> u32 set"
    and pool :: "'s \<Rightarrow> u32 set"
  assumes avail_pool: "inv s \<Longrightarrow> avail s \<subseteq> pool s"
    and pool_pages: "inv s \<Longrightarrow> f \<in> pool s \<Longrightarrow> f \<noteq> 0 \<and> page_addr f"
    and pool_finite: "inv s \<Longrightarrow> finite (pool s)"
    and alloc_ok: "inv s \<Longrightarrow> avail s \<noteq> {} \<Longrightarrow> alloc s = (f, s') \<Longrightarrow>
      inv s' \<and> f \<in> avail s \<and> avail s' = avail s - {f} \<and> pool s' = pool s"
    and alloc_empty: "inv s \<Longrightarrow> avail s = {} \<Longrightarrow> alloc s = (0, s)"
    and release_ok: "inv s \<Longrightarrow> f \<in> pool s - avail s \<Longrightarrow> release f s = (b, s') \<Longrightarrow>
      b \<and> inv s' \<and> avail s' = insert f (avail s) \<and> pool s' = pool s"
    and release_bad: "inv s \<Longrightarrow> f \<notin> pool s - avail s \<Longrightarrow> release f s = (False, s)"
begin

definition owned :: "'s \<Rightarrow> u32 set" where
  "owned s = pool s - avail s"

lemma alloc_inv:
  assumes "inv s" "alloc s = (f, s')"
  shows "inv s' \<and> pool s' = pool s"
proof (cases "avail s = {}")
  case True
  with assms alloc_empty [OF assms(1)] show ?thesis by simp
next
  case False
  from alloc_ok [OF assms(1) False assms(2)] show ?thesis by simp
qed

lemma release_inv:
  assumes "inv s" "release f s = (b, s')"
  shows "inv s' \<and> pool s' = pool s"
proof (cases "f \<in> pool s - avail s")
  case True
  from release_ok [OF assms(1) True assms(2)] show ?thesis by simp
next
  case False
  from release_bad [OF assms(1) False] assms show ?thesis by simp
qed

lemma alloc_zero_iff:
  assumes "inv s" "alloc s = (f, s')"
  shows "f = 0 \<longleftrightarrow> avail s = {}"
proof (cases "avail s = {}")
  case True
  with assms alloc_empty [OF assms(1)] show ?thesis by simp
next
  case False
  from alloc_ok [OF assms(1) False assms(2)] have "f \<in> pool s" using avail_pool [OF assms(1)] by blast
  with False pool_pages [OF assms(1)] show ?thesis by simp
qed

lemma alloc_fresh:
  assumes "inv s" "alloc s = (f, s')" "f \<noteq> 0"
  shows "f \<notin> owned s" and "owned s' = insert f (owned s)" and "page_addr f"
    and "avail s' = avail s - {f}" and "f \<in> avail s"
proof -
  have "avail s \<noteq> {}" using assms alloc_zero_iff by blast
  then have ok: "f \<in> avail s" "avail s' = avail s - {f}" "pool s' = pool s"
    using alloc_ok assms by blast+
  then show "f \<notin> owned s" and "owned s' = insert f (owned s)" and "page_addr f"
    and "avail s' = avail s - {f}" and "f \<in> avail s"
    using avail_pool [OF assms(1)] pool_pages [OF assms(1)] by (auto simp: owned_def)
qed

lemma alloc_release:
  assumes "inv s" "alloc s = (f, s')" "f \<noteq> 0" "release f s' = (b, s'')"
  shows "b \<and> avail s'' = avail s \<and> owned s'' = owned s"
proof -
  have fresh: "f \<in> avail s" "avail s' = avail s - {f}"
    using alloc_fresh [OF assms(1-3)] by auto
  have s': "inv s'" "pool s' = pool s" using alloc_inv [OF assms(1,2)] by auto
  have "f \<in> pool s' - avail s'" using fresh s' avail_pool [OF assms(1)] by auto
  from release_ok [OF s'(1) this assms(4)] fresh s' show ?thesis by (auto simp: owned_def)
qed

lemma alloc_many_ok:
  assumes "inv s" "alloc_many alloc n s = (fs, s')"
  shows "inv s' \<and> distinct fs \<and> set fs \<subseteq> avail s \<and> avail s' = avail s - set fs
    \<and> length fs = min n (card (avail s))"
  using assms
proof (induction n arbitrary: s fs)
  case 0
  then show ?case by simp
next
  case (Suc n)
  obtain f t where ft: "alloc s = (f, t)" by fastforce
  show ?case
  proof (cases "f = 0")
    case True
    then have "avail s = {}" using alloc_zero_iff [OF Suc.prems(1) ft] by simp
    moreover have "fs = []" "s' = s"
      using Suc.prems(2) ft True alloc_empty [OF Suc.prems(1) calculation] by simp_all
    ultimately show ?thesis using Suc.prems(1) by simp
  next
    case False
    obtain gs where gs: "alloc_many alloc n t = (gs, s')" "fs = f # gs"
      using Suc.prems(2) ft False by (auto split: prod.splits)
    note fresh = alloc_fresh [OF Suc.prems(1) ft False]
    have fin: "finite (avail s)"
      using avail_pool [OF Suc.prems(1)] pool_finite [OF Suc.prems(1)] by (rule finite_subset)
    have IH: "inv s' \<and> distinct gs \<and> set gs \<subseteq> avail t \<and> avail s' = avail t - set gs
        \<and> length gs = min n (card (avail t))"
      using alloc_inv [OF Suc.prems(1) ft] gs(1) by (intro Suc.IH) auto
    have "card (avail s) = Suc (card (avail t))"
      using fresh(4,5) fin card_Suc_Diff1 [of "avail s" f] by simp
    then have "length fs = min (Suc n) (card (avail s))" using IH gs(2) by simp
    moreover have "distinct fs" "set fs \<subseteq> avail s" "avail s' = avail s - set fs"
      using IH fresh(4,5) gs(2) by auto
    ultimately show ?thesis using IH by blast
  qed
qed

end

definition frame_addr :: "nat \<Rightarrow> u32" where
  "frame_addr n = of_nat n * 4096"

definition avail_frames :: "pmm \<Rightarrow> u32 set" where
  "avail_frames s = frame_addr ` free_set s"

definition pool_frames :: "pmm \<Rightarrow> u32 set" where
  "pool_frames s = frame_addr ` region_set s"

definition pmm_ok :: "pmm \<Rightarrow> bool" where
  "pmm_ok s \<longleftrightarrow> pmm_inv s \<and> pmm_initialized s"

lemma frame_addr_inj: "inj_on frame_addr {..<PMM_MAX_FRAMES}"
proof (rule inj_onI)
  fix a b
  assume ab: "a \<in> {..<PMM_MAX_FRAMES}" "b \<in> {..<PMM_MAX_FRAMES}" "frame_addr a = frame_addr b"
  have "unat (frame_addr a) = a * 4096" "unat (frame_addr b) = b * 4096"
    using ab(1,2) by (simp_all add: frame_addr_def unat_frame_addr)
  then have "a * 4096 = b * 4096" using ab(3) by metis
  then show "a = b" by simp
qed

lemma frame_addr_mem:
  "n < PMM_MAX_FRAMES \<Longrightarrow> A \<subseteq> {..<PMM_MAX_FRAMES} \<Longrightarrow> frame_addr n \<in> frame_addr ` A \<longleftrightarrow> n \<in> A"
  using inj_on_image_mem_iff [OF frame_addr_inj, of n A] by simp

lemma free_set_bound: "free_set s \<subseteq> {..<PMM_MAX_FRAMES}"
  and region_set_bound: "region_set s \<subseteq> {..<PMM_MAX_FRAMES}"
  by (auto simp: free_set_def region_set_def)

lemma frame_addr_page: "frame_addr (unat f div 4096) = f \<longleftrightarrow> page_addr f"
proof -
  have lt: "unat f div 4096 < PMM_MAX_FRAMES" using unat_u32_less [of f] by simp
  have "frame_addr (unat f div 4096) = f \<longleftrightarrow> unat f div 4096 * 4096 = unat f"
    using unat_frame_addr [OF lt] by (simp add: frame_addr_def unat_inj_u32 [symmetric])
  moreover have "unat f = unat f div 4096 * 4096 + unat f mod 4096" by simp
  ultimately show ?thesis unfolding page_addr_def by linarith
qed

lemma page_addr_frame_addr: "n < PMM_MAX_FRAMES \<Longrightarrow> page_addr (frame_addr n)"
  by (simp add: page_addr_def frame_addr_def unat_frame_addr)

lemma avail_empty_iff:
  assumes "pmm_inv s"
  shows "avail_frames s = {} \<longleftrightarrow> pmm_used s \<ge> pmm_total s"
proof
  assume "avail_frames s = {}"
  then have "free_set s = {}" by (simp add: avail_frames_def)
  with assms show "pmm_used s \<ge> pmm_total s" by (simp add: pmm_inv_def word_le_nat_alt)
next
  assume "pmm_used s \<ge> pmm_total s"
  then have "card (region_set s) \<le> card (region_set s - free_set s)"
    using assms by (simp add: pmm_inv_def word_le_nat_alt)
  then have "region_set s - free_set s = region_set s"
    by (intro card_seteq) auto
  then show "avail_frames s = {}" using assms by (auto simp: pmm_inv_def avail_frames_def)
qed

lemma pmm_alloc_frame_ok:
  assumes ok: "pmm_ok s" and av: "avail_frames s \<noteq> {}" and eq: "pmm_alloc_frame s = (f, s')"
  shows "pmm_ok s' \<and> f \<in> avail_frames s \<and> avail_frames s' = avail_frames s - {f}
    \<and> pool_frames s' = pool_frames s"
proof -
  from ok have inv: "pmm_inv s" and init: "pmm_initialized s" by (auto simp: pmm_ok_def)
  from av inv have less: "pmm_used s < pmm_total s" by (simp add: avail_empty_iff not_le)
  obtain fi where scan: "pmm_alloc_scan s (pmm_hint_frame s) 0 = Some fi"
    and fi: "unat fi \<in> free_set s" and addr: "unat (fi * 4096) = unat fi * 4096"
    by (rule pmm_alloc_frame_result [OF inv init less])
  define t where "t = (pmm_set_bit fi s)\<lparr>pmm_used := pmm_used s + 1\<rparr>"
  have s': "s' = t\<lparr>pmm_hint_frame := (fi + 1) mod 1048576\<rparr>" and f: "f = fi * 4096"
    using eq init less [unfolded not_le [symmetric]] scan by (auto simp: pmm_alloc_frame_def t_def)
  have "unat ((fi + 1) mod 1048576) < PMM_MAX_FRAMES" by (simp add: unat_mod)
  then have "pmm_inv s'"
    unfolding s' t_def by (intro hint_update_inv inv_take(1) [OF inv fi])
  moreover have "pmm_initialized s'" using init by (simp add: s' t_def)
  moreover have fa: "f = frame_addr (unat fi)" by (simp add: f frame_addr_def)
  moreover have "free_set s' = free_set s - {unat fi}"
    using inv_take(2) [OF inv fi] by (simp add: s' t_def)
  moreover have "frame_addr ` (free_set s - {unat fi}) = frame_addr ` free_set s - {frame_addr (unat fi)}"
    using inj_on_image_set_diff [OF frame_addr_inj, of "free_set s" "{unat fi}"] fi free_set_bound [of s]
    by auto
  moreover have "region_set s' = region_set s" by (simp add: s' t_def)
  ultimately show ?thesis using fi by (simp add: pmm_ok_def avail_frames_def pool_frames_def)
qed

lemma pmm_free_frame_ok:
  assumes ok: "pmm_ok s" and f: "f \<in> pool_frames s - avail_frames s"
    and eq: "pmm_free_frame f s = (b, s')"
  shows "b \<and> pmm_ok s' \<and> avail_frames s' = insert f (avail_frames s) \<and> pool_frames s' = pool_frames s"
proof -
  from ok have inv: "pmm_inv s" and init: "pmm_initialized s" by (auto simp: pmm_ok_def)
  obtain n where n: "n \<in> region_set s" "f = frame_addr n" using f by (auto simp: pool_frames_def)
  then have lt: "n < PMM_MAX_FRAMES" by (simp add: region_set_def)
  with n f have nf: "n \<notin> free_set s" by (auto simp: avail_frames_def)
  have uf: "unat f = n * 4096" using n lt by (simp add: frame_addr_def unat_frame_addr)
  have base: "f AND - 4096 = f" by (subst unat_inj_u32 [symmetric]) (simp add: page_simps uf)
  define fi where "fi = f div 4096"
  have ufi: "unat fi = n" by (simp add: fi_def unat_div uf)
  have off: "f AND 4095 = 0" using uf by (simp add: page_offset_eq_0)
  have lim: "\<not> fi \<ge> 1048576" using lt ufi by (simp add: word_le_nat_alt)
  have reg: "pmm_frame_in_regions s f" using n by (auto simp: region_set_def frame_addr_def)
  have tk: "taken s (unat fi)" using nf lt ufi by (simp add: free_set_def)
  define t where "t = (pmm_clear_bit fi s)\<lparr>pmm_used := pmm_used s - 1\<rparr>"
  have mem: "unat fi \<in> region_set s" using n ufi by simp
  note ret = inv_return [OF inv mem tk]
  have "pmm_free_frame f s = (True, if fi < pmm_hint_frame s then t\<lparr>pmm_hint_frame := fi\<rparr> else t)"
    using init off lim reg tk ret(3)
    by (simp add: pmm_free_frame_def base pmm_bit_is_set_taken Let_def t_def word_gt_0 fi_def)
  then have s': "b \<and> s' = (if fi < pmm_hint_frame s then t\<lparr>pmm_hint_frame := fi\<rparr> else t)"
    using eq by simp
  have "pmm_inv s'"
    using s' ret(1) lt ufi by (auto simp: t_def intro!: hint_update_inv)
  moreover have "free_set s' = insert n (free_set s)" using s' ret(2) ufi by (auto simp: t_def)
  moreover have "region_set s' = region_set s" "pmm_initialized s'" using s' init by (auto simp: t_def)
  ultimately show ?thesis
    using s' n by (simp add: pmm_ok_def avail_frames_def pool_frames_def)
qed

lemma pmm_free_frame_bad:
  assumes ok: "pmm_ok s" and f: "f \<notin> pool_frames s - avail_frames s"
  shows "pmm_free_frame f s = (False, s)"
proof (rule ccontr)
  assume neq: "pmm_free_frame f s \<noteq> (False, s)"
  have lt: "unat f div 4096 < PMM_MAX_FRAMES" using unat_u32_less [of f] by simp
  have off: "f AND 4095 = 0" and reg: "pmm_frame_in_regions s (f AND - 4096)"
    and tk: "pmm_bit_is_set s ((f AND - 4096) div 4096)"
    using neq by (auto simp: pmm_free_frame_def Let_def split: if_splits)
  then have pa: "page_addr f" by (simp add: page_addr_def page_offset_eq_0)
  then have base: "f AND - 4096 = f"
    by (subst unat_inj_u32 [symmetric]) (auto simp: page_simps page_addr_def)
  have fa: "frame_addr (unat f div 4096) = f" using pa by (simp add: frame_addr_page)
  have "unat f div 4096 \<in> region_set s" using lt reg base fa by (simp add: region_set_def frame_addr_def)
  moreover have "unat f div 4096 \<notin> free_set s"
    using tk base by (simp add: pmm_bit_is_set_taken free_set_def unat_div)
  ultimately have "f \<in> pool_frames s" "f \<notin> avail_frames s"
    using fa frame_addr_mem [OF lt free_set_bound, of s] frame_addr_mem [OF lt region_set_bound, of s]
    by (simp_all add: pool_frames_def avail_frames_def)
  with f show False by simp
qed

lemma used_nonzero:
  assumes "pmm_ok s" and "f \<in> pool_frames s - avail_frames s"
  shows "pmm_used s \<noteq> 0"
proof
  assume "pmm_used s = 0"
  then have "region_set s - free_set s = {}" using assms(1) by (simp add: pmm_ok_def pmm_inv_def)
  then have "region_set s \<subseteq> free_set s" by blast
  with assms(2) show False by (auto simp: pool_frames_def avail_frames_def)
qed

interpretation pmm_frames: frame_allocator pmm_alloc_frame pmm_free_frame pmm_ok avail_frames pool_frames
proof unfold_locales
  fix s f s' b
  assume ok: "pmm_ok s"
  then have inv: "pmm_inv s" by (simp add: pmm_ok_def)
  show "avail_frames s \<subseteq> pool_frames s"
    using inv by (auto simp: avail_frames_def pool_frames_def pmm_inv_def)
  show "finite (pool_frames s)" by (simp add: pool_frames_def)
  show "f \<noteq> 0 \<and> page_addr f" if "f \<in> pool_frames s"
  proof -
    from that obtain n where n: "n \<in> region_set s" "f = frame_addr n" by (auto simp: pool_frames_def)
    then have lt: "n < PMM_MAX_FRAMES" by (simp add: region_set_def)
    have "0 \<notin> region_set s" using inv by (simp add: pmm_inv_def)
    with n(1) have "n \<noteq> 0" by metis
    then have "unat f \<noteq> 0" using n(2) unat_frame_addr [OF lt] by (simp add: frame_addr_def)
    then show ?thesis using n(2) lt page_addr_frame_addr by auto
  qed
  show "pmm_ok s' \<and> f \<in> avail_frames s \<and> avail_frames s' = avail_frames s - {f}
      \<and> pool_frames s' = pool_frames s"
    if "avail_frames s \<noteq> {}" "pmm_alloc_frame s = (f, s')"
    using pmm_alloc_frame_ok [OF ok that] .
  show "pmm_alloc_frame s = (0, s)" if "avail_frames s = {}"
    using that inv by (simp add: avail_empty_iff pmm_alloc_frame_def)
  show "b \<and> pmm_ok s' \<and> avail_frames s' = insert f (avail_frames s) \<and> pool_frames s' = pool_frames s"
    if "f \<in> pool_frames s - avail_frames s" "pmm_free_frame f s = (b, s')"
    using pmm_free_frame_ok [OF ok that] .
  show "pmm_free_frame f s = (False, s)" if "f \<notin> pool_frames s - avail_frames s"
    using pmm_free_frame_bad [OF ok that] .
qed

section \<open>Boot: the memory map\<close>

text \<open>During \<open>pmm_init\<close>, before anything is reserved, the free frames are the usable ones.\<close>

definition boot_inv :: "pmm \<Rightarrow> bool" where
  "boot_inv s \<longleftrightarrow>
     length (pmm_region_start s) = PMM_MAX_REGIONS \<and> length (pmm_region_end s) = PMM_MAX_REGIONS \<and>
     pmm_region_count s \<le> PMM_MAX_REGIONS \<and> pmm_hint_frame s = 0 \<and> pmm_used s = 0 \<and>
     0 \<notin> region_set s \<and> free_set s = region_set s \<and> unat (pmm_total s) = card (free_set s)"

lemma boot_inv_pmm_inv: "boot_inv s \<Longrightarrow> pmm_inv s"
  by (simp add: boot_inv_def pmm_inv_def)

definition same_regions :: "pmm \<Rightarrow> pmm \<Rightarrow> bool" where
  "same_regions s t \<longleftrightarrow>
     pmm_region_start t = pmm_region_start s \<and> pmm_region_end t = pmm_region_end s \<and>
     pmm_region_count t = pmm_region_count s \<and> pmm_highest_end t = pmm_highest_end s \<and>
     pmm_hint_frame t = pmm_hint_frame s \<and> pmm_initialized t = pmm_initialized s"

lemma same_regions_region_set: "same_regions s t \<Longrightarrow> region_set t = region_set s"
  using in_regions_cong [of t s] by (simp add: same_regions_def region_set_def)

lemma pmm_mark_step_ok:
  assumes x: "unat x < PMM_MAX_FRAMES" and total: "unat (pmm_total s) = card (free_set s)"
  shows "free_set (pmm_mark_step x s) = insert (unat x) (free_set s)"
    and "unat (pmm_total (pmm_mark_step x s)) = card (free_set (pmm_mark_step x s))"
    and "same_regions s (pmm_mark_step x s) \<and> pmm_used (pmm_mark_step x s) = pmm_used s"
proof -
  show free: "free_set (pmm_mark_step x s) = insert (unat x) (free_set s)"
    using x by (auto simp: pmm_mark_step_def free_set_def pmm_bit_is_set_taken taken_clear_bit)
  have "card (free_set s) \<le> card {..<PMM_MAX_FRAMES}"
    by (intro card_mono free_set_bound) simp
  then have suc: "unat (pmm_total s + 1) = Suc (unat (pmm_total s))"
    using total by (simp add: unat_word_ariths)
  show "unat (pmm_total (pmm_mark_step x s)) = card (free_set (pmm_mark_step x s))"
  proof (cases "pmm_bit_is_set s x")
    case True
    then have "unat x \<notin> free_set s" by (simp add: pmm_bit_is_set_taken free_set_def)
    with True total suc show ?thesis by (simp add: free) (simp add: pmm_mark_step_def)
  next
    case False
    with total show ?thesis by (simp add: pmm_mark_step_def)
  qed
  show "same_regions s (pmm_mark_step x s) \<and> pmm_used (pmm_mark_step x s) = pmm_used s"
    by (simp add: pmm_mark_step_def same_regions_def)
qed

lemma fold_mark_ok:
  assumes "\<forall>x \<in> set xs. unat x < PMM_MAX_FRAMES" and "unat (pmm_total s) = card (free_set s)"
  shows "free_set (fold pmm_mark_step xs s) = free_set s \<union> unat ` set xs
    \<and> unat (pmm_total (fold pmm_mark_step xs s)) = card (free_set (fold pmm_mark_step xs s))
    \<and> same_regions s (fold pmm_mark_step xs s) \<and> pmm_used (fold pmm_mark_step xs s) = pmm_used s"
  using assms
proof (induction xs arbitrary: s)
  case Nil
  then show ?case by (simp add: same_regions_def)
next
  case (Cons x xs)
  let ?t = "pmm_mark_step x s"
  from Cons.prems have "unat x < PMM_MAX_FRAMES" by simp
  note t = pmm_mark_step_ok [OF this Cons.prems(2)]
  have "free_set (fold pmm_mark_step xs ?t) = free_set ?t \<union> unat ` set xs
    \<and> unat (pmm_total (fold pmm_mark_step xs ?t)) = card (free_set (fold pmm_mark_step xs ?t))
    \<and> same_regions ?t (fold pmm_mark_step xs ?t) \<and> pmm_used (fold pmm_mark_step xs ?t) = pmm_used ?t"
    using Cons.prems t(2) by (intro Cons.IH) auto
  with t(1,3) show ?case by (auto simp: same_regions_def)
qed

lemma page_range_bound: "x \<in> set (page_range a b) \<Longrightarrow> unat x < PMM_MAX_FRAMES"
proof -
  assume "x \<in> set (page_range a b)"
  then obtain n where n: "x = of_nat n" "n < unat b div 4096" by (auto simp: page_range_def)
  then have "n < PMM_MAX_FRAMES" using unat_u32_less [of b] by simp
  then show ?thesis using n by (simp add: unat_of_nat)
qed

lemma unat_page_range: "unat ` set (page_range a b) = {unat a div 4096..<unat b div 4096}"
proof -
  have "unat (of_nat n :: u32) = n" if "n < unat b div 4096" for n
    using that unat_u32_less [of b] by (simp add: unat_of_nat)
  then show ?thesis by (force simp: page_range_def image_image)
qed

lemma region_set_add:
  assumes len: "length (pmm_region_start s) = PMM_MAX_REGIONS" "length (pmm_region_end s) = PMM_MAX_REGIONS"
    and c: "pmm_region_count s < PMM_MAX_REGIONS"
    and al: "unat a mod 4096 = 0" "unat b mod 4096 = 0"
  shows "region_set (s\<lparr>pmm_region_start := (pmm_region_start s)[pmm_region_count s := a],
       pmm_region_end := (pmm_region_end s)[pmm_region_count s := b],
       pmm_highest_end := h, pmm_region_count := pmm_region_count s + 1\<rparr>) =
     region_set s \<union> {unat a div 4096..<unat b div 4096}" (is "region_set ?t = _")
proof -
  have "pmm_frame_in_regions ?t x \<longleftrightarrow> pmm_frame_in_regions s x \<or> a \<le> x \<and> x < b" for x
  proof -
    let ?c = "pmm_region_count s"
    have "pmm_frame_in_regions ?t x \<longleftrightarrow>
        (\<exists>i < ?c. pmm_region_start ?t ! i \<le> x \<and> x < pmm_region_end ?t ! i)
        \<or> pmm_region_start ?t ! ?c \<le> x \<and> x < pmm_region_end ?t ! ?c"
      by (auto simp: in_regions_iff less_Suc_eq)
    then show ?thesis using len c by (simp add: in_regions_iff nth_list_update cong: conj_cong)
  qed
  moreover have "a \<le> of_nat n * 4096 \<and> of_nat n * 4096 < b \<longleftrightarrow> n \<in> {unat a div 4096..<unat b div 4096}"
    if "n < PMM_MAX_FRAMES" for n
  proof -
    obtain p q where "unat a = 4096 * p" "unat b = 4096 * q"
      using al by (auto simp: mod_eq_0_iff_dvd elim!: dvdE)
    then show ?thesis
      using unat_frame_addr [OF that] by (auto simp: word_le_nat_alt word_less_nat_alt)
  qed
  moreover have "n < PMM_MAX_FRAMES" if "n \<in> {unat a div 4096..<unat b div 4096}" for n
    using that unat_u32_less [of b] by auto
  ultimately show ?thesis unfolding region_set_def by blast
qed

lemma boot_inv_add_region:
  assumes inv: "boot_inv s" and c: "pmm_region_count s < PMM_MAX_REGIONS"
    and al: "unat a mod 4096 = 0" "unat b mod 4096 = 0" and a: "a \<noteq> 0"
  shows "boot_inv (pmm_mark_region_usable a b
     (s\<lparr>pmm_region_start := (pmm_region_start s)[pmm_region_count s := a],
        pmm_region_end := (pmm_region_end s)[pmm_region_count s := b],
        pmm_highest_end := h, pmm_region_count := pmm_region_count s + 1\<rparr>))"
    (is "boot_inv (pmm_mark_region_usable a b ?t)")
proof -
  have reg: "region_set ?t = region_set s \<union> {unat a div 4096..<unat b div 4096}"
    using inv c al by (intro region_set_add) (auto simp: boot_inv_def)
  have free: "free_set ?t = free_set s" by (simp add: free_set_def taken_def)
  have tot: "unat (pmm_total ?t) = card (free_set ?t)" using inv free by (simp add: boot_inv_def)
  let ?u = "pmm_mark_region_usable a b ?t"
  have u: "?u = fold pmm_mark_step (page_range a b) ?t"
    using al by (simp add: pmm_mark_region_usable_def align_up_id align_down_id)
  have ok: "free_set ?u = free_set ?t \<union> {unat a div 4096..<unat b div 4096}
    \<and> unat (pmm_total ?u) = card (free_set ?u) \<and> same_regions ?t ?u \<and> pmm_used ?u = pmm_used ?t"
    unfolding u using fold_mark_ok [of "page_range a b" ?t] tot page_range_bound [of _ a b]
    by (simp only: unat_page_range) blast
  then have "region_set ?u = region_set ?t" by (simp only: same_regions_region_set)
  moreover have "0 < unat a div 4096"
  proof -
    obtain p where "unat a = 4096 * p" using al(1) by (auto simp: mod_eq_0_iff_dvd elim!: dvdE)
    moreover have "unat a \<noteq> 0" using a by (simp add: unat_eq_0)
    ultimately show ?thesis by simp
  qed
  ultimately show ?thesis
    using inv c ok reg free unfolding boot_inv_def same_regions_def by simp
qed

lemma boot_inv_entry:
  assumes inv: "boot_inv s" and req: "unat required_start mod 4096 = 0" "required_start \<noteq> 0"
  shows "boot_inv (pmm_init_entry required_start entry s)"
proof -
  define rs where "rs = (if me_addr entry < 0x100000 then 0x100000 else me_addr entry)"
  define re where "re = (if me_addr entry + me_len entry > 0xFFFFFFFF then 0xFFFFFFFF
    else me_addr entry + me_len entry)"
  define a where "a = (if align_up_4k (ucast rs) < required_start then align_up_4k required_start
    else align_up_4k (ucast rs))"
  define b where "b = (ucast re :: u32) AND NOT (PAGE_SIZE - 1)"
  have al: "unat a mod 4096 = 0" "unat b mod 4096 = 0"
    by (simp_all add: a_def b_def align_up_aligned page_simps)
  have a0: "a \<noteq> 0"
    using req by (auto simp: a_def align_up_id not_less word_le_nat_alt unat_eq_0)
  have "pmm_init_entry required_start entry s = s \<or>
      pmm_region_count s < PMM_MAX_REGIONS \<and>
      pmm_init_entry required_start entry s = pmm_mark_region_usable a b
        (s\<lparr>pmm_region_start := (pmm_region_start s)[pmm_region_count s := a],
           pmm_region_end := (pmm_region_end s)[pmm_region_count s := b],
           pmm_highest_end := (if b > pmm_highest_end s then b else pmm_highest_end s),
           pmm_region_count := pmm_region_count s + 1\<rparr>)"
    unfolding pmm_init_entry_def Let_def rs_def [symmetric] re_def [symmetric]
      a_def [symmetric] b_def [symmetric]
    by simp
  then show ?thesis
    using inv boot_inv_add_region [OF inv _ al a0] by auto
qed

lemma boot_inv_loop:
  assumes ret: "pmm_mmap_loop m mmap_end required_start entry s = Some t"
    and inv: "boot_inv s" and req: "unat required_start mod 4096 = 0" "required_start \<noteq> 0"
  shows "boot_inv t"
proof -
  have "unat required_start mod 4096 = 0 \<longrightarrow> required_start \<noteq> 0 \<longrightarrow> boot_inv s \<longrightarrow> boot_inv t"
  proof (rule pmm_mmap_loop.raw_induct [where P = "\<lambda>m mmap_end required_start entry s t.
        unat required_start mod 4096 = 0 \<longrightarrow> required_start \<noteq> 0 \<longrightarrow> boot_inv s \<longrightarrow> boot_inv t", OF _ ret])
    fix loop m mmap_end required_start entry s t
    assume IH: "\<And>m mmap_end required_start entry s t.
        loop m mmap_end required_start entry s = Some t \<Longrightarrow>
        unat required_start mod 4096 = 0 \<longrightarrow> required_start \<noteq> 0 \<longrightarrow> boot_inv s \<longrightarrow> boot_inv t"
      and eq: "(if entry < mmap_end
        then loop m mmap_end required_start (entry + me_size (mmap_entry_at m entry) + 4)
               (pmm_init_entry required_start (mmap_entry_at m entry) s)
        else Some s) = Some t"
    show "unat required_start mod 4096 = 0 \<longrightarrow> required_start \<noteq> 0 \<longrightarrow> boot_inv s \<longrightarrow> boot_inv t"
      using eq IH boot_inv_entry by (cases "entry < mmap_end") auto
  qed
  with inv req show ?thesis by simp
qed

lemma pmm_reserve_step_inv:
  assumes "pmm_inv s" and "unat x < PMM_MAX_FRAMES"
  shows "pmm_inv (pmm_reserve_step x s)"
proof (cases "pmm_frame_in_regions s (x * PAGE_SIZE) \<and> \<not> pmm_bit_is_set s x")
  case True
  then have "unat x \<in> free_set s" using scan_hit_iff [OF assms(2), of s] by blast
  with inv_take(1) [OF assms(1)] True show ?thesis by (simp add: pmm_reserve_step_def)
next
  case False
  then have "pmm_reserve_step x s = s" by (auto simp: pmm_reserve_step_def)
  with assms show ?thesis by simp
qed

lemma pmm_reserve_range_inv: "pmm_inv s \<Longrightarrow> pmm_inv (pmm_reserve_range a b s)"
proof -
  have "pmm_inv (fold pmm_reserve_step xs s)"
    if "\<forall>x \<in> set xs. unat x < PMM_MAX_FRAMES" "pmm_inv s" for xs s
    using that by (induction xs arbitrary: s) (auto simp: pmm_reserve_step_inv)
  then show "pmm_inv s \<Longrightarrow> pmm_inv (pmm_reserve_range a b s)"
    using page_range_bound by (auto simp: pmm_reserve_range_def Let_def)
qed

lemma pmm_reserve_text_inv: "pmm_inv s \<Longrightarrow> pmm_inv (pmm_reserve_text m a s)"
  by (simp add: pmm_reserve_text_def Let_def pmm_reserve_range_inv)

lemma pmm_reserve_module_inv: "pmm_inv s \<Longrightarrow> pmm_inv (pmm_reserve_module m a i s)"
  by (simp add: pmm_reserve_module_def Let_def pmm_reserve_range_inv pmm_reserve_text_inv)

lemma pmm_reserve_multiboot_inv:
  assumes "pmm_inv s"
  shows "pmm_inv (pmm_reserve_multiboot_data m mbi s)"
proof -
  have "pmm_inv (fold (pmm_reserve_module m a) is s)" if "pmm_inv s" for a "is" s
    using that by (induction "is" arbitrary: s) (auto simp: pmm_reserve_module_inv)
  with assms show ?thesis
    by (simp add: pmm_reserve_multiboot_data_def Let_def pmm_reserve_range_inv pmm_reserve_text_inv)
qed

section \<open>Termination of the memory-map walk\<close>

inductive mmap_visits :: "mem \<Rightarrow> u32 \<Rightarrow> u32 \<Rightarrow> u32 \<Rightarrow> bool" for m mmap_end first where
  visit_first: "mmap_visits m mmap_end first first"
| visit_next: "mmap_visits m mmap_end first e \<Longrightarrow> e < mmap_end \<Longrightarrow>
    mmap_visits m mmap_end first (e + me_size (mmap_entry_at m e) + 4)"

definition mmap_sizes_sane :: "mem \<Rightarrow> u32 \<Rightarrow> u32 \<Rightarrow> bool" where
  "mmap_sizes_sane m mmap_end first \<longleftrightarrow>
     (\<forall>e. mmap_visits m mmap_end first e \<and> e < mmap_end \<longrightarrow>
        unat e + unat (me_size (mmap_entry_at m e)) + 4 < 2 ^ 32)"

lemma mmap_visits_trans:
  "mmap_visits m mmap_end b e \<Longrightarrow> mmap_visits m mmap_end a b \<Longrightarrow> mmap_visits m mmap_end a e"
  by (induction rule: mmap_visits.induct) (auto intro: visit_next)

lemma pmm_mmap_loop_returns:
  assumes "mmap_sizes_sane m mmap_end entry"
  shows "\<exists>t. pmm_mmap_loop m mmap_end required_start entry s = Some t"
  using assms
proof (induction "unat mmap_end - unat entry" arbitrary: entry s rule: less_induct)
  case less
  show ?case
  proof (cases "entry < mmap_end")
    case False
    then show ?thesis by (simp add: pmm_mmap_loop.simps)
  next
    case True
    let ?n = "entry + me_size (mmap_entry_at m entry) + 4"
    have lt: "unat entry + unat (me_size (mmap_entry_at m entry)) + 4 < 2 ^ 32"
      using less.prems True visit_first by (auto simp: mmap_sizes_sane_def)
    then have n: "unat ?n = unat entry + unat (me_size (mmap_entry_at m entry)) + 4"
      by (simp add: unat_word_ariths)
    have "mmap_visits m mmap_end entry ?n" using True by (intro visit_next visit_first)
    then have "mmap_sizes_sane m mmap_end ?n"
      using less.prems mmap_visits_trans unfolding mmap_sizes_sane_def by blast
    moreover have "unat mmap_end - unat ?n < unat mmap_end - unat entry"
      using True n by (simp add: word_less_nat_alt)
    ultimately show ?thesis
      using less.hyps True by (subst pmm_mmap_loop.simps) simp
  qed
qed

lemma pmm_init_inv:
  assumes "length (pmm_region_start s) = PMM_MAX_REGIONS" "length (pmm_region_end s) = PMM_MAX_REGIONS"
    and "0 < kernel_end" "kernel_end \<le> 0xFFFFF000"
    and "pmm_init m mbi kernel_end s = Some s'" "pmm_ready s'"
  shows "pmm_ok s'"
proof -
  define s0 where "s0 = s\<lparr>pmm_initialized := False, pmm_region_count := 0, pmm_total := 0,
    pmm_used := 0, pmm_hint_frame := 0, pmm_highest_end := 0, pmm_bitmap := (\<lambda>_. 0xFFFFFFFF)\<rparr>"
  have tk: "taken s0 n" for n
  proof -
    have "(0xFFFFFFFF :: u32) = - 1" by simp
    then have "bit (0xFFFFFFFF :: u32) (n mod 32)" by (simp only: bit_minus_1_iff) simp
    then show ?thesis by (simp add: taken_def s0_def)
  qed
  have "boot_inv s0"
    using assms(1,2) tk
    by (simp add: boot_inv_def s0_def [symmetric] free_set_def region_set_def in_regions_iff)
      (simp add: s0_def)
  moreover have "unat (align_up_4k kernel_end) mod 4096 = 0" "align_up_4k kernel_end \<noteq> 0"
  proof -
    show "unat (align_up_4k kernel_end) mod 4096 = 0" by (rule align_up_aligned)
    have "0 < unat kernel_end" "unat kernel_end \<le> 0xFFFFF000"
      using assms(3,4) by (auto simp: word_less_nat_alt word_le_nat_alt)
    then have "unat (align_up_4k kernel_end) \<noteq> 0" by (simp add: unat_align_up div_greater_zero_iff)
    then show "align_up_4k kernel_end \<noteq> 0" by (metis unat_0)
  qed
  ultimately have loop: "boot_inv t"
    if "pmm_mmap_loop m e (align_up_4k kernel_end) a s0 = Some t" for e a t
    using boot_inv_loop [OF that] by simp
  obtain t e a where "pmm_mmap_loop m e (align_up_4k kernel_end) a s0 = Some t"
    and s': "s' = (pmm_reserve_multiboot_data m mbi t)\<lparr>pmm_initialized := True\<rparr>"
    using assms(5,6) unfolding pmm_init_def pmm_ready_def Let_def s0_def [symmetric]
    by (auto split: if_splits option.splits)
  then have "pmm_inv (pmm_reserve_multiboot_data m mbi t)"
    using loop by (intro pmm_reserve_multiboot_inv boot_inv_pmm_inv)
  then have "pmm_inv s'" unfolding s' by (simp add: pmm_inv_def)
  with assms(6) show ?thesis by (simp add: pmm_ok_def pmm_ready_def)
qed

text \<open>A one-page memory map used by the witnesses: one usable entry, [0x200000, 0x201000).\<close>

definition demo_map :: mem where
  "demo_map = (\<lambda>_. 0)(0x9000 := 64, 0x902C := 24, 0x9031 := 0xA0,
     0xA000 := 20, 0xA006 := 0x20, 0xA00D := 0x10, 0xA014 := 1)"

lemma demo_mbi: "mbi_at demo_map 0x9000 = \<lparr> mbi_flags = 64, mbi_mem_lower = 0, mbi_mem_upper = 0,
    mbi_cmdline = 0, mbi_mods_count = 0, mbi_mods_addr = 0, mbi_mmap_length = 24,
    mbi_mmap_addr = 0xA000 \<rparr>"
  by (simp add: mbi_at_def load32_def demo_map_def)

lemma demo_entry: "mmap_entry_at demo_map 0xA000 =
    \<lparr> me_size = 20, me_addr = 0x200000, me_len = 0x1000, me_type = 1 \<rparr>"
  by (simp add: mmap_entry_at_def load32_def load64_def demo_map_def)

lemma demo_align: "align_up_4k 0x180000 = 0x180000" "align_up_4k 0x200000 = 0x200000"
    "align_down_4k 0x201000 = 0x201000" "page_range 0x200000 0x201000 = [512]"
  by (simp_all add: align_up_4k_def align_down_4k_def page_range_def upt_rec)

lemma demo_init:
  obtains s' where "pmm_init demo_map 0x9000 0x180000 pmm_static = Some s'" and "pmm_ready s'"
    and "pmm_total s' = 1" and "pmm_used s' = 0" and "pmm_ok s'" and "avail_frames s' = {0x200000}"
    and "pmm_highest_end s' = 0x201000"
proof -
  have "pmm_mmap_loop demo_map 0xA018 0x180000 0xA000 s = Some (pmm_init_entry 0x180000
      \<lparr> me_size = 20, me_addr = 0x200000, me_len = 0x1000, me_type = 1 \<rparr> s)" for s
    by (simp add: pmm_mmap_loop.simps demo_entry)
  then have "\<exists>s'. pmm_init demo_map 0x9000 0x180000 pmm_static = Some s' \<and> pmm_ready s'
      \<and> pmm_total s' = 1 \<and> pmm_used s' = 0 \<and> pmm_highest_end s' = 0x201000 \<and> pmm_region_count s' = 1
      \<and> pmm_region_start s' ! 0 = 0x200000 \<and> pmm_region_end s' ! 0 = 0x201000"
    by (simp add: pmm_init_def demo_mbi demo_align pmm_init_entry_def Let_def
        pmm_mark_region_usable_def pmm_static_def pmm_mark_step_def pmm_bit_is_set_def
        pmm_clear_bit_def pmm_reserve_multiboot_data_def pmm_reserve_range_def align_up_4k_def
        align_down_4k_def page_range_def upt_rec pmm_reserve_step_def pmm_frame_in_regions_def
        pmm_ready_def)
  then obtain s' where s': "pmm_init demo_map 0x9000 0x180000 pmm_static = Some s'" "pmm_ready s'"
    "pmm_total s' = 1" "pmm_used s' = 0" "pmm_highest_end s' = 0x201000" "pmm_region_count s' = 1"
    "pmm_region_start s' ! 0 = 0x200000" "pmm_region_end s' ! 0 = 0x201000" by blast
  have ok: "pmm_ok s'"
    by (rule pmm_init_inv [OF _ _ _ _ s'(1,2)]) (simp_all add: pmm_static_def)
  have "region_set s' \<subseteq> {512}"
  proof
    fix n assume "n \<in> region_set s'"
    then have n: "n < PMM_MAX_FRAMES" "pmm_frame_in_regions s' (of_nat n * 4096)"
      by (auto simp: region_set_def)
    then have "0x200000 \<le> unat (of_nat n * 4096 :: u32)" "unat (of_nat n * 4096 :: u32) < 0x201000"
      using s'(6-8) ok by (auto simp: in_regions_iff word_le_nat_alt word_less_nat_alt)
    then show "n \<in> {512}" using n(1) by (simp add: unat_frame_addr)
  qed
  moreover have "avail_frames s' \<noteq> {}" using avail_empty_iff [of s'] ok s'(3,4) by (simp add: pmm_ok_def)
  ultimately have "free_set s' = {512}"
    using ok by (auto simp: avail_frames_def pmm_ok_def pmm_inv_def)
  then have "avail_frames s' = {0x200000}" by (simp add: avail_frames_def frame_addr_def)
  with s' ok show thesis by (intro that)
qed

section \<open>Properties\<close>

text \<open>
  C4.  Boot: whatever the Multiboot memory map holds, if \<open>pmm_init\<close> reports success then the
  allocator invariant holds (free bits only inside usable regions, counters equal to the number of
  usable and of taken frames, frame 0 never usable).  The kernel image ends above address 0 and
  below the last page.
\<close>

theorem pmm_init_establishes_inv:
  assumes "length (pmm_region_start s) = PMM_MAX_REGIONS" "length (pmm_region_end s) = PMM_MAX_REGIONS"
    and "0 < kernel_end" "kernel_end \<le> 0xFFFFF000"
    and "pmm_init m mbi kernel_end s = Some s'" "pmm_ready s'"
  shows "pmm_ok s'"
  using assms by (rule pmm_init_inv)

theorem pmm_init_establishes_inv_witness:
  "\<exists>s'. pmm_init demo_map 0x9000 0x180000 pmm_static = Some s' \<and> pmm_ok s'"
proof -
  obtain s' where s': "pmm_init demo_map 0x9000 0x180000 pmm_static = Some s'" "pmm_ready s'"
    by (rule demo_init)
  have "pmm_ok s'"
    by (rule pmm_init_establishes_inv [OF _ _ _ _ s']) (simp_all add: pmm_static_def)
  with s' show ?thesis by blast
qed

text \<open>
  C24.  Boot ends: the walk over the memory map returns whenever the entries it visits have sizes
  that do not carry the cursor past the 32-bit address space.
\<close>

theorem pmm_init_terminates:
  assumes "mmap_sizes_sane m (mbi_mmap_addr (mbi_at m mbi) + mbi_mmap_length (mbi_at m mbi))
      (mbi_mmap_addr (mbi_at m mbi))"
  shows "\<exists>s'. pmm_init m mbi kernel_end s = Some s'"
proof (cases "mbi_flags (mbi_at m mbi) AND 64 = 0")
  case True
  then show ?thesis by (simp add: pmm_init_def Let_def)
next
  case False
  obtain t where "pmm_mmap_loop m (mbi_mmap_addr (mbi_at m mbi) + mbi_mmap_length (mbi_at m mbi))
      (align_up_4k kernel_end) (mbi_mmap_addr (mbi_at m mbi))
      (s\<lparr>pmm_initialized := False, pmm_region_count := 0, pmm_total := 0, pmm_used := 0,
         pmm_hint_frame := 0, pmm_highest_end := 0, pmm_bitmap := (\<lambda>_. 0xFFFFFFFF)\<rparr>) = Some t"
    using pmm_mmap_loop_returns [OF assms] by blast
  with False show ?thesis by (simp add: pmm_init_def Let_def)
qed

theorem pmm_init_terminates_witness:
  "\<exists>s'. pmm_init demo_map 0x9000 0x180000 pmm_static = Some s'"
proof (rule pmm_init_terminates)
  have "e \<in> {0xA000, 0xA018}" if "mmap_visits demo_map 0xA018 0xA000 e" for e
    using that by induction (auto simp: demo_entry)
  then have "unat e + unat (me_size (mmap_entry_at demo_map e)) + 4 < 2 ^ 32"
    if "mmap_visits demo_map 0xA018 0xA000 e" "e < 0xA018" for e
    using that by (fastforce simp: demo_entry)
  then show "mmap_sizes_sane demo_map
      (mbi_mmap_addr (mbi_at demo_map 0x9000) + mbi_mmap_length (mbi_at demo_map 0x9000))
      (mbi_mmap_addr (mbi_at demo_map 0x9000))"
    by (simp add: demo_mbi mmap_sizes_sane_def)
qed

text \<open>
  C18.  \<open>pmm_alloc_frame\<close> is exact on every branch: while frames remain it returns a non-zero,
  page-aligned usable frame that was free, takes precisely that frame and counts it; when none
  remain it returns 0 and changes nothing.  The invariant is kept.
\<close>

theorem pmm_alloc_frame_correct:
  assumes "pmm_ok s" "pmm_alloc_frame s = (f, s')"
  shows "pmm_ok s' \<and>
    (if pmm_used s < pmm_total s
     then f \<noteq> 0 \<and> page_addr f \<and> f \<in> avail_frames s \<and> avail_frames s' = avail_frames s - {f}
       \<and> pmm_used s' = pmm_used s + 1 \<and> pmm_total s' = pmm_total s
     else f = 0 \<and> s' = s)"
proof (cases "pmm_used s < pmm_total s")
  case True
  have inv: "pmm_inv s" using assms(1) by (simp add: pmm_ok_def)
  then have "avail_frames s \<noteq> {}" using True avail_empty_iff [of s] by simp
  then have f: "f \<noteq> 0" using pmm_frames.alloc_zero_iff [OF assms] by simp
  have "pmm_used s' = pmm_used s + 1 \<and> pmm_total s' = pmm_total s"
    using assms f by (auto simp: pmm_alloc_frame_def split: if_splits option.splits)
  with True f pmm_frames.alloc_fresh [OF assms f] pmm_frames.alloc_inv [OF assms] show ?thesis
    by simp
next
  case False
  then have "avail_frames s = {}" using assms(1) avail_empty_iff [of s] by (simp add: pmm_ok_def)
  with False assms pmm_frames.alloc_empty [OF assms(1)] show ?thesis by simp
qed

theorem pmm_alloc_frame_correct_witness:
  "\<exists>s f s'. pmm_ok s \<and> pmm_used s < pmm_total s \<and> pmm_alloc_frame s = (f, s') \<and> f \<noteq> 0
     \<and> page_addr f \<and> pmm_used s' = 1 \<and> pmm_ok s'"
proof -
  obtain s where s: "pmm_init demo_map 0x9000 0x180000 pmm_static = Some s" "pmm_ready s"
    "pmm_total s = 1" "pmm_used s = 0" and ok: "pmm_ok s"
    by (rule demo_init)
  obtain f s' where fs: "pmm_alloc_frame s = (f, s')" by fastforce
  from pmm_alloc_frame_correct [OF ok fs] s ok fs show ?thesis by auto
qed

text \<open>
  C19.  \<open>pmm_free_frame\<close> is exact on every branch: it accepts a frame address iff that frame is
  usable memory currently handed out, and then makes exactly it available again; a double free, a
  misaligned address or a frame outside the usable regions is refused with no state change.
\<close>

theorem pmm_free_frame_correct:
  assumes "pmm_ok s" "pmm_free_frame f s = (b, s')"
  shows "pmm_ok s' \<and> (b \<longleftrightarrow> f \<in> pool_frames s \<and> f \<notin> avail_frames s) \<and>
    (if b then avail_frames s' = insert f (avail_frames s) \<and> pmm_used s' = pmm_used s - 1 else s' = s)"
proof (cases "f \<in> pool_frames s - avail_frames s")
  case True
  note ok = pmm_frames.release_ok [OF assms(1) True assms(2)]
  then have "pmm_used s' = pmm_used s - 1"
    using assms used_nonzero [OF assms(1) True]
    by (auto simp: pmm_free_frame_def Let_def word_gt_0 split: if_splits)
  with ok True show ?thesis by simp
next
  case False
  from pmm_frames.release_bad [OF assms(1) False] assms have "\<not> b" "s' = s" by auto
  with False assms(1) show ?thesis by simp
qed

theorem pmm_free_frame_correct_witness:
  "\<exists>s b s'. pmm_ok s \<and> pmm_free_frame 0x1234 s = (b, s') \<and> \<not> b \<and> s' = s"
proof -
  obtain s where ok: "pmm_ok s" by (rule demo_init)
  obtain b s' where bs: "pmm_free_frame 0x1234 s = (b, s')" by fastforce
  have "\<not> b" using bs by (auto simp: pmm_free_frame_def Let_def split: if_splits)
  with pmm_free_frame_correct [OF ok bs] ok bs show ?thesis by auto
qed

text \<open>
  A run of \<open>n\<close> allocations hands out pairwise distinct usable frames, as many as were asked
  for or as were free, whichever is less: no frame is ever given to two owners.
\<close>

theorem pmm_allocations_distinct:
  assumes "pmm_ok s" "alloc_many pmm_alloc_frame n s = (fs, s')"
  shows "pmm_ok s' \<and> distinct fs \<and> set fs \<subseteq> avail_frames s
    \<and> avail_frames s' = avail_frames s - set fs
    \<and> length fs = min n (unat (pmm_free_frames s))"
proof -
  have inv: "pmm_inv s" "pmm_initialized s" using assms(1) by (auto simp: pmm_ok_def)
  have "card (avail_frames s) = card (free_set s)"
    unfolding avail_frames_def
    by (rule card_image) (rule inj_on_subset [OF frame_addr_inj free_set_bound])
  also have "\<dots> = card (region_set s) - card (region_set s - free_set s)"
    using inv(1) by (simp add: pmm_inv_def card_Diff_subset card_mono)
  also have "\<dots> = unat (pmm_free_frames s)"
    using inv by (auto simp: pmm_free_frames_def pmm_inv_def unat_sub word_le_nat_alt)
  finally show ?thesis using pmm_frames.alloc_many_ok [OF assms] by simp
qed

theorem pmm_allocations_distinct_witness:
  "\<exists>s fs s'. pmm_ok s \<and> alloc_many pmm_alloc_frame 3 s = (fs, s') \<and> length fs = 1 \<and> distinct fs"
proof -
  obtain s where s: "pmm_ready s" "pmm_total s = 1" "pmm_used s = 0" and ok: "pmm_ok s"
    by (rule demo_init)
  obtain fs s' where fs: "alloc_many pmm_alloc_frame 3 s = (fs, s')" by fastforce
  have "unat (pmm_free_frames s) = 1" using s by (simp add: pmm_free_frames_def pmm_ready_def)
  with pmm_allocations_distinct [OF ok fs] ok fs show ?thesis by auto
qed

text \<open>
  The rounding of a region start wraps: a usable map entry of 1 KiB inside the last page of
  the address space (base 0xFFFFF800) makes every frame from the end of the kernel image up to
  0xFFFFF000 usable, because \<open>align_up_4k\<close> of the base is 0 and is then raised to the kernel end.
\<close>

theorem pmm_init_entry_top_page_wrap:
  assumes "boot_inv s" "pmm_region_count s < PMM_MAX_REGIONS"
    and "unat required_start mod 4096 = 0" "required_start \<noteq> 0" "required_start < 0xFFFFF000"
  shows "region_set (pmm_init_entry required_start
      \<lparr> me_size = 20, me_addr = 0xFFFFF800, me_len = 0x400, me_type = 1 \<rparr> s) =
    region_set s \<union> {unat required_start div 4096..<0xFFFFF}"
proof -
  let ?h = "if 0xFFFFF000 > pmm_highest_end s then 0xFFFFF000 else pmm_highest_end s"
  let ?t = "s\<lparr>pmm_region_start := (pmm_region_start s)[pmm_region_count s := required_start],
       pmm_region_end := (pmm_region_end s)[pmm_region_count s := 0xFFFFF000],
       pmm_highest_end := ?h, pmm_region_count := pmm_region_count s + 1\<rparr>"
  let ?xs = "page_range (align_up_4k required_start) (align_down_4k 0xFFFFF000)"
  have up: "align_up_4k 0xFFFFF800 = 0" by (simp add: align_up_4k_def)
  have "pmm_init_entry required_start
      \<lparr> me_size = 20, me_addr = 0xFFFFF800, me_len = 0x400, me_type = 1 \<rparr> s =
      fold pmm_mark_step ?xs ?t"
    using assms(2,3,4,5) up
    by (simp add: pmm_init_entry_def Let_def align_up_id pmm_mark_region_usable_def word_gt_0)
  moreover have "unat (pmm_total ?t) = card (free_set ?t)"
    using assms(1) by (simp add: boot_inv_def free_set_def taken_def)
  then have "same_regions ?t (fold pmm_mark_step ?xs ?t)"
    using fold_mark_ok [of ?xs ?t] page_range_bound by blast
  ultimately have "region_set (pmm_init_entry required_start
      \<lparr> me_size = 20, me_addr = 0xFFFFF800, me_len = 0x400, me_type = 1 \<rparr> s) = region_set ?t"
    by (simp only: same_regions_region_set)
  also have "\<dots> = region_set s \<union> {unat required_start div 4096..<unat (0xFFFFF000 :: u32) div 4096}"
    using assms by (intro region_set_add) (auto simp: boot_inv_def)
  finally show ?thesis by simp
qed

theorem pmm_init_entry_top_page_wrap_witness:
  "region_set (pmm_init_entry 0x200000
      \<lparr> me_size = 20, me_addr = 0xFFFFF800, me_len = 0x400, me_type = 1 \<rparr>
      (pmm_static\<lparr>pmm_bitmap := (\<lambda>_. - 1)\<rparr>)) = {512..<0xFFFFF}"
proof -
  have free: "free_set (pmm_static\<lparr>pmm_bitmap := (\<lambda>_. - 1)\<rparr>) = {}"
    by (simp add: free_set_def taken_def)
  have reg: "region_set (pmm_static\<lparr>pmm_bitmap := (\<lambda>_. - 1)\<rparr>) = {}"
    by (simp add: region_set_def in_regions_iff pmm_static_def)
  have "boot_inv (pmm_static\<lparr>pmm_bitmap := (\<lambda>_. - 1)\<rparr>)"
    by (simp add: boot_inv_def free reg) (simp add: pmm_static_def)
  from pmm_init_entry_top_page_wrap [OF this, where required_start = "0x200000"] reg show ?thesis
    by (simp add: pmm_static_def)
qed

end
