(* ===== verification/Slot_Table.thy ===== *)
theory Slot_Table
  imports Mars_Prelude
begin

text \<open>
  The kernel keeps files, messages and processes in fixed-size arrays whose entries carry an
  in-use flag: a new entry goes to the first free slot, a removal clears the flag, lookups scan for
  the first used entry with a key.  This theory states the contract of such a table once: with
  distinct keys among the used entries the table behaves as a finite map.
\<close>

locale slot_table =
  fixes used :: "'e \<Rightarrow> bool"
    and key :: "'e \<Rightarrow> 'k"
    and clear :: "'e \<Rightarrow> 'e"
  assumes clear_free: "\<not> used (clear e)"
begin

definition keys_distinct :: "'e list \<Rightarrow> bool" where
  "keys_distinct t \<longleftrightarrow>
     (\<forall>i < length t. \<forall>j < length t. used (t ! i) \<and> used (t ! j) \<and> key (t ! i) = key (t ! j) \<longrightarrow> i = j)"

definition lookup :: "'e list \<Rightarrow> 'k \<Rightarrow> nat option" where
  "lookup t k = first_idx (\<lambda>e. used e \<and> key e = k) t"

definition table_map :: "'e list \<Rightarrow> 'k \<rightharpoonup> 'e" where
  "table_map t k = map_option ((!) t) (lookup t k)"

lemma lookup_None: "lookup t k = None \<longleftrightarrow> (\<forall>i < length t. used (t ! i) \<longrightarrow> key (t ! i) \<noteq> k)"
  by (auto simp: lookup_def first_idx_None all_set_conv_all_nth)

lemma lookup_SomeD: "lookup t k = Some i \<Longrightarrow> i < length t \<and> used (t ! i) \<and> key (t ! i) = k"
  by (auto simp: lookup_def first_idx_Some)

lemma lookup_eqI:
  assumes "keys_distinct t" "i < length t" "used (t ! i)" "key (t ! i) = k"
  shows "lookup t k = Some i"
proof (cases "lookup t k")
  case None
  with assms show ?thesis by (auto simp: lookup_None)
next
  case (Some j)
  with assms show ?thesis by (auto simp: keys_distinct_def dest!: lookup_SomeD)
qed

lemma table_map_eqI:
  "keys_distinct t \<Longrightarrow> i < length t \<Longrightarrow> used (t ! i) \<Longrightarrow> key (t ! i) = k \<Longrightarrow> table_map t k = Some (t ! i)"
  by (simp add: table_map_def lookup_eqI)

lemma table_map_None: "table_map t k = None \<longleftrightarrow> (\<forall>i < length t. used (t ! i) \<longrightarrow> key (t ! i) \<noteq> k)"
  by (simp add: table_map_def lookup_None)

lemma table_map_SomeD:
  "table_map t k = Some e \<Longrightarrow> \<exists>i < length t. t ! i = e \<and> used e \<and> key e = k"
  by (auto simp: table_map_def dest!: lookup_SomeD)

text \<open>Writing a used entry whose key is fresh, or is the one the slot already has.\<close>

lemma keys_distinct_update:
  assumes "keys_distinct t"
    and "\<And>j. j < length t \<Longrightarrow> j \<noteq> i \<Longrightarrow> used (t ! j) \<Longrightarrow> key (t ! j) \<noteq> key e"
  shows "keys_distinct (t[i := e])"
  unfolding keys_distinct_def
proof (intro allI impI)
  fix a b
  assume ab: "a < length (t[i := e])" "b < length (t[i := e])"
    and eq: "used (t[i := e] ! a) \<and> used (t[i := e] ! b) \<and> key (t[i := e] ! a) = key (t[i := e] ! b)"
  show "a = b"
  proof (cases "a = i")
    case True
    with ab eq assms(2) [of b] show ?thesis by (cases "b = i") auto
  next
    case False
    with ab eq assms(1) assms(2) [of a] show ?thesis
      by (cases "b = i") (auto simp: keys_distinct_def)
  qed
qed

lemma table_map_update:
  assumes d: "keys_distinct t" and i: "i < length t" and u: "used e"
    and fresh: "\<And>j. j < length t \<Longrightarrow> j \<noteq> i \<Longrightarrow> used (t ! j) \<Longrightarrow> key (t ! j) \<noteq> key e"
    and old: "used (t ! i) \<Longrightarrow> key (t ! i) = key e"
  shows "table_map (t[i := e]) = (table_map t)(key e \<mapsto> e)"
proof
  fix k
  have d': "keys_distinct (t[i := e])" by (rule keys_distinct_update [OF d fresh])
  show "table_map (t[i := e]) k = ((table_map t)(key e \<mapsto> e)) k"
  proof (cases "k = key e")
    case True
    with d' i u show ?thesis using table_map_eqI [of "t[i := e]" i k] by simp
  next
    case False
    show ?thesis
    proof (cases "table_map t k")
      case None
      with False have "table_map (t[i := e]) k = None"
        by (auto simp: table_map_None nth_upd split: if_splits)
      with None False show ?thesis by simp
    next
      case (Some x)
      then obtain j where j: "j < length t" "t ! j = x" "used x" "key x = k"
        by (blast dest: table_map_SomeD)
      with False old have "j \<noteq> i" by auto
      with j have "table_map (t[i := e]) k = Some ((t[i := e]) ! j)"
        by (intro table_map_eqI [OF d']) auto
      with Some False j \<open>j \<noteq> i\<close> show ?thesis by simp
    qed
  qed
qed

text \<open>Clearing the slot that holds a key removes the key.\<close>

lemma keys_distinct_clear:
  assumes "keys_distinct t"
  shows "keys_distinct (t[i := clear e])"
  using assms clear_free unfolding keys_distinct_def
  by (auto simp: nth_upd split: if_splits)

lemma table_map_clear:
  assumes d: "keys_distinct t" and i: "i < length t" and u: "used (t ! i)"
  shows "table_map (t[i := clear e]) = (table_map t)(key (t ! i) := None)"
proof
  fix k
  have d': "keys_distinct (t[i := clear e])" by (rule keys_distinct_clear [OF d])
  show "table_map (t[i := clear e]) k = ((table_map t)(key (t ! i) := None)) k"
  proof (cases "k = key (t ! i)")
    case True
    with d i u have "table_map (t[i := clear e]) k = None"
      by (auto simp: table_map_None nth_upd clear_free keys_distinct_def split: if_splits)
    with True show ?thesis by simp
  next
    case False
    show ?thesis
    proof (cases "table_map t k")
      case None
      then have "table_map (t[i := clear e]) k = None"
        by (auto simp: table_map_None nth_upd clear_free split: if_splits)
      with None False show ?thesis by simp
    next
      case (Some x)
      then obtain j where j: "j < length t" "t ! j = x" "used x" "key x = k"
        by (blast dest: table_map_SomeD)
      with False have "j \<noteq> i" by auto
      with j have "table_map (t[i := clear e]) k = Some ((t[i := clear e]) ! j)"
        by (intro table_map_eqI [OF d']) auto
      with Some False j \<open>j \<noteq> i\<close> show ?thesis by simp
    qed
  qed
qed

lemma count_fill:
  assumes "first_idx (\<lambda>e. \<not> used e) t = Some i" and "used e"
  shows "length (filter used (t[i := e])) = Suc (length (filter used t))"
  using assms length_filter_update [of i t used e] by (auto simp: first_idx_Some)

lemma count_clear:
  assumes "i < length t" and "used (t ! i)"
  shows "Suc (length (filter used (t[i := clear e]))) = length (filter used t)"
  using assms length_filter_update [of i t used "clear e"] by (auto simp: clear_free)

lemma full_iff:
  "first_idx (\<lambda>e. \<not> used e) t = None \<longleftrightarrow> length (filter used t) = length t"
proof -
  have "length (filter used t) = length t \<longleftrightarrow> (\<forall>e \<in> set t. used e)"
    by (metis filter_id_conv filter_True length_filter_less nat_neq_iff)
  then show ?thesis by (simp add: first_idx_None)
qed

lemma keys_distinct_Cons:
  assumes "keys_distinct (e # t)"
  shows "keys_distinct t" and "used e \<Longrightarrow> x \<in> set t \<Longrightarrow> used x \<Longrightarrow> key x \<noteq> key e"
proof -
  have inj: "a = b" if "a < length (e # t)" "b < length (e # t)" "used ((e # t) ! a)" "used ((e # t) ! b)"
    "key ((e # t) ! a) = key ((e # t) ! b)" for a b
    using assms that unfolding keys_distinct_def by blast
  show "keys_distinct t"
    unfolding keys_distinct_def
  proof (intro allI impI)
    fix i j
    assume "i < length t" "j < length t" "used (t ! i) \<and> used (t ! j) \<and> key (t ! i) = key (t ! j)"
    then show "i = j" using inj [of "Suc i" "Suc j"] by simp
  qed
  assume "used e" "x \<in> set t" "used x"
  then obtain j where "j < length t" "t ! j = x" by (auto simp: in_set_conv_nth)
  with inj [of "Suc j" 0] \<open>used e\<close> \<open>used x\<close> show "key x \<noteq> key e" by auto
qed

lemma distinct_keys: "keys_distinct t \<Longrightarrow> distinct (map key (filter used t))"
proof (induction t)
  case (Cons e t)
  with keys_distinct_Cons [OF Cons.prems] show ?case by fastforce
qed simp

lemma dom_table_map: "dom (table_map t) = key ` set (filter used t)"
  by (auto simp: table_map_def lookup_def dom_def first_idx_ex image_iff)

lemma card_table_map:
  assumes "keys_distinct t"
  shows "card (dom (table_map t)) = length (filter used t)"
  using distinct_card [OF distinct_keys [OF assms]] by (simp add: dom_table_map)

end

end
