(* ===== verification/Ipc.thy ===== *)
theory Ipc
  imports Slot_Table "HOL-Library.Multiset"
begin

text \<open>
  The message table of \<open>ipc.c\<close>: 64 slots with a sender, a recipient, a 64-byte text and an in-use
  flag.  A pointer argument that may be null is an option; a destination buffer is the list of its
  bytes.  The abstract state is the multiset of (sender, recipient, text) triples in flight;
  \<open>ipc_send\<close> adds one, \<open>ipc_recv\<close> removes one addressed to the caller, and both say on every early
  return that nothing in flight changed.
\<close>

section \<open>State and operations\<close>

abbreviation IPC_MAX_MESSAGES :: nat where
  "IPC_MAX_MESSAGES \<equiv> 64"

abbreviation IPC_TEXT_MAX :: u32 where
  "IPC_TEXT_MAX \<equiv> 64"

record ipc_message =
  im_from_pid :: u32
  im_to_pid :: u32
  im_text :: string
  im_used :: u8

record ipc =
  ipc_messages :: "ipc_message list"
  ipc_ready :: bool

definition ipc_str_copy :: "string option \<Rightarrow> u32 \<Rightarrow> string option \<Rightarrow> string option \<times> int" where
  "ipc_str_copy dst dst_size src =
     (case (dst, src) of
        (Some d, Some s) \<Rightarrow>
          if dst_size = 0 then (Some d, 0)
          else let (d', i) = str_copy_loop d s (unat dst_size) 0 in (Some d', int i)
      | _ \<Rightarrow> (dst, 0))"

definition ipc_clear :: "ipc_message \<Rightarrow> ipc_message" where
  "ipc_clear e = e\<lparr>im_from_pid := 0, im_to_pid := 0, im_text := (im_text e)[0 := NUL], im_used := 0\<rparr>"

definition ipc_init :: "ipc \<Rightarrow> ipc" where
  "ipc_init s = s\<lparr>ipc_messages := map ipc_clear (ipc_messages s), ipc_ready := True\<rparr>"

definition ipc_send :: "u32 \<Rightarrow> u32 \<Rightarrow> string option \<Rightarrow> ipc \<Rightarrow> ipc \<times> bool" where
  "ipc_send from_pid to_pid message s =
     (if \<not> ipc_ready s \<or> to_pid = 0 \<or> message = None then (s, False)
      else case first_idx (\<lambda>e. im_used e = 0) (ipc_messages s) of
        None \<Rightarrow> (s, False)
      | Some i \<Rightarrow>
          let e = (ipc_messages s ! i)\<lparr>im_from_pid := from_pid, im_to_pid := to_pid\<rparr>;
              (text, n) = ipc_str_copy (Some (im_text e)) IPC_TEXT_MAX message;
              e' = e\<lparr>im_text := the text\<rparr>
          in if n \<le> 0 then (s\<lparr>ipc_messages := (ipc_messages s)[i := e']\<rparr>, False)
             else (s\<lparr>ipc_messages := (ipc_messages s)[i := e'\<lparr>im_used := 1\<rparr>]\<rparr>, True))"

definition ipc_recv :: "u32 \<Rightarrow> string option \<Rightarrow> u32 \<Rightarrow> u32 option \<Rightarrow> ipc \<Rightarrow>
    ipc \<times> string option \<times> u32 option \<times> int" where
  "ipc_recv to_pid out out_size from_pid_out s =
     (if \<not> ipc_ready s \<or> to_pid = 0 \<or> out = None \<or> out_size = 0 then (s, out, from_pid_out, -1)
      else case first_idx (\<lambda>e. im_used e \<noteq> 0 \<and> im_to_pid e = to_pid) (ipc_messages s) of
        None \<Rightarrow> (s, map_option (\<lambda>b. b[0 := NUL]) out, from_pid_out, 0)
      | Some i \<Rightarrow>
          let e = ipc_messages s ! i;
              (out', copied) = ipc_str_copy out out_size (Some (im_text e));
              from' = map_option (\<lambda>_. im_from_pid e) from_pid_out
          in (s\<lparr>ipc_messages := (ipc_messages s)[i := ipc_clear e]\<rparr>, out', from', copied))"

definition ipc_pending_count :: "ipc \<Rightarrow> u32" where
  "ipc_pending_count s =
     (if \<not> ipc_ready s then 0 else count_loop (\<lambda>e. im_used e \<noteq> 0) (ipc_messages s) 0)"

text \<open>The zero-initialised statics of the file.\<close>

definition ipc_static :: ipc where
  "ipc_static = \<lparr>ipc_messages = replicate IPC_MAX_MESSAGES
     \<lparr>im_from_pid = 0, im_to_pid = 0, im_text = replicate 64 NUL, im_used = 0\<rparr>, ipc_ready = False\<rparr>"

section \<open>Invariant and abstraction\<close>

definition slot_ok :: "ipc_message \<Rightarrow> bool" where
  "slot_ok e \<longleftrightarrow> length (im_text e) = 64 \<and>
     (im_used e \<noteq> 0 \<longrightarrow> im_to_pid e \<noteq> 0 \<and> cstr (im_text e) \<noteq> [] \<and> length (cstr (im_text e)) < 64)"

definition ipc_inv :: "ipc \<Rightarrow> bool" where
  "ipc_inv s \<longleftrightarrow> length (ipc_messages s) = IPC_MAX_MESSAGES \<and> (\<forall>e \<in> set (ipc_messages s). slot_ok e)"

type_synonym packet = "u32 \<times> u32 \<times> string"

definition packet_of :: "ipc_message \<Rightarrow> packet" where
  "packet_of e = (im_from_pid e, im_to_pid e, cstr (im_text e))"

definition in_flight :: "ipc \<Rightarrow> packet multiset" where
  "in_flight s = image_mset packet_of (filter_mset (\<lambda>e. im_used e \<noteq> 0) (mset (ipc_messages s)))"

abbreviation pending_for :: "u32 \<Rightarrow> ipc \<Rightarrow> packet multiset" where
  "pending_for p s \<equiv> filter_mset (\<lambda>(_, to, _). to = p) (in_flight s)"

interpretation ipc_slots: slot_table "\<lambda>e. im_used e \<noteq> 0" im_to_pid ipc_clear
  by unfold_locales (simp add: ipc_clear_def)

definition ipc_copy_text :: "string \<Rightarrow> u32 \<Rightarrow> string \<Rightarrow> string" where
  "ipc_copy_text dst n src = the (fst (ipc_str_copy (Some dst) n (Some src)))"

lemma ipc_str_copy_Some:
  assumes "0 < n" and "unat n \<le> length dst"
  shows "ipc_str_copy (Some dst) n (Some src) =
    (Some (ipc_copy_text dst n src), int (length (cstr (ipc_copy_text dst n src))))"
proof -
  have "0 < unat n" using assms(1) by (simp add: unat_gt_0 word_gt_0)
  with assms show ?thesis
    using cstr_str_copy [of "unat n" dst src]
    by (simp add: ipc_copy_text_def ipc_str_copy_def case_prod_unfold Let_def word_gt_0)
qed

interpretation ipc_copy: bounded_copy ipc_copy_text
proof
  fix n :: u32 and dst src :: string
  assume "0 < n" "unat n \<le> length dst"
  moreover from this have "0 < unat n" by (simp add: unat_gt_0 word_gt_0)
  ultimately show "cstr (ipc_copy_text dst n src) = take (unat n - 1) (cstr src)"
    using cstr_str_copy [of "unat n" dst src]
    by (simp add: ipc_copy_text_def ipc_str_copy_def case_prod_unfold Let_def word_gt_0)
next
  fix n :: u32 and dst src :: string
  assume "unat n \<le> length dst"
  then show "length (ipc_copy_text dst n src) = length dst"
    using cstr_str_copy(3) [of "unat n" dst src]
    by (auto simp: ipc_copy_text_def ipc_str_copy_def case_prod_unfold Let_def unat_gt_0)
qed

section \<open>The table as a multiset of packets\<close>

lemma mset_update_split:
  assumes "i < length xs"
  obtains r where "mset xs = add_mset (xs ! i) r" and "\<And>v. mset (xs[i := v]) = add_mset v r"
proof
  show "mset xs = add_mset (xs ! i) (mset xs - {#xs ! i#})"
    using assms by (simp add: nth_mem)
  show "mset (xs[i := v]) = add_mset v (mset xs - {#xs ! i#})" for v
    using assms by (rule mset_update)
qed

lemma in_flight_put:
  assumes "i < length (ipc_messages s)" and "im_used (ipc_messages s ! i) = 0"
  shows "in_flight (s\<lparr>ipc_messages := (ipc_messages s)[i := e]\<rparr>) =
    (if im_used e = 0 then in_flight s else add_mset (packet_of e) (in_flight s))"
  using assms by (auto simp: in_flight_def elim!: mset_update_split)

lemma in_flight_drop:
  assumes "i < length (ipc_messages s)" and "im_used (ipc_messages s ! i) \<noteq> 0" and "im_used e = 0"
  shows "in_flight s = add_mset (packet_of (ipc_messages s ! i))
    (in_flight (s\<lparr>ipc_messages := (ipc_messages s)[i := e]\<rparr>))"
  using assms by (auto simp: in_flight_def elim!: mset_update_split)

lemma size_in_flight: "size (in_flight s) = length (filter (\<lambda>e. im_used e \<noteq> 0) (ipc_messages s))"
  by (simp add: in_flight_def flip: mset_filter)

lemma ipc_full_iff:
  "first_idx (\<lambda>e. im_used e = 0) (ipc_messages s) = None \<longleftrightarrow>
   size (in_flight s) = length (ipc_messages s)"
  using ipc_slots.full_iff [of "ipc_messages s"] by (simp add: size_in_flight)

lemma size_in_flight_le: "ipc_inv s \<Longrightarrow> size (in_flight s) \<le> IPC_MAX_MESSAGES"
  using length_filter_le [of "\<lambda>e. im_used e \<noteq> 0" "ipc_messages s"]
  by (simp add: size_in_flight ipc_inv_def)

lemma no_pending_iff:
  "first_idx (\<lambda>e. im_used e \<noteq> 0 \<and> im_to_pid e = p) (ipc_messages s) = None \<longleftrightarrow> pending_for p s = {#}"
  by (subst set_mset_eq_empty_iff [symmetric]) (auto simp: first_idx_None in_flight_def packet_of_def)

lemma ipc_inv_update:
  "ipc_inv s \<Longrightarrow> slot_ok e \<Longrightarrow> ipc_inv (s\<lparr>ipc_messages := (ipc_messages s)[i := e]\<rparr>)"
  by (auto simp: ipc_inv_def dest!: set_update_subset_insert [THEN subsetD])

lemma ipc_inv_slot: "ipc_inv s \<Longrightarrow> i < IPC_MAX_MESSAGES \<Longrightarrow> slot_ok (ipc_messages s ! i)"
  by (simp add: ipc_inv_def)

lemma cstr_cut_NUL: "cstr (xs[0 := NUL]) = []"
  by (cases xs) (simp_all add: cstr_def)

section \<open>Sending\<close>

text \<open>The record that \<open>ipc_send\<close> writes into the free slot \<open>e\<close>.\<close>

definition sent_slot :: "u32 \<Rightarrow> u32 \<Rightarrow> string \<Rightarrow> ipc_message \<Rightarrow> ipc_message" where
  "sent_slot f t m e =
     (let e' = e\<lparr>im_from_pid := f, im_to_pid := t, im_text := ipc_copy_text (im_text e) 64 m\<rparr>
      in if cstr m = [] then e' else e'\<lparr>im_used := 1\<rparr>)"

lemma sent_text:
  "slot_ok e \<Longrightarrow> cstr (ipc_copy_text (im_text e) 64 m) = take 63 (cstr m)"
  "slot_ok e \<Longrightarrow> length (ipc_copy_text (im_text e) 64 m) = 64"
  using ipc_copy.copy_text [of 64 "im_text e" m] ipc_copy.copy_size [of 64 "im_text e" m]
  by (simp_all add: slot_ok_def)

lemma sent_slot_ok: "slot_ok e \<Longrightarrow> t \<noteq> 0 \<Longrightarrow> im_used e = 0 \<Longrightarrow> slot_ok (sent_slot f t m e)"
  using sent_text [of e m] by (auto simp: slot_ok_def sent_slot_def Let_def)

lemma ipc_send_free:
  assumes "ipc_inv s" "ipc_ready s" "t \<noteq> 0"
    and free: "first_idx (\<lambda>e. im_used e = 0) (ipc_messages s) = Some i"
  shows "ipc_send f t (Some m) s =
    (s\<lparr>ipc_messages := (ipc_messages s)[i := sent_slot f t m (ipc_messages s ! i)]\<rparr>, cstr m \<noteq> [])"
proof -
  let ?e = "ipc_messages s ! i"
  have i: "i < IPC_MAX_MESSAGES" and u: "im_used ?e = 0"
    using free assms(1) by (auto simp: first_idx_Some ipc_inv_def)
  have ok: "slot_ok ?e" using assms(1) i by (rule ipc_inv_slot)
  then have "ipc_str_copy (Some (im_text ?e)) 64 (Some m) =
      (Some (ipc_copy_text (im_text ?e) 64 m), int (length (take 63 (cstr m))))"
    using ipc_str_copy_Some [of 64 "im_text ?e" m] sent_text [OF ok] by (simp add: slot_ok_def)
  with assms u show ?thesis
    by (simp add: ipc_send_def Let_def sent_slot_def)
qed

lemma ipc_send_effect:
  assumes inv: "ipc_inv s" and send: "ipc_send f t msg s = (s', ok)"
  shows "ipc_inv s'" and "ipc_ready s' = ipc_ready s"
    and "ok \<longleftrightarrow> ipc_ready s \<and> t \<noteq> 0 \<and> msg \<noteq> None \<and> cstr (the msg) \<noteq> [] \<and>
      size (in_flight s) < IPC_MAX_MESSAGES"
    and "in_flight s' =
      (if ok then add_mset (f, t, take 63 (cstr (the msg))) (in_flight s) else in_flight s)"
proof -
  have "ipc_inv s' \<and> ipc_ready s' = ipc_ready s \<and>
    (ok \<longleftrightarrow> ipc_ready s \<and> t \<noteq> 0 \<and> msg \<noteq> None \<and> cstr (the msg) \<noteq> [] \<and>
      size (in_flight s) < IPC_MAX_MESSAGES) \<and>
    in_flight s' =
      (if ok then add_mset (f, t, take 63 (cstr (the msg))) (in_flight s) else in_flight s)"
  proof (cases "ipc_ready s \<and> t \<noteq> 0 \<and> msg \<noteq> None")
    case False
    with inv send show ?thesis by (auto simp: ipc_send_def)
  next
    case True
    then obtain m where m: "msg = Some m" by auto
    show ?thesis
    proof (cases "first_idx (\<lambda>e. im_used e = 0) (ipc_messages s)")
      case None
      then have "\<not> size (in_flight s) < IPC_MAX_MESSAGES"
        using inv by (simp add: ipc_full_iff ipc_inv_def)
      with None True inv send show ?thesis by (auto simp: ipc_send_def)
    next
      case (Some i)
      then have i: "i < IPC_MAX_MESSAGES" "i < length (ipc_messages s)" "im_used (ipc_messages s ! i) = 0"
        using inv by (auto simp: first_idx_Some ipc_inv_def)
      have ok: "slot_ok (ipc_messages s ! i)" using inv i(1) by (rule ipc_inv_slot)
      have "size (in_flight s) \<noteq> IPC_MAX_MESSAGES"
        using Some ipc_full_iff [of s] inv by (simp add: ipc_inv_def)
      with size_in_flight_le [OF inv] have "size (in_flight s) < IPC_MAX_MESSAGES" by simp
      moreover have "(s', ok) =
          (s\<lparr>ipc_messages := (ipc_messages s)[i := sent_slot f t m (ipc_messages s ! i)]\<rparr>, cstr m \<noteq> [])"
        using send ipc_send_free [OF inv _ _ Some] True m by simp
      ultimately show ?thesis
        using True m i ok inv sent_slot_ok [OF ok _ i(3)]
        by (simp add: ipc_inv_update in_flight_put) (simp add: sent_slot_def Let_def packet_of_def sent_text)
    qed
  qed
  then show "ipc_inv s'" "ipc_ready s' = ipc_ready s"
    "ok \<longleftrightarrow> ipc_ready s \<and> t \<noteq> 0 \<and> msg \<noteq> None \<and> cstr (the msg) \<noteq> [] \<and>
      size (in_flight s) < IPC_MAX_MESSAGES"
    "in_flight s' =
      (if ok then add_mset (f, t, take 63 (cstr (the msg))) (in_flight s) else in_flight s)"
    by blast+
qed

section \<open>Receiving\<close>

lemma ipc_clear_ok: "slot_ok e \<Longrightarrow> slot_ok (ipc_clear e)"
  by (simp add: slot_ok_def ipc_clear_def)

lemma ipc_recv_none:
  assumes "ipc_ready s" "p \<noteq> 0" "n \<noteq> 0" and "pending_for p s = {#}"
  shows "ipc_recv p (Some b) n fo s = (s, Some (b[0 := NUL]), fo, 0)"
  using assms no_pending_iff [of p s] by (simp add: ipc_recv_def)

lemma ipc_recv_some:
  assumes inv: "ipc_inv s" and "ipc_ready s" "p \<noteq> 0" "n \<noteq> 0" "unat n \<le> length b"
    and pend: "pending_for p s \<noteq> {#}"
  obtains f body s' b' where
    "ipc_recv p (Some b) n fo s = (s', Some b', map_option (\<lambda>_. f) fo, int (length (cstr b')))"
    and "(f, p, body) \<in># in_flight s" and "in_flight s' = in_flight s - {#(f, p, body)#}"
    and "cstr b' = take (unat n - 1) body" and "length b' = length b"
    and "ipc_inv s'" and "ipc_ready s'" and "length body < 64"
proof -
  from pend obtain i where i: "first_idx (\<lambda>e. im_used e \<noteq> 0 \<and> im_to_pid e = p) (ipc_messages s) = Some i"
    using no_pending_iff [of p s] by (cases "first_idx (\<lambda>e. im_used e \<noteq> 0 \<and> im_to_pid e = p) (ipc_messages s)") auto
  let ?e = "ipc_messages s ! i"
  let ?s = "s\<lparr>ipc_messages := (ipc_messages s)[i := ipc_clear ?e]\<rparr>"
  let ?b = "ipc_copy_text b n (im_text ?e)"
  have e: "i < length (ipc_messages s)" "im_used ?e \<noteq> 0" "im_to_pid ?e = p"
    using i by (auto simp: first_idx_Some)
  have ok: "slot_ok ?e" using inv e(1) by (simp add: ipc_inv_def)
  have drop: "in_flight s = add_mset (packet_of ?e) (in_flight ?s)"
    using e by (intro in_flight_drop) (simp_all add: ipc_clear_def)
  have n: "0 < n" using assms(4) by (simp add: word_gt_0)
  have r: "ipc_recv p (Some b) n fo s =
      (?s, Some ?b, map_option (\<lambda>_. im_from_pid ?e) fo, int (length (cstr ?b)))"
    using assms i by (simp add: ipc_recv_def Let_def ipc_str_copy_Some n)
  have p: "packet_of ?e = (im_from_pid ?e, p, cstr (im_text ?e))"
    using e(3) by (simp add: packet_of_def)
  show ?thesis
  proof (rule that [OF r])
    show "(im_from_pid ?e, p, cstr (im_text ?e)) \<in># in_flight s"
      "in_flight ?s = in_flight s - {#(im_from_pid ?e, p, cstr (im_text ?e))#}"
      unfolding drop p by simp_all
    show "cstr ?b = take (unat n - 1) (cstr (im_text ?e))" "length ?b = length b"
      using n assms(5) by (simp_all add: ipc_copy.copy_text ipc_copy.copy_size)
    show "ipc_inv ?s" using inv ipc_clear_ok [OF ok] by (rule ipc_inv_update)
    show "ipc_ready ?s" using assms(2) by simp
    show "length (cstr (im_text ?e)) < 64" using ok e(2) by (simp add: slot_ok_def)
  qed
qed

lemma ipc_init_effect:
  assumes "length (ipc_messages s) = IPC_MAX_MESSAGES"
    and "\<And>e. e \<in> set (ipc_messages s) \<Longrightarrow> length (im_text e) = 64"
  shows "ipc_inv (ipc_init s)" "ipc_ready (ipc_init s)" "in_flight (ipc_init s) = {#}"
  using assms by (auto simp: ipc_init_def ipc_inv_def in_flight_def ipc_clear_def slot_ok_def
      filter_mset_image_mset filter_mset_False)

lemma ipc_boot: "ipc_inv (ipc_init ipc_static)" "ipc_ready (ipc_init ipc_static)"
  "in_flight (ipc_init ipc_static) = {#}"
  by (rule ipc_init_effect; simp add: ipc_static_def)+

text \<open>A table with one packet, for the concrete instances below.\<close>

definition demo_sent :: ipc where
  "demo_sent = fst (ipc_send 3 4 (Some ''hi'') (ipc_init ipc_static))"

lemma demo_sent:
  "ipc_inv demo_sent" "ipc_ready demo_sent" "in_flight demo_sent = {#(3, 4, ''hi'')#}"
  using ipc_send_effect [OF ipc_boot(1), of 3 4 "Some ''hi''" demo_sent
      "snd (ipc_send 3 4 (Some ''hi'') (ipc_init ipc_static))"]
  by (simp_all add: demo_sent_def prod_eq_iff ipc_boot cstr_def)

section \<open>Properties\<close>

text \<open>
  C26.  \<open>ipc_send\<close> keeps the table well formed, succeeds exactly when the subsystem is up, the
  recipient is non-zero, the text is a non-empty string and one of the 64 slots is free, and then
  adds exactly one packet with the text cut to 63 characters; on every failure nothing in flight
  changes (although the sender and recipient of a free slot may have been overwritten).
\<close>

theorem ipc_send_correct:
  assumes "ipc_inv s" and "ipc_send f t msg s = (s', ok)"
  shows "ipc_inv s' \<and> ipc_ready s' = ipc_ready s \<and>
    (ok \<longleftrightarrow> ipc_ready s \<and> t \<noteq> 0 \<and> msg \<noteq> None \<and> cstr (the msg) \<noteq> [] \<and>
      size (in_flight s) < IPC_MAX_MESSAGES) \<and>
    in_flight s' =
      (if ok then add_mset (f, t, take 63 (cstr (the msg))) (in_flight s) else in_flight s)"
  using ipc_send_effect [OF assms] by simp

theorem ipc_send_correct_witness:
  "in_flight (fst (ipc_send 3 4 (Some ''hi'') (ipc_init ipc_static))) = {#(3, 4, ''hi'')#}"
  using ipc_send_correct [OF ipc_boot(1), of 3 4 "Some ''hi''"
      "fst (ipc_send 3 4 (Some ''hi'') (ipc_init ipc_static))"
      "snd (ipc_send 3 4 (Some ''hi'') (ipc_init ipc_static))"]
  by (simp add: ipc_boot cstr_def)

text \<open>
  C27.  \<open>ipc_recv\<close> with a real buffer of at least \<open>out_size\<close> bytes: invalid calls return -1 and
  touch nothing; with no packet for the caller it returns 0 with an empty string; otherwise it
  removes exactly one packet addressed to the caller, delivers its sender and its text cut to the
  buffer, and returns the number of characters delivered.  Packets of other processes are never
  delivered nor removed.
\<close>

theorem ipc_recv_correct:
  assumes inv: "ipc_inv s" and size: "unat n \<le> length b"
    and recv: "ipc_recv p (Some b) n fo s = (s', out, fo', r)"
  shows "ipc_inv s' \<and>
    (if \<not> ipc_ready s \<or> p = 0 \<or> n = 0 then s' = s \<and> out = Some b \<and> fo' = fo \<and> r = -1
     else if pending_for p s = {#} then s' = s \<and> out = Some (b[0 := NUL]) \<and> fo' = fo \<and> r = 0
     else \<exists>f body b'. (f, p, body) \<in># in_flight s \<and> in_flight s' = in_flight s - {#(f, p, body)#} \<and>
       out = Some b' \<and> length b' = length b \<and> cstr b' = take (unat n - 1) body \<and>
       fo' = map_option (\<lambda>_. f) fo \<and> r = int (length (cstr b')))"
proof (cases "ipc_ready s \<and> p \<noteq> 0 \<and> n \<noteq> 0")
  case False
  with inv recv show ?thesis by (auto simp: ipc_recv_def)
next
  case True
  show ?thesis
  proof (cases "pending_for p s = {#}")
    case empty: True
    from ipc_recv_none [OF _ _ _ empty] True recv inv empty show ?thesis by simp
  next
    case False
    from True have "ipc_ready s" "p \<noteq> 0" "n \<noteq> 0" by simp_all
    from ipc_recv_some [OF inv this size False, where fo = fo] obtain f body s1 b1 where *:
      "ipc_recv p (Some b) n fo s = (s1, Some b1, map_option (\<lambda>_. f) fo, int (length (cstr b1)))"
      "(f, p, body) \<in># in_flight s" "in_flight s1 = in_flight s - {#(f, p, body)#}"
      "cstr b1 = take (unat n - 1) body" "length b1 = length b" "ipc_inv s1" by metis
    have "s' = s1" "out = Some b1" "fo' = map_option (\<lambda>_. f) fo" "r = int (length (cstr b1))"
      using recv unfolding *(1) by simp_all
    moreover have "\<exists>f body b'. (f, p, body) \<in># in_flight s \<and> in_flight s' = in_flight s - {#(f, p, body)#} \<and>
       out = Some b' \<and> length b' = length b \<and> cstr b' = take (unat n - 1) body \<and>
       fo' = map_option (\<lambda>_. f) fo \<and> r = int (length (cstr b'))"
      unfolding calculation by (rule exI [of _ f], rule exI [of _ body], rule exI [of _ b1]) (use * in simp)
    moreover have guard: "\<not> (\<not> ipc_ready s \<or> p = 0 \<or> n = 0)" using True by simp
    ultimately show ?thesis
      unfolding if_not_P [OF guard] if_not_P [OF False] using *(6) by blast
  qed
qed

theorem ipc_recv_correct_witness:
  "\<exists>b'. fst (snd (ipc_recv 4 (Some ''xxxxxxxx'') 8 None demo_sent)) = Some b' \<and> cstr b' = ''hi'' \<and>
     in_flight (fst (ipc_recv 4 (Some ''xxxxxxxx'') 8 None demo_sent)) = {#}"
  using ipc_recv_correct [OF demo_sent(1), of 8 "''xxxxxxxx''" 4 None
      "fst (ipc_recv 4 (Some ''xxxxxxxx'') 8 None demo_sent)"
      "fst (snd (ipc_recv 4 (Some ''xxxxxxxx'') 8 None demo_sent))"
      "fst (snd (snd (ipc_recv 4 (Some ''xxxxxxxx'') 8 None demo_sent)))"
      "snd (snd (snd (ipc_recv 4 (Some ''xxxxxxxx'') 8 None demo_sent)))"]
  by (auto simp: demo_sent)

text \<open>
  Round trip: a text of 1 to 63 characters sent to a process that has nothing pending is
  received by that process unchanged, with the sender's id, by the next \<open>ipc_recv\<close> whose buffer is
  large enough, and the packets in flight are then what they were before the send.
\<close>

theorem ipc_send_recv_roundtrip:
  assumes "ipc_inv s" "ipc_ready s" "t \<noteq> 0" "size (in_flight s) < IPC_MAX_MESSAGES"
    and "pending_for t s = {#}" "m \<noteq> []" "NUL \<notin> set m" "length m < 64"
    and "length m < unat n" "unat n \<le> length b"
  shows "\<exists>s1 s2 b'. ipc_send f t (Some m) s = (s1, True) \<and>
    ipc_recv t (Some b) n (Some x) s1 = (s2, Some b', Some f, int (length m)) \<and>
    cstr b' = m \<and> in_flight s2 = in_flight s"
proof -
  obtain s1 ok where send: "ipc_send f t (Some m) s = (s1, ok)" by fastforce
  from assms have m: "cstr m = m" by (simp add: cstr_id)
  from ipc_send_effect [OF assms(1) send] m assms
  have s1: "ok" "ipc_inv s1" "ipc_ready s1" "in_flight s1 = add_mset (f, t, m) (in_flight s)"
    by simp_all
  then have only: "pending_for t s1 = {#(f, t, m)#}" using assms(5) by simp
  have n: "n \<noteq> 0" using assms(9) by auto
  have pend: "pending_for t s1 \<noteq> {#}" using only by simp
  obtain f' body s2 b' where
    "ipc_recv t (Some b) n (Some x) s1 = (s2, Some b', map_option (\<lambda>_. f') (Some x), int (length (cstr b')))"
    and r: "(f', t, body) \<in># in_flight s1" "in_flight s2 = in_flight s1 - {#(f', t, body)#}"
    "cstr b' = take (unat n - 1) body"
    by (rule ipc_recv_some [OF s1(2,3) assms(3) n assms(10) pend, where fo = "Some x"])
  moreover have "(f', t, body) \<in># pending_for t s1" using r(1) by simp
  then have "f' = f" "body = m" unfolding only by auto
  ultimately show ?thesis using s1(1,4) send assms(9)
    by (intro exI [of _ s1] exI [of _ s2] exI [of _ b']) simp
qed

theorem ipc_send_recv_roundtrip_witness:
  "\<exists>s1 s2 b'. ipc_send 7 4 (Some ''ping'') (ipc_init ipc_static) = (s1, True) \<and>
    ipc_recv 4 (Some (replicate 8 CHR ''x'')) 8 (Some 0) s1 = (s2, Some b', Some 7, 4) \<and>
    cstr b' = ''ping'' \<and> in_flight s2 = {#}"
  using ipc_send_recv_roundtrip [OF ipc_boot(1,2), of 4 "''ping''" 8 "replicate 8 CHR ''x''" 7 0]
  by (simp add: ipc_boot)

text \<open>
  \<open>ipc_pending_count\<close> is the exact number of packets in flight, at most 64.
\<close>

theorem ipc_pending_count_exact:
  assumes "ipc_inv s" and "ipc_ready s"
  shows "unat (ipc_pending_count s) = size (in_flight s) \<and> size (in_flight s) \<le> IPC_MAX_MESSAGES"
  using assms size_in_flight_le [OF assms(1)]
  by (simp add: ipc_pending_count_def count_loop_eq size_in_flight unat_of_nat)

theorem ipc_pending_count_exact_witness:
  "unat (ipc_pending_count (ipc_init ipc_static)) = 0"
  using ipc_pending_count_exact [OF ipc_boot(1,2)] by (simp add: ipc_boot)

end
