(* ===== verification/Keyboard.thy ===== *)
theory Keyboard
  imports Mars_Prelude
begin

text \<open>
  \<open>keyboard.c\<close>: decoding of set-1 scancodes (shift, the 0xE0 prefix, the two key maps) and the
  256-entry ring buffer between the keyboard interrupt and the shell.  The buffer is shown to be a
  first-in first-out queue of capacity 255, first for the two operations run as a whole and then
  for the interrupt arriving between any two statements of \<open>keyboard_try_getchar\<close>.
\<close>

section \<open>State and operations\<close>

definition KEY_SPECIAL_UP :: char where "KEY_SPECIAL_UP = CHR 0x11"
definition KEY_SPECIAL_DOWN :: char where "KEY_SPECIAL_DOWN = CHR 0x12"
definition KEY_SPECIAL_LEFT :: char where "KEY_SPECIAL_LEFT = CHR 0x13"
definition KEY_SPECIAL_RIGHT :: char where "KEY_SPECIAL_RIGHT = CHR 0x14"
definition KEY_SPECIAL_DELETE :: char where "KEY_SPECIAL_DELETE = CHR 0x15"

lemmas key_specials = KEY_SPECIAL_UP_def KEY_SPECIAL_DOWN_def KEY_SPECIAL_LEFT_def
  KEY_SPECIAL_RIGHT_def KEY_SPECIAL_DELETE_def

definition keymap :: "u8 \<Rightarrow> char" where
  "keymap sc = (case map_of [
     (0x02, CHR ''1''), (0x03, CHR ''2''), (0x04, CHR ''3''), (0x05, CHR ''4''), (0x06, CHR ''5''),
     (0x07, CHR ''6''), (0x08, CHR ''7''), (0x09, CHR ''8''), (0x0A, CHR ''9''), (0x0B, CHR ''0''),
     (0x0C, CHR ''-''), (0x0D, CHR ''=''), (0x0E, CHR 0x08), (0x0F, CHR 0x09), (0x10, CHR ''q''),
     (0x11, CHR ''w''), (0x12, CHR ''e''), (0x13, CHR ''r''), (0x14, CHR ''t''), (0x15, CHR ''y''),
     (0x16, CHR ''u''), (0x17, CHR ''i''), (0x18, CHR ''o''), (0x19, CHR ''p''), (0x1A, CHR ''[''),
     (0x1B, CHR '']''), (0x1C, CHR 0x0A), (0x1E, CHR ''a''), (0x1F, CHR ''s''), (0x20, CHR ''d''),
     (0x21, CHR ''f''), (0x22, CHR ''g''), (0x23, CHR ''h''), (0x24, CHR ''j''), (0x25, CHR ''k''),
     (0x26, CHR ''l''), (0x27, CHR '';''), (0x28, CHR 0x27), (0x29, CHR 0x60), (0x2B, CHR 0x5C),
     (0x2C, CHR ''z''), (0x2D, CHR ''x''), (0x2E, CHR ''c''), (0x2F, CHR ''v''), (0x30, CHR ''b''),
     (0x31, CHR ''n''), (0x32, CHR ''m''), (0x33, CHR '',''), (0x34, CHR ''.''), (0x35, CHR ''/''),
     (0x39, CHR '' '')] sc of
     Some c \<Rightarrow> c | None \<Rightarrow> NUL)"

definition keymap_shift :: "u8 \<Rightarrow> char" where
  "keymap_shift sc = (case map_of [
     (0x02, CHR ''!''), (0x03, CHR ''@''), (0x04, CHR ''#''), (0x05, CHR ''$''), (0x06, CHR ''%''),
     (0x07, CHR ''^''), (0x08, CHR ''&''), (0x09, CHR ''*''), (0x0A, CHR ''(''), (0x0B, CHR '')''),
     (0x0C, CHR ''_''), (0x0D, CHR ''+''), (0x0E, CHR 0x08), (0x0F, CHR 0x09), (0x10, CHR ''Q''),
     (0x11, CHR ''W''), (0x12, CHR ''E''), (0x13, CHR ''R''), (0x14, CHR ''T''), (0x15, CHR ''Y''),
     (0x16, CHR ''U''), (0x17, CHR ''I''), (0x18, CHR ''O''), (0x19, CHR ''P''), (0x1A, CHR ''{''),
     (0x1B, CHR ''}''), (0x1C, CHR 0x0A), (0x1E, CHR ''A''), (0x1F, CHR ''S''), (0x20, CHR ''D''),
     (0x21, CHR ''F''), (0x22, CHR ''G''), (0x23, CHR ''H''), (0x24, CHR ''J''), (0x25, CHR ''K''),
     (0x26, CHR ''L''), (0x27, CHR '':''), (0x28, CHR 0x22), (0x29, CHR ''~''), (0x2B, CHR ''|''),
     (0x2C, CHR ''Z''), (0x2D, CHR ''X''), (0x2E, CHR ''C''), (0x2F, CHR ''V''), (0x30, CHR ''B''),
     (0x31, CHR ''N''), (0x32, CHR ''M''), (0x33, CHR ''<''), (0x34, CHR ''>''), (0x35, CHR ''?''),
     (0x39, CHR '' '')] sc of
     Some c \<Rightarrow> c | None \<Rightarrow> NUL)"

record keyboard =
  kb_shift :: u8
  kb_extended :: u8
  kb_head :: u8
  kb_tail :: u8
  kb_buffer :: string

definition keyboard_buffer_push :: "char \<Rightarrow> keyboard \<Rightarrow> keyboard" where
  "keyboard_buffer_push c k =
     (let nx = kb_head k + 1 in
      if nx = kb_tail k then k
      else k\<lparr>kb_buffer := (kb_buffer k)[unat (kb_head k) := c], kb_head := nx\<rparr>)"

definition keyboard_handle_extended :: "u8 \<Rightarrow> keyboard \<Rightarrow> keyboard" where
  "keyboard_handle_extended sc k0 =
     (let k = k0\<lparr>kb_extended := 0\<rparr> in
      if sc AND 0x80 \<noteq> 0 then k
      else if sc = 0x48 then keyboard_buffer_push KEY_SPECIAL_UP k
      else if sc = 0x50 then keyboard_buffer_push KEY_SPECIAL_DOWN k
      else if sc = 0x4B then keyboard_buffer_push KEY_SPECIAL_LEFT k
      else if sc = 0x4D then keyboard_buffer_push KEY_SPECIAL_RIGHT k
      else if sc = 0x53 then keyboard_buffer_push KEY_SPECIAL_DELETE k
      else k)"

definition keyboard_handle_scancode :: "u8 \<Rightarrow> keyboard \<Rightarrow> keyboard" where
  "keyboard_handle_scancode sc k =
     (if sc = 0xE0 then k\<lparr>kb_extended := 1\<rparr>
      else if kb_extended k \<noteq> 0 then keyboard_handle_extended sc k
      else if sc = 0x2A \<or> sc = 0x36 then k\<lparr>kb_shift := 1\<rparr>
      else if sc = 0xAA \<or> sc = 0xB6 then k\<lparr>kb_shift := 0\<rparr>
      else if sc AND 0x80 \<noteq> 0 then k
      else let c = (if kb_shift k \<noteq> 0 then keymap_shift sc else keymap sc)
           in if c \<noteq> NUL then keyboard_buffer_push c k else k)"

text \<open>The two port reads of the interrupt handler are its arguments.\<close>

definition keyboard_isr :: "u8 \<Rightarrow> u8 \<Rightarrow> keyboard \<Rightarrow> keyboard" where
  "keyboard_isr port64 port60 k =
     (if port64 AND 1 = 0 then k else keyboard_handle_scancode port60 k)"

definition keyboard_buffer_reset :: "keyboard \<Rightarrow> keyboard" where
  "keyboard_buffer_reset k = k\<lparr>kb_shift := 0, kb_extended := 0, kb_head := 0, kb_tail := 0\<rparr>"

definition keyboard_try_getchar :: "keyboard \<Rightarrow> keyboard \<times> char" where
  "keyboard_try_getchar k =
     (if kb_head k = kb_tail k then (k, NUL)
      else (k\<lparr>kb_tail := kb_tail k + 1\<rparr>, kb_buffer k ! unat (kb_tail k)))"

definition keyboard_static :: keyboard where
  "keyboard_static = \<lparr>kb_shift = 0, kb_extended = 0, kb_head = 0, kb_tail = 0,
     kb_buffer = replicate 256 NUL\<rparr>"

section \<open>The ring buffer as a bounded queue\<close>

text \<open>
  The contract between the interrupt side and the shell side: a queue of bounded capacity that
  drops what does not fit and hands out what it accepted in order.
\<close>

locale bounded_fifo =
  fixes push :: "char \<Rightarrow> 's \<Rightarrow> 's"
    and pop :: "'s \<Rightarrow> 's \<times> char"
    and items :: "'s \<Rightarrow> string"
    and inv :: "'s \<Rightarrow> bool"
    and cap :: nat
  assumes push_items: "inv s \<Longrightarrow>
      items (push c s) = (if length (items s) < cap then items s @ [c] else items s)"
    and push_inv: "inv s \<Longrightarrow> c \<noteq> NUL \<Longrightarrow> inv (push c s)"
    and pop_empty: "inv s \<Longrightarrow> items s = [] \<Longrightarrow> pop s = (s, NUL)"
    and pop_items: "inv s \<Longrightarrow> items s = c # cs \<Longrightarrow> snd (pop s) = c \<and> items (fst (pop s)) = cs"
    and pop_inv: "inv s \<Longrightarrow> inv (fst (pop s))"
    and no_NUL: "inv s \<Longrightarrow> NUL \<notin> set (items s)"
begin

fun push_all :: "string \<Rightarrow> 's \<Rightarrow> 's" where
  "push_all [] s = s"
| "push_all (c # cs) s = push_all cs (push c s)"

fun pop_n :: "nat \<Rightarrow> 's \<Rightarrow> 's \<times> string" where
  "pop_n 0 s = (s, [])"
| "pop_n (Suc n) s = (let (s', c) = pop s; (s'', cs) = pop_n n s' in (s'', c # cs))"

lemma push_all_items:
  "inv s \<Longrightarrow> NUL \<notin> set cs \<Longrightarrow> inv (push_all cs s) \<and>
   items (push_all cs s) = items s @ take (cap - length (items s)) cs"
proof (induction cs arbitrary: s)
  case Nil
  then show ?case by simp
next
  case (Cons c cs)
  then have "inv (push c s)" by (intro push_inv) auto
  with Cons.prems Cons.IH [of "push c s"] show ?case
    by (cases "cap - length (items s)") (auto simp: push_items diff_Suc)
qed

lemma pop_n_items:
  "inv s \<Longrightarrow> n \<le> length (items s) \<Longrightarrow>
   inv (fst (pop_n n s)) \<and> snd (pop_n n s) = take n (items s) \<and> items (fst (pop_n n s)) = drop n (items s)"
proof (induction n arbitrary: s)
  case 0
  then show ?case by simp
next
  case (Suc n)
  then obtain c cs where cs: "items s = c # cs" by (cases "items s") auto
  with Suc.prems pop_items [of s c cs] have "snd (pop s) = c" "items (fst (pop s)) = cs" by auto
  with Suc cs pop_inv [of s] Suc.IH [of "fst (pop s)"] show ?case
    by (simp add: case_prod_unfold Let_def)
qed

lemma pop_NUL_iff: "inv s \<Longrightarrow> snd (pop s) = NUL \<longleftrightarrow> items s = []"
proof (cases "items s")
  case Nil
  assume "inv s"
  with Nil pop_empty show ?thesis by simp
next
  case (Cons c cs)
  assume "inv s"
  with Cons pop_items no_NUL [of s] show ?thesis by auto
qed

end

definition kb_items :: "keyboard \<Rightarrow> string" where
  "kb_items k = map (\<lambda>i. kb_buffer k ! unat (kb_tail k + of_nat i)) [0..<unat (kb_head k - kb_tail k)]"

definition kb_inv :: "keyboard \<Rightarrow> bool" where
  "kb_inv k \<longleftrightarrow> length (kb_buffer k) = 256 \<and> NUL \<notin> set (kb_items k)"

lemma length_kb_items: "length (kb_items k) = unat (kb_head k - kb_tail k)"
  by (simp add: kb_items_def)

lemma kb_full_iff: "kb_head k + 1 = kb_tail k \<longleftrightarrow> length (kb_items k) = 255"
proof -
  have "kb_head k + 1 = kb_tail k \<longleftrightarrow> kb_head k - kb_tail k = - 1"
    by (auto simp: diff_eq_eq eq_diff_eq)
  moreover have "(- 1 :: u8) = 255" by simp
  ultimately have "kb_head k + 1 = kb_tail k \<longleftrightarrow> kb_head k - kb_tail k = 255" by (simp only:)
  then show ?thesis by (simp add: length_kb_items word_unat_eq_iff)
qed

lemma kb_empty_iff: "kb_head k = kb_tail k \<longleftrightarrow> kb_items k = []"
proof -
  have "kb_items k = [] \<longleftrightarrow> unat (kb_head k - kb_tail k) = 0"
    by (simp add: length_kb_items flip: length_0_conv)
  then show ?thesis by (simp add: unat_eq_zero)
qed

lemma kb_items_le: "length (kb_items k) \<le> 255"
  using unsigned_less [of "kb_head k - kb_tail k", where ?'a = nat] by (simp add: length_kb_items)

lemma unat_of_nat_u8: "i < 256 \<Longrightarrow> unat (of_nat i :: u8) = i"
  by (simp add: unat_of_nat)

lemma kb_push_items:
  assumes "length (kb_buffer k) = 256"
  shows "kb_items (keyboard_buffer_push c k) =
    (if length (kb_items k) < 255 then kb_items k @ [c] else kb_items k)"
proof (cases "length (kb_items k) < 255")
  case False
  then have "length (kb_items k) = 255" using kb_items_le [of k] by simp
  then show ?thesis using kb_full_iff [of k] by (simp add: keyboard_buffer_push_def)
next
  case True
  let ?n = "unat (kb_head k - kb_tail k)"
  have n: "?n < 255" using True by (simp add: length_kb_items)
  have shift: "kb_head k + 1 - kb_tail k = (kb_head k - kb_tail k) + 1" by simp
  have len: "unat (kb_head k + 1 - kb_tail k) = Suc ?n"
    unfolding shift using n by (subst unat_word_ariths) simp
  have hd: "kb_tail k + of_nat ?n = kb_head k" by simp
  have ne: "unat (kb_head k) \<noteq> unat (kb_tail k + of_nat i)" if "i < ?n" for i
  proof
    assume "unat (kb_head k) = unat (kb_tail k + of_nat i)"
    then have "of_nat i = kb_head k - kb_tail k" by (simp flip: word_unat_eq_iff)
    then have "unat (of_nat i :: u8) = ?n" by simp
    with that n show False by (simp add: unat_of_nat_u8)
  qed
  have b: "unat (kb_head k) < 256" using unsigned_less [of "kb_head k", where ?'a = nat] by simp
  have "keyboard_buffer_push c k =
      k\<lparr>kb_buffer := (kb_buffer k)[unat (kb_head k) := c], kb_head := kb_head k + 1\<rparr>"
    using True kb_full_iff [of k] by (simp add: keyboard_buffer_push_def Let_def)
  then have "kb_items (keyboard_buffer_push c k) =
      map (\<lambda>i. (kb_buffer k)[unat (kb_head k) := c] ! unat (kb_tail k + of_nat i)) [0..<Suc ?n]"
    by (simp add: kb_items_def len del: upt_Suc)
  also have "\<dots> = kb_items k @ [c]"
    using ne b assms by (simp add: kb_items_def hd [simplified])
  finally show ?thesis using True by simp
qed

lemma kb_pop_items:
  assumes "kb_items k = c # cs"
  shows "snd (keyboard_try_getchar k) = c" and "kb_items (fst (keyboard_try_getchar k)) = cs"
    and "keyboard_try_getchar k = (k\<lparr>kb_tail := kb_tail k + 1\<rparr>, kb_buffer k ! unat (kb_tail k))"
proof -
  let ?n = "unat (kb_head k - kb_tail k)"
  have ne: "kb_head k \<noteq> kb_tail k" using assms kb_empty_iff [of k] by auto
  have n: "?n = Suc (length cs)" using assms length_kb_items [of k] by simp
  have shift: "kb_head k - (kb_tail k + 1) = (kb_head k - kb_tail k) - 1" by simp
  have len: "unat (kb_head k - (kb_tail k + 1)) = length cs"
    unfolding shift using n unat_minus_one [of "kb_head k - kb_tail k"] ne by simp
  show eq: "keyboard_try_getchar k = (k\<lparr>kb_tail := kb_tail k + 1\<rparr>, kb_buffer k ! unat (kb_tail k))"
    using ne by (simp add: keyboard_try_getchar_def)
  have split: "c # cs = kb_buffer k ! unat (kb_tail k) #
      map (\<lambda>i. kb_buffer k ! unat (kb_tail k + of_nat (Suc i))) [0..<length cs]"
    unfolding assms [symmetric] kb_items_def n
    by (simp only: upt_conv_Cons [of 0] map_Suc_upt [symmetric]) (simp add: comp_def)
  then show "snd (keyboard_try_getchar k) = c" by (simp add: eq)
  have "kb_items (fst (keyboard_try_getchar k)) =
      map (\<lambda>i. kb_buffer k ! unat (kb_tail k + 1 + of_nat i)) [0..<length cs]"
    by (simp add: eq kb_items_def len)
  also have "\<dots> = cs" using split by (simp add: ac_simps)
  finally show "kb_items (fst (keyboard_try_getchar k)) = cs" .
qed

lemma kb_push_buffer: "length (kb_buffer (keyboard_buffer_push c k)) = length (kb_buffer k)"
  by (simp add: keyboard_buffer_push_def Let_def)

interpretation kb_fifo: bounded_fifo keyboard_buffer_push keyboard_try_getchar kb_items kb_inv 255
proof
  fix k :: keyboard and c cs
  assume inv: "kb_inv k"
  then show push: "kb_items (keyboard_buffer_push c k) =
      (if length (kb_items k) < 255 then kb_items k @ [c] else kb_items k)"
    by (simp add: kb_push_items kb_inv_def)
  show "c \<noteq> NUL \<Longrightarrow> kb_inv (keyboard_buffer_push c k)"
    using inv push by (simp add: kb_inv_def kb_push_buffer)
  show "kb_items k = [] \<Longrightarrow> keyboard_try_getchar k = (k, NUL)"
    using kb_empty_iff [of k] by (simp add: keyboard_try_getchar_def)
  show "kb_items k = c # cs \<Longrightarrow>
      snd (keyboard_try_getchar k) = c \<and> kb_items (fst (keyboard_try_getchar k)) = cs"
    using kb_pop_items [of k c cs] by blast
  show "kb_inv (fst (keyboard_try_getchar k))"
  proof (cases "kb_items k")
    case Nil
    with inv show ?thesis using kb_empty_iff [of k] by (simp add: keyboard_try_getchar_def)
  next
    case (Cons x xs)
    with inv kb_pop_items [OF Cons] show ?thesis by (auto simp: kb_inv_def)
  qed
  show "NUL \<notin> set (kb_items k)" using inv by (simp add: kb_inv_def)
qed

section \<open>Scancode decoding\<close>

text \<open>
  The decoder as a Mealy machine over the two mode bits: what a scancode does to (shift held,
  prefix seen) and the key it produces, if any.
\<close>

definition arrow_key :: "u8 \<Rightarrow> char option" where
  "arrow_key sc = map_of [(0x48, KEY_SPECIAL_UP), (0x50, KEY_SPECIAL_DOWN), (0x4B, KEY_SPECIAL_LEFT),
     (0x4D, KEY_SPECIAL_RIGHT), (0x53, KEY_SPECIAL_DELETE)] sc"

definition decode :: "bool \<times> bool \<Rightarrow> u8 \<Rightarrow> (bool \<times> bool) \<times> char option" where
  "decode m sc =
     (let (sh, ext) = m in
      if sc = 0xE0 then ((sh, True), None)
      else if ext then ((sh, False), arrow_key sc)
      else if sc \<in> {0x2A, 0x36} then ((True, ext), None)
      else if sc \<in> {0xAA, 0xB6} then ((False, ext), None)
      else let c = (if sc \<ge> 0x80 then NUL else if sh then keymap_shift sc else keymap sc)
           in ((sh, ext), if c = NUL then None else Some c))"

fun decode_all :: "bool \<times> bool \<Rightarrow> u8 list \<Rightarrow> string" where
  "decode_all m [] = []"
| "decode_all m (sc # scs) =
     (let (m', out) = decode m sc in (case out of None \<Rightarrow> [] | Some c \<Rightarrow> [c]) @ decode_all m' scs)"

definition kb_modes :: "keyboard \<Rightarrow> bool \<times> bool" where
  "kb_modes k = (kb_shift k \<noteq> 0, kb_extended k \<noteq> 0)"

lemma bit80: "bit (0x80 :: u8) n \<longleftrightarrow> n = 7"
proof -
  have "bit (2 ^ 7 :: u8) n \<longleftrightarrow> possible_bit TYPE(u8) n \<and> n = 7"
    by (rule bit_exp_iff)
  also have "\<dots> \<longleftrightarrow> n = 7" by (cases "n = 7") simp_all
  finally show ?thesis by simp
qed

lemma high_bit_iff: "(sc AND 0x80 :: u8) \<noteq> 0 \<longleftrightarrow> sc \<ge> 0x80"
proof -
  have "(sc AND 0x80) \<noteq> 0 \<longleftrightarrow> bit sc 7"
  proof -
    have "bit (sc AND 0x80) n \<longleftrightarrow> bit (if bit sc 7 then 0x80 else 0 :: u8) n" for n
      by (cases "bit sc 7") (simp_all only: bit_and_iff bit80 if_True if_False bit_0_eq bot_apply, auto)
    then have "sc AND 0x80 = (if bit sc 7 then 0x80 else 0)" by (intro bit_word_eqI)
    then show ?thesis by simp
  qed
  also have "\<dots> \<longleftrightarrow> odd (unat sc div 128)"
    using bit_unsigned_iff [of sc 7, where ?'a = nat] bit_iff_odd [of "unat sc" 7] by simp
  also have "\<dots> \<longleftrightarrow> sc \<ge> 0x80"
    using unsigned_less [of sc, where ?'a = nat]
    by (cases "unat sc < 128") (simp_all add: word_le_nat_alt le_div_geq)
  finally show ?thesis .
qed

lemma arrow_low: "sc \<ge> 0x80 \<Longrightarrow> arrow_key sc = None"
  by (auto simp: arrow_key_def map_of_eq_None_iff)

lemma push_modes [simp]: "kb_modes (keyboard_buffer_push c k) = kb_modes k"
  by (simp add: kb_modes_def keyboard_buffer_push_def Let_def)

lemma items_modes [simp]: "kb_items (k\<lparr>kb_shift := a\<rparr>) = kb_items k"
    "kb_items (k\<lparr>kb_extended := b\<rparr>) = kb_items k"
  by (simp_all add: kb_items_def)

lemma inv_modes [simp]: "kb_inv (k\<lparr>kb_shift := a\<rparr>) = kb_inv k"
    "kb_inv (k\<lparr>kb_extended := b\<rparr>) = kb_inv k"
  by (simp_all add: kb_inv_def)

lemma handle_scancode_decode:
  obtains k' where "kb_modes k' = fst (decode (kb_modes k) sc)"
    and "kb_items k' = kb_items k" and "kb_buffer k' = kb_buffer k"
    and "keyboard_handle_scancode sc k =
      (case snd (decode (kb_modes k) sc) of None \<Rightarrow> k' | Some c \<Rightarrow> keyboard_buffer_push c k')"
proof (cases "sc = 0xE0 \<or> kb_extended k = 0 \<and> sc \<in> {0x2A, 0x36, 0xAA, 0xB6}")
  case True
  then show ?thesis
    by (intro that [of "keyboard_handle_scancode sc k"])
      (auto simp: keyboard_handle_scancode_def decode_def kb_modes_def kb_items_def)
next
  case False
  show ?thesis
  proof (cases "kb_extended k = 0")
    case True
    with False show ?thesis
      by (intro that [of k]) (auto simp: keyboard_handle_scancode_def decode_def kb_modes_def
          kb_items_def high_bit_iff Let_def)
  next
    case ext: False
    with False have "keyboard_handle_scancode sc k = keyboard_handle_extended sc k"
      by (simp add: keyboard_handle_scancode_def)
    also have "\<dots> = (case arrow_key sc of None \<Rightarrow> k\<lparr>kb_extended := 0\<rparr>
        | Some c \<Rightarrow> keyboard_buffer_push c (k\<lparr>kb_extended := 0\<rparr>))"
      by (auto simp: keyboard_handle_extended_def high_bit_iff arrow_low Let_def) (simp_all add: arrow_key_def)
    finally show ?thesis
      using False ext by (intro that [of "k\<lparr>kb_extended := 0\<rparr>"])
        (auto simp: decode_def kb_modes_def kb_items_def)
  qed
qed

lemma keymap_sound: "keymap sc = NUL \<longleftrightarrow> keymap_shift sc = NUL"
proof -
  have v: "map_of xs sc = Some NUL \<Longrightarrow> NUL \<in> snd ` set xs" for xs :: "(u8 \<times> char) list"
    by (metis image_eqI map_of_SomeD snd_conv)
  show ?thesis
    unfolding keymap_def keymap_shift_def
    by (auto split: option.splits dest!: v simp: map_of_eq_None_iff)
qed

lemma decode_not_NUL: "snd (decode m sc) = Some c \<Longrightarrow> c \<noteq> NUL"
  by (auto simp: decode_def arrow_key_def key_specials Let_def split: if_splits prod.splits)

lemma handle_scancode_effect:
  assumes "kb_inv k"
  shows "kb_inv (keyboard_handle_scancode sc k)"
    and "kb_modes (keyboard_handle_scancode sc k) = fst (decode (kb_modes k) sc)"
    and "kb_items (keyboard_handle_scancode sc k) = kb_items k @
      (case snd (decode (kb_modes k) sc) of None \<Rightarrow> []
       | Some c \<Rightarrow> if length (kb_items k) < 255 then [c] else [])"
proof -
  obtain k' where k': "kb_modes k' = fst (decode (kb_modes k) sc)"
    "kb_items k' = kb_items k" "kb_buffer k' = kb_buffer k"
    and eq: "keyboard_handle_scancode sc k =
      (case snd (decode (kb_modes k) sc) of None \<Rightarrow> k' | Some c \<Rightarrow> keyboard_buffer_push c k')"
    by (rule handle_scancode_decode)
  have inv: "kb_inv k'" using assms k' by (simp add: kb_inv_def)
  show "kb_inv (keyboard_handle_scancode sc k)"
    using inv kb_fifo.push_inv [OF inv] decode_not_NUL [of "kb_modes k" sc]
    by (simp add: eq split: option.split)
  show "kb_modes (keyboard_handle_scancode sc k) = fst (decode (kb_modes k) sc)"
    by (simp add: eq k' split: option.split)
  show "kb_items (keyboard_handle_scancode sc k) = kb_items k @
      (case snd (decode (kb_modes k) sc) of None \<Rightarrow> []
       | Some c \<Rightarrow> if length (kb_items k) < 255 then [c] else [])"
    using kb_fifo.push_items [OF inv] by (simp add: eq k' split: option.split)
qed

text \<open>A burst of scancodes, each announced by the status port.\<close>

fun type_keys :: "u8 list \<Rightarrow> keyboard \<Rightarrow> keyboard" where
  "type_keys [] k = k"
| "type_keys (sc # scs) k = type_keys scs (keyboard_isr 1 sc k)"

lemma type_keys_items:
  assumes "kb_inv k" and "length (kb_items k) + length (decode_all (kb_modes k) scs) \<le> 255"
  shows "kb_inv (type_keys scs k) \<and> kb_items (type_keys scs k) = kb_items k @ decode_all (kb_modes k) scs"
  using assms
proof (induction scs arbitrary: k)
  case Nil
  then show ?case by simp
next
  case (Cons sc scs)
  let ?k = "keyboard_handle_scancode sc k"
  have k: "keyboard_isr 1 sc k = ?k" by (simp add: keyboard_isr_def)
  note eff = handle_scancode_effect [OF Cons.prems(1), of sc]
  have "kb_items ?k = kb_items k @ (case snd (decode (kb_modes k) sc) of None \<Rightarrow> [] | Some c \<Rightarrow> [c])"
    using eff(3) Cons.prems(2) by (auto simp: case_prod_unfold Let_def split: option.splits)
  with Cons.prems(2) Cons.IH [OF eff(1)] eff(2) show ?case
    by (simp add: k case_prod_unfold Let_def)
qed

section \<open>The interrupt between any two statements of the reader\<close>

text \<open>
  \<open>keyboard_try_getchar\<close> runs with interrupts enabled: the handler may run before the test, between
  the test and the read of the slot, and between the read and the update of \<open>buffer_tail\<close>.
  \<open>sys_scans\<close> records every scancode the handler reads, with the number of keys waiting at that moment, and
  \<open>sys_delivered\<close> the keys the reader returned.
\<close>

datatype reader = Idle | Checked | Loaded char

record kb_sys =
  sys_kb :: keyboard
  sys_reader :: reader
  sys_scans :: "(u8 \<times> nat) list"
  sys_delivered :: string

definition isr_reads :: "u8 \<Rightarrow> u8 \<Rightarrow> keyboard \<Rightarrow> (u8 \<times> nat) list" where
  "isr_reads port64 port60 k = (if port64 AND 1 = 0 then [] else [(port60, length (kb_items k))])"

inductive kb_step :: "kb_sys \<Rightarrow> kb_sys \<Rightarrow> bool" where
  irq: "kb_step s (s\<lparr>sys_kb := keyboard_isr port64 port60 (sys_kb s),
      sys_scans := sys_scans s @ isr_reads port64 port60 (sys_kb s)\<rparr>)"
| check: "sys_reader s = Idle \<Longrightarrow> kb_head (sys_kb s) \<noteq> kb_tail (sys_kb s) \<Longrightarrow>
    kb_step s (s\<lparr>sys_reader := Checked\<rparr>)"
| load: "sys_reader s = Checked \<Longrightarrow>
    kb_step s (s\<lparr>sys_reader := Loaded (kb_buffer (sys_kb s) ! unat (kb_tail (sys_kb s)))\<rparr>)"
| advance: "sys_reader s = Loaded c \<Longrightarrow>
    kb_step s (s\<lparr>sys_kb := (sys_kb s)\<lparr>kb_tail := kb_tail (sys_kb s) + 1\<rparr>, sys_reader := Idle,
      sys_delivered := sys_delivered s @ [c]\<rparr>)"

definition kb_start :: "keyboard \<Rightarrow> kb_sys" where
  "kb_start k = \<lparr>sys_kb = keyboard_buffer_reset k, sys_reader = Idle, sys_scans = [], sys_delivered = []\<rparr>"

text \<open>The keys that a recorded sequence of scancodes stands for, each with the number of keys waiting.\<close>

fun arrivals :: "bool \<times> bool \<Rightarrow> (u8 \<times> nat) list \<Rightarrow> (char \<times> nat) list" where
  "arrivals m [] = []"
| "arrivals m ((sc, n) # xs) =
     (case snd (decode m sc) of None \<Rightarrow> [] | Some c \<Rightarrow> [(c, n)]) @ arrivals (fst (decode m sc)) xs"

definition modes_after :: "bool \<times> bool \<Rightarrow> (u8 \<times> nat) list \<Rightarrow> bool \<times> bool" where
  "modes_after m xs = fold (\<lambda>(sc, _) m. fst (decode m sc)) xs m"

definition in_time :: "(char \<times> nat) list \<Rightarrow> string" where
  "in_time xs = map fst (filter (\<lambda>(c, waiting). waiting < 255) xs)"

lemma arrivals_snoc: "arrivals m (xs @ [(sc, n)]) =
    arrivals m xs @ (case snd (decode (modes_after m xs) sc) of None \<Rightarrow> [] | Some c \<Rightarrow> [(c, n)])"
  by (induction m xs rule: arrivals.induct) (simp_all add: modes_after_def split: option.split)

lemma arrivals_keys: "map fst (arrivals m xs) = decode_all m (map fst xs)"
  by (induction m xs rule: arrivals.induct) (simp_all add: case_prod_unfold Let_def split: option.split)

definition sys_inv :: "kb_sys \<Rightarrow> bool" where
  "sys_inv s \<longleftrightarrow> kb_inv (sys_kb s) \<and> kb_modes (sys_kb s) = modes_after (False, False) (sys_scans s) \<and>
     in_time (arrivals (False, False) (sys_scans s)) = sys_delivered s @ kb_items (sys_kb s) \<and>
     (case sys_reader s of Idle \<Rightarrow> True | Checked \<Rightarrow> kb_items (sys_kb s) \<noteq> []
      | Loaded c \<Rightarrow> kb_items (sys_kb s) \<noteq> [] \<and> hd (kb_items (sys_kb s)) = c)"

lemma isr_effect:
  fixes a b
  assumes inv: "kb_inv k" and m: "kb_modes k = modes_after m0 xs"
  defines "xs' \<equiv> xs @ isr_reads a b k"
  shows "kb_inv (keyboard_isr a b k)" "kb_modes (keyboard_isr a b k) = modes_after m0 xs'"
    "\<exists>new. kb_items (keyboard_isr a b k) = kb_items k @ new \<and> in_time (arrivals m0 xs') = in_time (arrivals m0 xs) @ new"
proof -
  note eff = handle_scancode_effect [OF inv, of b]
  show "kb_inv (keyboard_isr a b k)" using eff(1) inv by (simp add: keyboard_isr_def)
  show "kb_modes (keyboard_isr a b k) = modes_after m0 xs'"
    using eff(2) m by (simp add: keyboard_isr_def xs'_def isr_reads_def modes_after_def)
  show "\<exists>new. kb_items (keyboard_isr a b k) = kb_items k @ new \<and> in_time (arrivals m0 xs') = in_time (arrivals m0 xs) @ new"
  proof (cases "a AND 1 = 0")
    case True
    then show ?thesis by (simp add: keyboard_isr_def xs'_def isr_reads_def)
  next
    case False
    then show ?thesis
      using eff(3) by (simp add: keyboard_isr_def xs'_def isr_reads_def arrivals_snoc in_time_def m split: option.split)
  qed
qed

lemma sys_inv_step: "kb_step s s' \<Longrightarrow> sys_inv s \<Longrightarrow> sys_inv s'"
proof (induction rule: kb_step.induct)
  case (irq s a b)
  then have inv: "kb_inv (sys_kb s)" "kb_modes (sys_kb s) = modes_after (False, False) (sys_scans s)" by (simp_all add: sys_inv_def)
  obtain new where "kb_items (keyboard_isr a b (sys_kb s)) = kb_items (sys_kb s) @ new"
    "in_time (arrivals (False, False) (sys_scans s @ isr_reads a b (sys_kb s))) = in_time (arrivals (False, False) (sys_scans s)) @ new"
    using isr_effect(3) [OF inv, of a b] by blast
  then show ?case using irq isr_effect(1,2) [OF inv, of a b]
    by (auto simp: sys_inv_def hd_append split: reader.splits)
next
  case (check s)
  then show ?case using kb_empty_iff [of "sys_kb s"] by (simp add: sys_inv_def)
next
  case (load s)
  then obtain c cs where c: "kb_items (sys_kb s) = c # cs"
    by (cases "kb_items (sys_kb s)") (auto simp: sys_inv_def)
  with load kb_pop_items [OF c] show ?case by (simp add: sys_inv_def)
next
  case (advance s c)
  then obtain cs where c: "kb_items (sys_kb s) = c # cs"
    by (cases "kb_items (sys_kb s)") (auto simp: sys_inv_def)
  let ?k = "(sys_kb s)\<lparr>kb_tail := kb_tail (sys_kb s) + 1\<rparr>"
  have k: "fst (keyboard_try_getchar (sys_kb s)) = ?k" using kb_pop_items(3) [OF c] by simp
  have "kb_inv ?k" "kb_items ?k = cs" "kb_modes ?k = kb_modes (sys_kb s)"
    using advance kb_fifo.pop_inv [of "sys_kb s"] kb_pop_items(2) [OF c]
    unfolding k by (simp_all add: sys_inv_def kb_modes_def)
  with advance c show ?case by (simp add: sys_inv_def)
qed

lemma sys_inv_run: "kb_step\<^sup>*\<^sup>* s s' \<Longrightarrow> sys_inv s \<Longrightarrow> sys_inv s'"
  by (induction rule: rtranclp_induct) (auto intro: sys_inv_step)

section \<open>Properties\<close>

lemma kb_boot:
  assumes "length (kb_buffer k) = 256"
  shows "kb_inv (keyboard_buffer_reset k)" "kb_items (keyboard_buffer_reset k) = []"
    "kb_modes (keyboard_buffer_reset k) = (False, False)"
  using assms by (simp_all add: kb_inv_def kb_items_def keyboard_buffer_reset_def kb_modes_def)

lemma kb_static: "length (kb_buffer keyboard_static) = 256"
  by (simp add: keyboard_static_def)

text \<open>
  C28.  Typing and reading back: whatever burst of scancodes arrives at an empty keyboard, if it
  decodes to at most 255 keys then as many calls of \<open>keyboard_try_getchar\<close> return exactly the decoded
  keys in order, and the next call returns 0.
\<close>

theorem keyboard_typed_roundtrip:
  assumes "kb_inv k" and "kb_items k = []"
    and "decode_all (kb_modes k) scs = keys" and "length keys \<le> 255"
  shows "snd (kb_fifo.pop_n (length keys) (type_keys scs k)) = keys \<and>
    snd (keyboard_try_getchar (fst (kb_fifo.pop_n (length keys) (type_keys scs k)))) = NUL"
proof -
  have t: "kb_inv (type_keys scs k)" "kb_items (type_keys scs k) = keys"
    using type_keys_items [of k scs] assms by auto
  then show ?thesis
    using kb_fifo.pop_n_items [OF t(1), of "length keys"]
      kb_fifo.pop_NUL_iff [of "fst (kb_fifo.pop_n (length keys) (type_keys scs k))"] by simp
qed

lemma demo_decode:
  "decode_all (kb_modes (keyboard_buffer_reset keyboard_static)) [0x2A, 0x1E, 0xAA, 0x30, 0xE0, 0x48] =
   [CHR ''A'', CHR ''b'', CHR 0x11]"
  by (simp add: kb_boot(3) [OF kb_static] decode_def keymap_def keymap_shift_def arrow_key_def key_specials)

lemma demo_keys: "length [CHR ''A'', CHR ''b'', CHR 0x11] = 3" "length [CHR ''A'', CHR ''b'', CHR 0x11] \<le> 255"
  by simp_all

theorem keyboard_typed_roundtrip_witness:
  "snd (kb_fifo.pop_n 3 (type_keys [0x2A, 0x1E, 0xAA, 0x30, 0xE0, 0x48]
     (keyboard_buffer_reset keyboard_static))) = [CHR ''A'', CHR ''b'', CHR 0x11]"
  using keyboard_typed_roundtrip [OF kb_boot(1,2) [OF kb_static] demo_decode demo_keys(2)]
  unfolding demo_keys(1) by (rule conjunct1)

text \<open>
  The ring buffer is a first-in first-out queue of capacity 255: \<open>keyboard_buffer_push\<close>
  appends the key unless 255 keys are waiting, in which case it drops it; \<open>keyboard_try_getchar\<close>
  returns and removes the oldest key, and returns 0 exactly when none waits.
\<close>

theorem keyboard_ring_fifo:
  assumes "kb_inv k"
  shows "kb_items (keyboard_buffer_push c k) =
      (if length (kb_items k) < 255 then kb_items k @ [c] else kb_items k) \<and>
    length (kb_items k) \<le> 255 \<and>
    kb_items (fst (keyboard_try_getchar k)) = tl (kb_items k) \<and>
    snd (keyboard_try_getchar k) = (if kb_items k = [] then NUL else hd (kb_items k)) \<and>
    kb_inv (fst (keyboard_try_getchar k))"
proof (intro conjI)
  show "kb_items (keyboard_buffer_push c k) =
      (if length (kb_items k) < 255 then kb_items k @ [c] else kb_items k)"
    using assms by (rule kb_fifo.push_items)
  show "length (kb_items k) \<le> 255" by (rule kb_items_le)
  show "kb_inv (fst (keyboard_try_getchar k))" using assms by (rule kb_fifo.pop_inv)
  show "kb_items (fst (keyboard_try_getchar k)) = tl (kb_items k)"
    "snd (keyboard_try_getchar k) = (if kb_items k = [] then NUL else hd (kb_items k))"
    using kb_fifo.pop_empty [OF assms] kb_pop_items [of k] by (cases "kb_items k"; simp)+
qed

theorem keyboard_ring_fifo_witness:
  "kb_items (keyboard_buffer_push CHR ''x'' (keyboard_buffer_reset keyboard_static)) = ''x''"
  using keyboard_ring_fifo [OF kb_boot(1) [OF kb_static], of "CHR ''x''"]
  by (simp add: kb_boot(2) [OF kb_static])

text \<open>
  C9.  Interrupt safety: in every interleaving of keyboard interrupts with the statements of the
  reader, the keys returned so far followed by the keys in the buffer are exactly the keys that the scancodes
  read by the handler decode to, in order and each once, except those that arrived while 255 keys were
  waiting: these, and only these, are lost.
\<close>

theorem keyboard_interleaving_safe:
  assumes "kb_step\<^sup>*\<^sup>* (kb_start k) s" and "length (kb_buffer k) = 256"
  shows "sys_delivered s @ kb_items (sys_kb s) =
      map fst (filter (\<lambda>(c, waiting). waiting < 255) (arrivals (False, False) (sys_scans s))) \<and>
    map fst (arrivals (False, False) (sys_scans s)) = decode_all (False, False) (map fst (sys_scans s))"
proof -
  have "sys_inv (kb_start k)" using kb_boot [OF assms(2)] by (simp add: sys_inv_def kb_start_def in_time_def modes_after_def)
  then have "sys_inv s" by (rule sys_inv_run [OF assms(1)])
  then show ?thesis by (simp add: sys_inv_def in_time_def arrivals_keys)
qed

text \<open>A run: a key arrives, the reader tests the buffer, a second key arrives, the reader goes on.\<close>

definition demo_run :: kb_sys where
  "demo_run = \<lparr>sys_kb = \<lparr>kb_shift = 0, kb_extended = 0, kb_head = 2, kb_tail = 1,
     kb_buffer = (replicate 256 NUL)[0 := CHR ''a'', 1 := CHR ''b'']\<rparr>,
     sys_reader = Idle, sys_scans = [(0x1E, 0), (0x30, 1)], sys_delivered = ''a''\<rparr>"

lemma demo_run: "kb_step\<^sup>*\<^sup>* (kb_start keyboard_static) demo_run"
proof -
  let ?s = "\<lambda>h b r a. \<lparr>sys_kb = \<lparr>kb_shift = 0, kb_extended = 0, kb_head = h, kb_tail = 0,
     kb_buffer = b\<rparr>, sys_reader = r, sys_scans = a, sys_delivered = []\<rparr>"
  let ?b1 = "(replicate 256 NUL)[0 := CHR ''a'']" and ?b2 = "(replicate 256 NUL)[0 := CHR ''a'', 1 := CHR ''b'']"
  note evals = keyboard_isr_def isr_reads_def keyboard_handle_scancode_def decode_def kb_modes_def
    keymap_def keyboard_buffer_push_def kb_items_def
  have "kb_step (?s 0 (replicate 256 NUL) Idle []) (?s 1 ?b1 Idle [(0x1E, 0)])"
    using kb_step.irq [of "?s 0 (replicate 256 NUL) Idle []" 1 "0x1E"] by (simp add: evals)
  moreover have "kb_step (?s 1 ?b1 Idle [(0x1E, 0)]) (?s 1 ?b1 Checked [(0x1E, 0)])"
    using kb_step.check [of "?s 1 ?b1 Idle [(0x1E, 0)]"] by simp
  moreover have "kb_step (?s 1 ?b1 Checked [(0x1E, 0)]) (?s 2 ?b2 Checked [(0x1E, 0), (0x30, 1)])"
    using kb_step.irq [of "?s 1 ?b1 Checked [(0x1E, 0)]" 1 "0x30"] by (simp add: evals)
  moreover have "kb_step (?s 2 ?b2 Checked [(0x1E, 0), (0x30, 1)]) (?s 2 ?b2 (Loaded CHR ''a'') [(0x1E, 0), (0x30, 1)])"
    using kb_step.load [of "?s 2 ?b2 Checked [(0x1E, 0), (0x30, 1)]"] by simp
  moreover have "kb_step (?s 2 ?b2 (Loaded CHR ''a'') [(0x1E, 0), (0x30, 1)]) demo_run"
    using kb_step.advance [of "?s 2 ?b2 (Loaded CHR ''a'') [(0x1E, 0), (0x30, 1)]" "CHR ''a''"] by (simp add: demo_run_def)
  ultimately have "kb_step\<^sup>*\<^sup>* (?s 0 (replicate 256 NUL) Idle []) demo_run"
    by (meson converse_rtranclp_into_rtranclp rtranclp.rtrancl_refl)
  then show ?thesis
    by (simp add: kb_start_def keyboard_buffer_reset_def keyboard_static_def)
qed

theorem keyboard_interleaving_safe_witness:
  "sys_delivered demo_run @ kb_items (sys_kb demo_run) = ''ab'' \<and> sys_delivered demo_run = ''a'' \<and>
   decode_all (False, False) (map fst (sys_scans demo_run)) = ''ab''"
proof -
  have a: "arrivals (False, False) (sys_scans demo_run) = [(CHR ''a'', 0), (CHR ''b'', 1)]"
    by (simp add: demo_run_def decode_def keymap_def)
  show ?thesis using keyboard_interleaving_safe [OF demo_run kb_static] unfolding a by (simp add: demo_run_def)
qed

end
