(* ===== verification/Paging.thy ===== *)
theory Paging
  imports Pmm
begin

text \<open>
  The two-level page tables of \<open>paging.c\<close>.  Directories and tables are 1024-word arrays in the byte
  memory; the kernel reaches them through its identity map, so a table pointer is the physical
  address of the table.  \<open>pg_page_directory\<close> is the link-time address of the static directory.
  \<open>cr3\<close> and \<open>paging_current_dir_phys\<close> are always written together, so one field stands for both; TLB
  invalidation has no counterpart, the model reads the tables on every access.
\<close>

section \<open>State\<close>

record paging =
  pg_page_directory :: u32
  pg_is_enabled :: bool
  pg_kernel_dir_phys :: u32
  pg_current_dir_phys :: u32

record vm =
  vm_pmm :: pmm
  vm_pg :: paging
  vm_mem :: mem

abbreviation (input) PAGING_FLAG_PRESENT :: u32 where "PAGING_FLAG_PRESENT \<equiv> 1"
abbreviation (input) PAGING_FLAG_RW :: u32 where "PAGING_FLAG_RW \<equiv> 2"
abbreviation (input) PAGING_FLAG_USER :: u32 where "PAGING_FLAG_USER \<equiv> 4"

definition pd_index :: "u32 \<Rightarrow> nat" where
  "pd_index virt = unat (drop_bit 22 virt AND 0x3FF)"

definition pt_index :: "u32 \<Rightarrow> nat" where
  "pt_index virt = unat (drop_bit 12 virt AND 0x3FF)"

definition entry_get :: "mem \<Rightarrow> u32 \<Rightarrow> nat \<Rightarrow> u32" where
  "entry_get m t i = load32 m (entry_addr t i)"

definition entry_set :: "mem \<Rightarrow> u32 \<Rightarrow> nat \<Rightarrow> u32 \<Rightarrow> mem" where
  "entry_set m t i v = store32 m (entry_addr t i) v"

text \<open>\<open>for (i = 0; i < 1024; i++) table[i] = f(i);\<close>\<close>

definition table_fill :: "u32 \<Rightarrow> (nat \<Rightarrow> u32) \<Rightarrow> mem \<Rightarrow> mem" where
  "table_fill t f m = fold (\<lambda>i m. entry_set m t i (f i)) [0..<1024] m"

abbreviation table_of :: "u32 \<Rightarrow> u32" where
  "table_of e \<equiv> e AND 0xFFFFF000"

section \<open>Operations\<close>

definition paging_active_directory :: "vm \<Rightarrow> u32" where
  "paging_active_directory s =
     (if pg_current_dir_phys (vm_pg s) = 0 then pg_page_directory (vm_pg s)
      else pg_current_dir_phys (vm_pg s))"

definition paging_alloc_table :: "vm \<Rightarrow> u32 option \<times> vm" where
  "paging_alloc_table s =
     (let (frame, p) = pmm_alloc_frame (vm_pmm s) in
      if frame = 0 then (None, s\<lparr>vm_pmm := p\<rparr>)
      else (Some frame, s\<lparr>vm_pmm := p, vm_mem := table_fill frame (\<lambda>_. 0) (vm_mem s)\<rparr>))"

definition identity_entry :: "u32 \<Rightarrow> u32 \<Rightarrow> nat \<Rightarrow> u32" where
  "identity_entry identity_end pd e =
     (let phys = push_bit 22 pd OR push_bit 12 (of_nat e) in
      if phys < identity_end then phys OR PAGING_FLAG_PRESENT OR PAGING_FLAG_RW else 0)"

text \<open>The loop over the directory slots; False is the early return when no frame is left.\<close>

fun paging_init_loop :: "u32 \<Rightarrow> nat list \<Rightarrow> vm \<Rightarrow> bool \<times> vm" where
  "paging_init_loop identity_end [] s = (True, s)"
| "paging_init_loop identity_end (pd # pds) s =
     (case paging_alloc_table s of
        (None, s1) \<Rightarrow> (False, s1)
      | (Some table, s1) \<Rightarrow>
          let m1 = table_fill table (identity_entry identity_end (of_nat pd)) (vm_mem s1);
              m2 = entry_set m1 (pg_page_directory (vm_pg s1)) pd
                     (table OR PAGING_FLAG_PRESENT OR PAGING_FLAG_RW)
          in paging_init_loop identity_end pds (s1\<lparr>vm_mem := m2\<rparr>))"

definition identity_limit :: "u32 \<Rightarrow> u32" where
  "identity_limit highest =
     (let identity_end = align_up_4k highest in
      if identity_end < 4 * 1024 * 1024 then 4 * 1024 * 1024 else identity_end)"

definition paging_init :: "vm \<Rightarrow> vm" where
  "paging_init s0 =
     (let s = s0\<lparr>vm_mem := table_fill (pg_page_directory (vm_pg s0)) (\<lambda>_. 0) (vm_mem s0)\<rparr> in
      if \<not> pmm_ready (vm_pmm s) then s\<lparr>vm_pg := (vm_pg s)\<lparr>pg_is_enabled := False\<rparr>\<rparr>
      else
        let identity_end0 = identity_limit (pmm_highest_address (vm_pmm s));
            pd_count0 = drop_bit 22 (identity_end0 + 0x3FFFFF);
            (pd_count, identity_end) =
              (if pd_count0 > 1024 then (1024, 0xFFFFFFFF) else (pd_count0, identity_end0));
            (ok, s1) = paging_init_loop identity_end [0..<unat pd_count] s
        in if \<not> ok then s1\<lparr>vm_pg := (vm_pg s1)\<lparr>pg_is_enabled := False\<rparr>\<rparr>
           else s1\<lparr>vm_pg := (vm_pg s1)\<lparr>pg_kernel_dir_phys := pg_page_directory (vm_pg s1),
                  pg_current_dir_phys := pg_page_directory (vm_pg s1), pg_is_enabled := True\<rparr>\<rparr>)"

definition paging_enabled :: "vm \<Rightarrow> bool" where
  "paging_enabled s = pg_is_enabled (vm_pg s)"

text \<open>The part of \<open>paging_map_page\<close> that makes the directory slot point to a table.\<close>

definition paging_ensure_table :: "u32 \<Rightarrow> nat \<Rightarrow> u32 \<Rightarrow> vm \<Rightarrow> bool \<times> vm" where
  "paging_ensure_table directory pd flags s =
     (if entry_get (vm_mem s) directory pd AND PAGING_FLAG_PRESENT = 0 then
        (case paging_alloc_table s of
           (None, s') \<Rightarrow> (False, s')
         | (Some table, s') \<Rightarrow>
             let pde_flags = (if flags AND PAGING_FLAG_USER \<noteq> 0
                   then PAGING_FLAG_PRESENT OR PAGING_FLAG_RW OR PAGING_FLAG_USER
                   else PAGING_FLAG_PRESENT OR PAGING_FLAG_RW)
             in (True, s'\<lparr>vm_mem := entry_set (vm_mem s') directory pd (table OR pde_flags)\<rparr>))
      else if flags AND PAGING_FLAG_USER \<noteq> 0 then
        (True, s\<lparr>vm_mem := entry_set (vm_mem s) directory pd
                   (entry_get (vm_mem s) directory pd OR PAGING_FLAG_USER)\<rparr>)
      else (True, s))"

definition paging_map_page :: "u32 \<Rightarrow> u32 \<Rightarrow> u32 \<Rightarrow> vm \<Rightarrow> bool \<times> vm" where
  "paging_map_page virt phys flags0 s =
     (let pd = pd_index virt; pt = pt_index virt in
      if \<not> pg_is_enabled (vm_pg s) then (False, s)
      else if virt AND 0xFFF \<noteq> 0 \<or> phys AND 0xFFF \<noteq> 0 then (False, s)
      else
        let flags = (if flags0 AND PAGING_FLAG_PRESENT = 0 then flags0 OR PAGING_FLAG_PRESENT else flags0);
            directory = paging_active_directory s;
            (have_table, s1) = paging_ensure_table directory pd flags s
        in if \<not> have_table then (False, s1)
           else let table = table_of (entry_get (vm_mem s1) directory pd) in
             if entry_get (vm_mem s1) table pt AND PAGING_FLAG_PRESENT \<noteq> 0 then (False, s1)
             else (True, s1\<lparr>vm_mem := entry_set (vm_mem s1) table pt
                       ((phys AND 0xFFFFF000) OR (flags AND 0xFFF))\<rparr>))"

definition paging_unmap_page :: "u32 \<Rightarrow> vm \<Rightarrow> bool \<times> vm" where
  "paging_unmap_page virt s =
     (let pd = pd_index virt; pt = pt_index virt; directory = paging_active_directory s in
      if \<not> pg_is_enabled (vm_pg s) then (False, s)
      else if virt AND 0xFFF \<noteq> 0 then (False, s)
      else if entry_get (vm_mem s) directory pd AND PAGING_FLAG_PRESENT = 0 then (False, s)
      else let table = table_of (entry_get (vm_mem s) directory pd) in
        if entry_get (vm_mem s) table pt AND PAGING_FLAG_PRESENT = 0 then (False, s)
        else (True, s\<lparr>vm_mem := entry_set (vm_mem s) table pt 0\<rparr>))"

text \<open>\<open>phys_out\<close> is non-null at every call site; None is the return value 0.\<close>

definition paging_translate :: "u32 \<Rightarrow> vm \<Rightarrow> u32 option" where
  "paging_translate virt s =
     (let pd = pd_index virt; pt = pt_index virt; directory = paging_active_directory s in
      if \<not> pg_is_enabled (vm_pg s) then None
      else if entry_get (vm_mem s) directory pd AND PAGING_FLAG_PRESENT = 0 then None
      else let table = table_of (entry_get (vm_mem s) directory pd);
               pte = entry_get (vm_mem s) table pt in
        if pte AND PAGING_FLAG_PRESENT = 0 then None
        else Some ((pte AND 0xFFFFF000) OR (virt AND 0xFFF)))"

definition user_flags_set :: "u32 \<Rightarrow> bool" where
  "user_flags_set e \<longleftrightarrow>
     e AND (PAGING_FLAG_PRESENT OR PAGING_FLAG_USER) = (PAGING_FLAG_PRESENT OR PAGING_FLAG_USER)"

text \<open>
  \<open>while (1) { if (!P(page)) return 0; if (page >= (last & 0xFFFFF000)) break; page += 0x1000; } return 1;\<close>,
  the loop of the checks of address ranges.  The cursor cannot wrap because it stops at the page of \<open>last\<close>.
\<close>

function pages_loop :: "(u32 \<Rightarrow> bool) \<Rightarrow> u32 \<Rightarrow> u32 \<Rightarrow> bool" where
  "pages_loop P page last_addr =
     (if \<not> P page then False
      else if page \<ge> (last_addr AND 0xFFFFF000) then True
      else pages_loop P (page + 0x1000) last_addr)"
  by pat_completeness auto
termination
proof (relation "measure (\<lambda>(P, page, last_addr). unat (last_addr AND 0xFFFFF000) - unat page)")
  fix P and page last_addr :: u32
  assume "\<not> page \<ge> (last_addr AND 0xFFFFF000)"
  then have lt: "unat page < unat (last_addr AND 0xFFFFF000)" by (simp add: word_le_nat_alt)
  have "unat (last_addr AND 0xFFFFF000) = unat last_addr div 4096 * 4096"
    using unat_page_base [of last_addr] by (simp add: page_mask_minus)
  then have "unat (last_addr AND 0xFFFFF000) \<le> 4294963200" using unat_u32_less [of last_addr] by simp
  with lt have "unat (page + 0x1000) = unat page + 4096" by (simp add: unat_word_ariths)
  with lt show "((P, page + 0x1000, last_addr), (P, page, last_addr))
      \<in> measure (\<lambda>(P, page, last_addr). unat (last_addr AND 0xFFFFF000) - unat page)" by simp
qed simp

declare pages_loop.simps [simp del]

definition user_pages_loop :: "mem \<Rightarrow> u32 \<Rightarrow> u32 \<Rightarrow> u32 \<Rightarrow> bool" where
  "user_pages_loop m directory =
     pages_loop (\<lambda>page. let pde = entry_get m directory (pd_index page) in
       if \<not> user_flags_set pde then False else user_flags_set (entry_get m (table_of pde) (pt_index page)))"

definition paging_user_accessible :: "u32 \<Rightarrow> u32 \<Rightarrow> vm \<Rightarrow> bool" where
  "paging_user_accessible virt sz s =
     (if \<not> pg_is_enabled (vm_pg s) \<or> sz = 0 then False
      else if virt > 0xFFFFFFFF - (sz - 1) then False
      else user_pages_loop (vm_mem s) (paging_active_directory s) (virt AND 0xFFFFF000) (virt + sz - 1))"

definition paging_kernel_directory_phys :: "vm \<Rightarrow> u32" where
  "paging_kernel_directory_phys s = pg_kernel_dir_phys (vm_pg s)"

definition paging_current_directory_phys :: "vm \<Rightarrow> u32" where
  "paging_current_directory_phys s =
     (if \<not> pg_is_enabled (vm_pg s) then 0 else pg_current_dir_phys (vm_pg s))"

definition clone_entry :: "u32 \<Rightarrow> u32" where
  "clone_entry pde = (if pde AND PAGING_FLAG_USER \<noteq> 0 then 0 else pde)"

definition paging_clone_kernel_directory :: "vm \<Rightarrow> u32 option \<times> vm" where
  "paging_clone_kernel_directory s =
     (if \<not> pg_is_enabled (vm_pg s) then (None, s)
      else let (frame, p) = pmm_alloc_frame (vm_pmm s) in
        if frame = 0 then (None, s\<lparr>vm_pmm := p\<rparr>)
        else (Some frame, s\<lparr>vm_pmm := p, vm_mem :=
               fold (\<lambda>i m. entry_set m frame i (clone_entry (entry_get m (pg_kernel_dir_phys (vm_pg s)) i)))
                 [0..<1024] (vm_mem s)\<rparr>))"

definition paging_switch_directory :: "u32 \<Rightarrow> vm \<Rightarrow> vm" where
  "paging_switch_directory directory_phys s =
     (if \<not> pg_is_enabled (vm_pg s) \<or> directory_phys = 0 then s
      else if directory_phys AND 0xFFF \<noteq> 0 then s
      else s\<lparr>vm_pg := (vm_pg s)\<lparr>pg_current_dir_phys := directory_phys\<rparr>\<rparr>)"

section \<open>Indices, entries and flag bits\<close>

lemma pd_index_eq: "pd_index v = unat v div 4194304"
proof -
  have "unat (drop_bit 22 v) = unat v div 4194304" by (simp add: drop_bit_eq_div unat_div)
  moreover have "unat v div 4194304 < 1024" using unat_u32_less [of v] by simp
  ultimately show ?thesis
    using unat_and_mask [of "drop_bit 22 v" 10] by (simp add: pd_index_def mask10_u32)
qed

lemma pt_index_eq: "pt_index v = unat v div 4096 mod 1024"
proof -
  have "unat (drop_bit 12 v) = unat v div 4096" by (simp add: drop_bit_eq_div unat_div)
  then show ?thesis
    using unat_and_mask [of "drop_bit 12 v" 10] by (simp add: pt_index_def mask10_u32)
qed

lemma pd_index_less [simp]: "pd_index v < 1024" and pt_index_less [simp]: "pt_index v < 1024"
  using unat_u32_less [of v] by (simp_all add: pd_index_eq pt_index_eq)

lemma page_of_indices: "page_of v = pd_index v * 1024 + pt_index v"
proof -
  have "unat v div 4194304 = unat v div 4096 div 1024" by (simp add: div_mult2_eq [symmetric])
  then show ?thesis by (simp add: page_of_def pd_index_eq pt_index_eq)
qed

lemma same_page_iff: "pd_index v = pd_index w \<and> pt_index v = pt_index w \<longleftrightarrow> page_of v = page_of w"
proof
  assume "page_of v = page_of w"
  then have eq: "pd_index v * 1024 + pt_index v = pd_index w * 1024 + pt_index w"
    by (simp add: page_of_indices)
  have "(pd_index v * 1024 + pt_index v) div 1024 = pd_index v"
    "(pd_index w * 1024 + pt_index w) div 1024 = pd_index w" by simp_all
  with eq have "pd_index v = pd_index w" by metis
  with eq show "pd_index v = pd_index w \<and> pt_index v = pt_index w" by simp
qed (simp add: page_of_indices)

lemma entry_get_set:
  "page_addr t \<Longrightarrow> page_addr t' \<Longrightarrow> i < 1024 \<Longrightarrow> j < 1024 \<Longrightarrow>
   entry_get (entry_set m t i v) t' j = (if t = t' \<and> i = j then v else entry_get m t' j)"
  by (simp add: entry_get_def entry_set_def load32_store_entry)

lemma entry_get_fold:
  assumes "page_addr t" "page_addr t'" "j < 1024" "set xs \<subseteq> {..<1024}" "distinct xs"
  shows "entry_get (fold (\<lambda>i m. entry_set m t i (f i)) xs m) t' j =
    (if t = t' \<and> j \<in> set xs then f j else entry_get m t' j)"
  using assms
  by (induction xs arbitrary: m) (auto simp: entry_get_set)

lemma table_of_page: "page_addr (table_of e)"
  using unat_page_base [of e] by (simp add: page_mask_minus page_addr_def)

lemma page_addr_offset: "page_addr t \<longleftrightarrow> t AND 0xFFF = 0"
  by (simp add: page_addr_def page_offset_eq_0)

lemma page_addr_and_low:
  assumes "page_addr t" and "k AND 0xFFF = (k :: u32)"
  shows "t AND k = 0"
proof -
  have "t AND k = (t AND 0xFFF) AND k" using assms(2) by (metis and.assoc and.commute)
  then show ?thesis using assms(1) by (simp add: page_addr_offset)
qed

lemma page_addr_and_high: "page_addr t \<Longrightarrow> t AND 0xFFFFF000 = t"
  using unat_page_base [of t] by (subst unat_inj_u32 [symmetric]) (auto simp: page_mask_minus page_addr_def)

lemma low_and_high: "k AND 0xFFF = (k :: u32) \<Longrightarrow> k AND 0xFFFFF000 = 0"
proof -
  assume "k AND 0xFFF = k"
  then have "k AND 0xFFFFF000 = k AND (0xFFF AND 0xFFFFF000)" by (metis and.assoc)
  then show ?thesis by simp
qed

lemma table_of_or:
  assumes "page_addr t" and "k AND 0xFFF = (k :: u32)"
  shows "table_of (t OR k) = t"
  using assms by (simp add: bit.conj_disj_distrib2 page_addr_and_high low_and_high)

lemma flag_of_or:
  assumes "page_addr t" and "b AND 0xFFF = (b :: u32)"
  shows "(t OR k) AND b = k AND b"
  using assms by (simp add: bit.conj_disj_distrib2 page_addr_and_low)

lemma entry_get_fill:
  "page_addr t \<Longrightarrow> page_addr t' \<Longrightarrow> j < 1024 \<Longrightarrow>
   entry_get (table_fill t f m) t' j = (if t = t' then f j else entry_get m t' j)"
  unfolding table_fill_def by (subst entry_get_fold) auto

lemma low_consts: "(1 :: u32) AND 0xFFF = 1" "(4 :: u32) AND 0xFFF = 4" "(3 :: u32) AND 0xFFF = 3"
    "(7 :: u32) AND 0xFFF = 7" "((k :: u32) AND 0xFFF) AND 0xFFF = k AND 0xFFF"
  by (simp_all add: and.assoc)

section \<open>Well-formed page tables\<close>

abbreviation pres :: "u32 \<Rightarrow> bool" where
  "pres e \<equiv> e AND 1 \<noteq> 0"

text \<open>The present leaf entry that a directory holds for an address.\<close>

definition pte_at :: "mem \<Rightarrow> u32 \<Rightarrow> u32 \<Rightarrow> u32 option" where
  "pte_at m d v =
     (let e = entry_get m d (pd_index v); p = entry_get m (table_of e) (pt_index v)
      in if pres e \<and> pres p then Some p else None)"

text \<open>
  \<open>D\<close> are the live directories and \<open>A\<close> the frames the allocator may still hand out.  No directory
  and no table is in \<open>A\<close>, no table is a directory, and a table is never used at two different
  directory indices (directories may share a table, at the same index).
\<close>

definition pt_wf :: "u32 set \<Rightarrow> u32 set \<Rightarrow> mem \<Rightarrow> bool" where
  "pt_wf D A m \<longleftrightarrow>
     (\<forall>d \<in> D. page_addr d \<and> d \<notin> A) \<and>
     (\<forall>d \<in> D. \<forall>i < 1024. pres (entry_get m d i) \<longrightarrow> table_of (entry_get m d i) \<notin> D \<union> A) \<and>
     (\<forall>d \<in> D. \<forall>d' \<in> D. \<forall>i < 1024. \<forall>j < 1024. pres (entry_get m d i) \<longrightarrow> pres (entry_get m d' j) \<longrightarrow>
        table_of (entry_get m d i) = table_of (entry_get m d' j) \<longrightarrow> i = j)"

definition vm_ok :: "u32 set \<Rightarrow> vm \<Rightarrow> bool" where
  "vm_ok D s \<longleftrightarrow> pmm_ok (vm_pmm s) \<and> pt_wf D (avail_frames (vm_pmm s)) (vm_mem s) \<and>
     (pg_is_enabled (vm_pg s) \<longrightarrow> paging_active_directory s \<in> D \<and> pg_kernel_dir_phys (vm_pg s) \<in> D)"

lemma pt_wfD:
  assumes "pt_wf D A m" and "d \<in> D"
  shows "page_addr d" and "d \<notin> A"
    and "i < 1024 \<Longrightarrow> pres (entry_get m d i) \<Longrightarrow> table_of (entry_get m d i) \<notin> D"
    and "i < 1024 \<Longrightarrow> pres (entry_get m d i) \<Longrightarrow> table_of (entry_get m d i) \<notin> A"
  using assms by (auto simp: pt_wf_def)

lemma pt_wf_share:
  assumes "pt_wf D A m" "d \<in> D" "d' \<in> D" "i < 1024" "j < 1024"
    and "pres (entry_get m d i)" "pres (entry_get m d' j)"
    and "table_of (entry_get m d i) = table_of (entry_get m d' j)"
  shows "i = j"
  using assms unfolding pt_wf_def by blast

lemma pt_wf_cong:
  assumes "pt_wf D A m" and "\<And>d i. d \<in> D \<Longrightarrow> i < 1024 \<Longrightarrow> entry_get m' d i = entry_get m d i"
  shows "pt_wf D A m'"
  using assms unfolding pt_wf_def by simp

lemma pt_wf_avail: "pt_wf D A m \<Longrightarrow> A' \<subseteq> A \<Longrightarrow> pt_wf D A' m"
  unfolding pt_wf_def by blast

text \<open>Writing a leaf entry.\<close>

lemma leaf_write:
  fixes p :: u32
  assumes wf: "pt_wf D A m" and d: "d \<in> D" and i: "i < 1024" "pres (entry_get m d i)" and j: "j < 1024"
  defines "t \<equiv> table_of (entry_get m d i)"
  defines "m' \<equiv> entry_set m t j p"
  shows "pt_wf D A m'"
    and "d' \<in> D \<Longrightarrow> k < 1024 \<Longrightarrow> entry_get m' d' k = entry_get m d' k"
    and "d' \<in> D \<Longrightarrow> pte_at m' d' v =
      (if pres (entry_get m d' (pd_index v)) \<and> table_of (entry_get m d' (pd_index v)) = t \<and> pt_index v = j
       then (if pres p then Some p else None) else pte_at m d' v)"
    and "d' \<in> D \<Longrightarrow> pres (entry_get m d' (pd_index v)) \<Longrightarrow>
      table_of (entry_get m d' (pd_index v)) = t \<Longrightarrow> pd_index v = i"
proof -
  have t: "page_addr t" "t \<notin> D" using pt_wfD(3) [OF wf d i] by (auto simp: t_def table_of_page)
  show dirs: "entry_get m' d' k = entry_get m d' k" if "d' \<in> D" "k < 1024" for d' k
    using t pt_wfD(1) [OF wf that(1)] that j by (auto simp: m'_def entry_get_set)
  then show "pt_wf D A m'" by (rule pt_wf_cong [OF wf])
  show "pte_at m' d' v =
      (if pres (entry_get m d' (pd_index v)) \<and> table_of (entry_get m d' (pd_index v)) = t \<and> pt_index v = j
       then (if pres p then Some p else None) else pte_at m d' v)" if "d' \<in> D"
    using t j by (simp add: pte_at_def dirs [OF that] Let_def) (auto simp: m'_def entry_get_set table_of_page)
  show "pd_index v = i" if "d' \<in> D" "pres (entry_get m d' (pd_index v))"
      "table_of (entry_get m d' (pd_index v)) = t"
    using pt_wf_share [OF wf that(1) d _ i(1) that(2) i(2)] that(3) by (simp add: t_def)
qed

text \<open>Hanging a freshly filled table into an empty directory slot.\<close>

lemma table_install:
  fixes g :: "nat \<Rightarrow> u32"
  assumes wf: "pt_wf D A m" and d: "d \<in> D" and i: "i < 1024" "\<not> pres (entry_get m d i)"
    and f: "f \<in> A" "page_addr f" and k: "k AND 0xFFF = k" "pres k"
  defines "m' \<equiv> entry_set (table_fill f g m) d i (f OR k)"
  shows "pt_wf D (A - {f}) m'"
    and "d' \<in> D \<Longrightarrow> j < 1024 \<Longrightarrow> entry_get m' d' j = (if d' = d \<and> j = i then f OR k else entry_get m d' j)"
    and "d' \<in> D \<Longrightarrow> pte_at m' d' v =
      (if d' = d \<and> pd_index v = i then (if pres (g (pt_index v)) then Some (g (pt_index v)) else None)
       else pte_at m d' v)"
proof -
  have df: "d' \<noteq> f" if "d' \<in> D" for d' using pt_wfD(2) [OF wf that] f by auto
  have fD: "f \<notin> D" using df by auto
  have pk: "pres (f OR k)" using k(2) flag_of_or [OF f(2) low_consts(1)] by simp
  have tf: "table_of (f OR k) = f" by (rule table_of_or [OF f(2) k(1)])
  show dirs: "entry_get m' d' j = (if d' = d \<and> j = i then f OR k else entry_get m d' j)"
    if "d' \<in> D" "j < 1024" for d' j
    using pt_wfD(1) [OF wf that(1)] pt_wfD(1) [OF wf d] that i f df [OF that(1)]
    by (auto simp: m'_def entry_get_set entry_get_fill)
  have old: "table_of (entry_get m d' j) \<noteq> f"
    if "d' \<in> D" "j < 1024" "pres (entry_get m d' j)" for d' j
    using pt_wfD(4) [OF wf that] f by auto
  show "pt_wf D (A - {f}) m'"
    unfolding pt_wf_def
  proof (intro conjI ballI allI impI)
    fix d1 j assume *: "d1 \<in> D" "j < 1024" "pres (entry_get m' d1 j)"
    show "table_of (entry_get m' d1 j) \<notin> D \<union> (A - {f})"
      using * dirs [OF *(1,2)] pt_wfD(3,4) [OF wf *(1,2)] tf fD by (auto split: if_splits)
  next
    fix d1 d2 a b
    assume *: "d1 \<in> D" "d2 \<in> D" "a < 1024" "b < 1024" "pres (entry_get m' d1 a)"
      "pres (entry_get m' d2 b)" "table_of (entry_get m' d1 a) = table_of (entry_get m' d2 b)"
    show "a = b"
    proof (cases "(d1 = d \<and> a = i) \<or> (d2 = d \<and> b = i)")
      case True
      then show ?thesis
        using * dirs [OF *(1,3)] dirs [OF *(2,4)] old [OF *(1,3)] old [OF *(2,4)] tf
        by (auto split: if_splits)
    next
      case False
      then have "entry_get m' d1 a = entry_get m d1 a" "entry_get m' d2 b = entry_get m d2 b"
        using dirs [OF *(1,3)] dirs [OF *(2,4)] by auto
      with * pt_wf_share [OF wf *(1-4)] show ?thesis by simp
    qed
  qed (use pt_wfD [OF wf] in auto)
  show "pte_at m' d' v =
      (if d' = d \<and> pd_index v = i then (if pres (g (pt_index v)) then Some (g (pt_index v)) else None)
       else pte_at m d' v)" if d': "d' \<in> D"
  proof (cases "d' = d \<and> pd_index v = i")
    case True
    have "entry_get m' f (pt_index v) = g (pt_index v)"
      using pt_wfD(1) [OF wf d] i f df [OF d] by (simp add: m'_def entry_get_set entry_get_fill)
    with True i dirs [OF d', of "pd_index v"] show ?thesis using pk by (simp add: pte_at_def [of m'] Let_def tf)
  next
    case False
    have same: "entry_get m' d' (pd_index v) = entry_get m d' (pd_index v)"
      using False dirs [OF d', of "pd_index v"] by auto
    have "entry_get m' (table_of (entry_get m d' (pd_index v))) (pt_index v) =
        entry_get m (table_of (entry_get m d' (pd_index v))) (pt_index v)"
      if "pres (entry_get m d' (pd_index v))"
      using pt_wfD(1) [OF wf d] pt_wfD(3) [OF wf d' _ that] old [OF d' _ that] i f d
      by (auto simp: m'_def entry_get_set entry_get_fill table_of_page)
    with False show ?thesis by (auto simp: pte_at_def Let_def same)
  qed
qed

text \<open>Setting the user bit of a directory entry.\<close>

lemma user_mark:
  assumes wf: "pt_wf D A m" and d: "d \<in> D" and i: "i < 1024" "pres (entry_get m d i)"
  defines "m' \<equiv> entry_set m d i (entry_get m d i OR 4)"
  shows "pt_wf D A m'"
    and "d' \<in> D \<Longrightarrow> j < 1024 \<Longrightarrow>
      entry_get m' d' j = (if d' = d \<and> j = i then entry_get m d i OR 4 else entry_get m d' j)"
    and "d' \<in> D \<Longrightarrow> pte_at m' d' v = pte_at m d' v"
proof -
  have tab: "table_of (e OR 4) = table_of e" and one: "(e OR 4) AND 1 = e AND 1" for e :: u32
    by (simp_all add: bit.conj_disj_distrib2)
  show dirs: "entry_get m' d' j = (if d' = d \<and> j = i then entry_get m d i OR 4 else entry_get m d' j)"
    if "d' \<in> D" "j < 1024" for d' j
    using pt_wfD(1) [OF wf that(1)] pt_wfD(1) [OF wf d] that i by (auto simp: m'_def entry_get_set)
  then have same: "pres (entry_get m' d' j) = pres (entry_get m d' j)"
      "table_of (entry_get m' d' j) = table_of (entry_get m d' j)" if "d' \<in> D" "j < 1024" for d' j
    using that by (auto simp: tab one)
  show "pt_wf D A m'" using wf unfolding pt_wf_def by (simp add: same)
  have leaf: "entry_get m' (table_of (entry_get m d' j)) k = entry_get m (table_of (entry_get m d' j)) k"
    if "d' \<in> D" "j < 1024" "pres (entry_get m d' j)" "k < 1024" for d' j k
    using pt_wfD(3) [OF wf that(1-3)] pt_wfD(1) [OF wf d] d i that
    by (auto simp: m'_def entry_get_set table_of_page)
  show "pte_at m' d' v = pte_at m d' v" if "d' \<in> D"
    using same [OF that, of "pd_index v"] leaf [OF that, of "pd_index v" "pt_index v"]
    by (auto simp: pte_at_def Let_def)
qed

lemma paging_alloc_table_cases:
  assumes "pmm_ok (vm_pmm s)"
  obtains (full) "avail_frames (vm_pmm s) = {}" "paging_alloc_table s = (None, s)"
  | (table) f p where "f \<in> avail_frames (vm_pmm s)" "page_addr f" "f \<noteq> 0" "pmm_ok p"
      "avail_frames p = avail_frames (vm_pmm s) - {f}" "pool_frames p = pool_frames (vm_pmm s)"
      "paging_alloc_table s = (Some f, s\<lparr>vm_pmm := p, vm_mem := table_fill f (\<lambda>_. 0) (vm_mem s)\<rparr>)"
proof (cases "avail_frames (vm_pmm s) = {}")
  case True
  then have "paging_alloc_table s = (None, s)"
    using pmm_frames.alloc_empty [OF assms True] by (simp add: paging_alloc_table_def)
  with True show thesis by (rule full)
next
  case False
  obtain f p where fp: "pmm_alloc_frame (vm_pmm s) = (f, p)" by fastforce
  have f0: "f \<noteq> 0" using False pmm_frames.alloc_zero_iff [OF assms fp] by simp
  note fresh = pmm_frames.alloc_fresh [OF assms fp f0]
  show thesis
    using table [OF fresh(5,3) f0 _ fresh(4)] pmm_frames.alloc_inv [OF assms fp] fp f0
    by (simp add: paging_alloc_table_def)
qed

lemma ensure_table:
  assumes ok: "vm_ok D s" and d: "d \<in> D" and pd: "pd < 1024"
    and eq: "paging_ensure_table d pd flags s = (have_table, s1)"
  shows "vm_pg s1 = vm_pg s" and "pmm_ok (vm_pmm s1)"
    and "pt_wf D (avail_frames (vm_pmm s1)) (vm_mem s1)"
    and "avail_frames (vm_pmm s1) \<subseteq> avail_frames (vm_pmm s)"
    and "pool_frames (vm_pmm s1) = pool_frames (vm_pmm s)"
    and "have_table \<longleftrightarrow> pres (entry_get (vm_mem s) d pd) \<or> avail_frames (vm_pmm s) \<noteq> {}"
    and "\<not> have_table \<Longrightarrow> s1 = s"
    and "have_table \<Longrightarrow> pres (entry_get (vm_mem s1) d pd)"
    and "have_table \<Longrightarrow> entry_get (vm_mem s1) d pd AND 4 \<noteq> 0 \<longleftrightarrow> flags AND 4 \<noteq> 0 \<or>
      pres (entry_get (vm_mem s) d pd) \<and> entry_get (vm_mem s) d pd AND 4 \<noteq> 0"
    and "d' \<in> D \<Longrightarrow> pte_at (vm_mem s1) d' v = pte_at (vm_mem s) d' v"
    and "d' \<in> D \<Longrightarrow> j < 1024 \<Longrightarrow> (d', j) \<noteq> (d, pd) \<Longrightarrow>
      entry_get (vm_mem s1) d' j = entry_get (vm_mem s) d' j"
    and "pres (entry_get (vm_mem s) d pd) \<Longrightarrow>
      table_of (entry_get (vm_mem s1) d pd) = table_of (entry_get (vm_mem s) d pd)"
    and "have_table \<Longrightarrow> \<not> pres (entry_get (vm_mem s) d pd) \<Longrightarrow> d' \<in> D \<Longrightarrow> j < 1024 \<Longrightarrow>
      pres (entry_get (vm_mem s) d' j) \<Longrightarrow>
      table_of (entry_get (vm_mem s1) d pd) \<noteq> table_of (entry_get (vm_mem s) d' j)"
proof -
  let ?m = "vm_mem s" and ?A = "avail_frames (vm_pmm s)"
  let ?goal = "vm_pg s1 = vm_pg s \<and> pmm_ok (vm_pmm s1) \<and>
     pt_wf D (avail_frames (vm_pmm s1)) (vm_mem s1) \<and> avail_frames (vm_pmm s1) \<subseteq> ?A \<and>
     pool_frames (vm_pmm s1) = pool_frames (vm_pmm s) \<and>
     (have_table \<longleftrightarrow> pres (entry_get ?m d pd) \<or> ?A \<noteq> {}) \<and> (\<not> have_table \<longrightarrow> s1 = s) \<and>
     (have_table \<longrightarrow> pres (entry_get (vm_mem s1) d pd)) \<and>
     (have_table \<longrightarrow> (entry_get (vm_mem s1) d pd AND 4 \<noteq> 0 \<longleftrightarrow> flags AND 4 \<noteq> 0 \<or>
        pres (entry_get ?m d pd) \<and> entry_get ?m d pd AND 4 \<noteq> 0)) \<and>
     (\<forall>d' \<in> D. \<forall>v. pte_at (vm_mem s1) d' v = pte_at ?m d' v) \<and>
     (\<forall>d' \<in> D. \<forall>j < 1024. (d', j) \<noteq> (d, pd) \<longrightarrow> entry_get (vm_mem s1) d' j = entry_get ?m d' j) \<and>
     (pres (entry_get ?m d pd) \<longrightarrow> table_of (entry_get (vm_mem s1) d pd) = table_of (entry_get ?m d pd)) \<and>
     (have_table \<longrightarrow> \<not> pres (entry_get ?m d pd) \<longrightarrow> (\<forall>d' \<in> D. \<forall>j < 1024. pres (entry_get ?m d' j) \<longrightarrow>
        table_of (entry_get (vm_mem s1) d pd) \<noteq> table_of (entry_get ?m d' j)))"
  have wf: "pt_wf D ?A ?m" and p: "pmm_ok (vm_pmm s)" using ok by (auto simp: vm_ok_def)
  have ?goal
  proof (cases "pres (entry_get ?m d pd)")
    case True
    note um = user_mark [OF wf d pd True]
    have bits: "(e OR 4) AND 4 = (4 :: u32)" "(e OR 4) AND 1 = e AND 1" "table_of (e OR 4) = table_of e"
      for e :: u32 by (simp_all add: bit.conj_disj_distrib2)
    show ?thesis
    proof (cases "flags AND 4 = 0")
      case nu: True
      with eq True show ?thesis using wf p by (auto simp: paging_ensure_table_def)
    next
      case u: False
      then have "have_table" "s1 = s\<lparr>vm_mem := entry_set ?m d pd (entry_get ?m d pd OR 4)\<rparr>"
        using eq True by (auto simp: paging_ensure_table_def)
      with True u um p d pd show ?thesis by (simp add: bits)
    qed
  next
    case np: False
    from p show ?thesis
    proof (cases rule: paging_alloc_table_cases)
      case full
      with eq np wf p show ?thesis by (simp add: paging_ensure_table_def)
    next
      case (table f q)
      define k where "k = (if flags AND 4 \<noteq> 0 then 7 else 3 :: u32)"
      have k: "k AND 0xFFF = k" "pres k" "k AND 4 \<noteq> 0 \<longleftrightarrow> flags AND 4 \<noteq> 0" by (simp_all add: k_def)
      have s1: "have_table" "s1 = s\<lparr>vm_pmm := q,
          vm_mem := entry_set (table_fill f (\<lambda>_. 0) ?m) d pd (f OR k)\<rparr>"
        using eq np table by (auto simp: paging_ensure_table_def k_def Let_def)
      note ti = table_install [OF wf d pd np table(1,2) k(1,2), where g = "\<lambda>_. 0"]
      have np': "pte_at ?m d v = None" if "pd_index v = pd" for v
        using np that by (simp add: pte_at_def Let_def)
      have fk: "(f OR k) AND 1 = k AND 1" "(f OR k) AND 4 = k AND 4"
        using flag_of_or [OF table(2)] low_consts by blast+
      have new: "table_of (f OR k) = f" by (rule table_of_or [OF table(2) k(1)])
      have "\<forall>d' \<in> D. \<forall>j < 1024. pres (entry_get ?m d' j) \<longrightarrow> table_of (entry_get ?m d' j) \<noteq> f"
        using wf table(1) unfolding pt_wf_def by blast
      then show ?thesis
        using s1 table ti d pd np k by (auto simp: fk new np')
    qed
  qed
  then show "vm_pg s1 = vm_pg s" and "pmm_ok (vm_pmm s1)"
    and "pt_wf D (avail_frames (vm_pmm s1)) (vm_mem s1)"
    and "avail_frames (vm_pmm s1) \<subseteq> avail_frames (vm_pmm s)"
    and "pool_frames (vm_pmm s1) = pool_frames (vm_pmm s)"
    and "have_table \<longleftrightarrow> pres (entry_get (vm_mem s) d pd) \<or> avail_frames (vm_pmm s) \<noteq> {}"
    and "\<not> have_table \<Longrightarrow> s1 = s"
    and "have_table \<Longrightarrow> pres (entry_get (vm_mem s1) d pd)"
    and "have_table \<Longrightarrow> entry_get (vm_mem s1) d pd AND 4 \<noteq> 0 \<longleftrightarrow> flags AND 4 \<noteq> 0 \<or>
      pres (entry_get (vm_mem s) d pd) \<and> entry_get (vm_mem s) d pd AND 4 \<noteq> 0"
    and "d' \<in> D \<Longrightarrow> pte_at (vm_mem s1) d' v = pte_at (vm_mem s) d' v"
    and "d' \<in> D \<Longrightarrow> j < 1024 \<Longrightarrow> (d', j) \<noteq> (d, pd) \<Longrightarrow>
      entry_get (vm_mem s1) d' j = entry_get (vm_mem s) d' j"
    and "pres (entry_get (vm_mem s) d pd) \<Longrightarrow>
      table_of (entry_get (vm_mem s1) d pd) = table_of (entry_get (vm_mem s) d pd)"
    and "have_table \<Longrightarrow> \<not> pres (entry_get (vm_mem s) d pd) \<Longrightarrow> d' \<in> D \<Longrightarrow> j < 1024 \<Longrightarrow>
      pres (entry_get (vm_mem s) d' j) \<Longrightarrow>
      table_of (entry_get (vm_mem s1) d pd) \<noteq> table_of (entry_get (vm_mem s) d' j)"
    by simp_all
qed

section \<open>Mapping, unmapping, translating\<close>

text \<open>Two directories use the same table at an index.\<close>

definition shares :: "mem \<Rightarrow> u32 \<Rightarrow> u32 \<Rightarrow> nat \<Rightarrow> bool" where
  "shares m d d' i \<longleftrightarrow> pres (entry_get m d i) \<and> pres (entry_get m d' i) \<and>
     table_of (entry_get m d i) = table_of (entry_get m d' i)"

lemma or_present: "(if flags AND 1 = 0 then flags OR 1 else flags) = (flags OR 1 :: u32)"
proof (cases "flags AND 1 = 0")
  case False
  then have "bit flags 0" by (simp add: bit_0 odd_iff_mod_2_eq_one and_one_eq split: if_splits)
  then have "flags OR 1 = flags" by (intro bit_word_eqI) (auto simp: bit_or_iff bit_1_iff)
  with False show ?thesis by simp
qed simp

lemma active_dir_cong: "vm_pg s' = vm_pg s \<Longrightarrow> paging_active_directory s' = paging_active_directory s"
  by (simp add: paging_active_directory_def)

lemma map_page:
  assumes ok: "vm_ok D s" and eq: "paging_map_page virt phys flags s = (r, s')"
  defines "d \<equiv> paging_active_directory s" and "m \<equiv> vm_mem s" and "m' \<equiv> vm_mem s'"
  shows "vm_ok D s'" and "vm_pg s' = vm_pg s" and "pool_frames (vm_pmm s') = pool_frames (vm_pmm s)"
    and "avail_frames (vm_pmm s') \<subseteq> avail_frames (vm_pmm s)"
    and "r \<longleftrightarrow> pg_is_enabled (vm_pg s) \<and> virt AND 0xFFF = 0 \<and> phys AND 0xFFF = 0 \<and>
      pte_at m d virt = None \<and> (pres (entry_get m d (pd_index virt)) \<or> avail_frames (vm_pmm s) \<noteq> {})"
    and "d' \<in> D \<Longrightarrow> pte_at m' d' v =
      (if r \<and> page_of v = page_of virt \<and> (d' = d \<or> shares m d d' (pd_index virt))
       then Some (phys OR ((flags OR 1) AND 0xFFF)) else pte_at m d' v)"
    and "d' \<in> D \<Longrightarrow> j < 1024 \<Longrightarrow> (d', j) \<noteq> (d, pd_index virt) \<Longrightarrow> entry_get m' d' j = entry_get m d' j"
    and "d \<in> D \<Longrightarrow> flags AND 4 = 0 \<Longrightarrow> entry_get m' d (pd_index virt) AND 4 \<noteq> 0 \<Longrightarrow>
      entry_get m d (pd_index virt) AND 4 \<noteq> 0"
proof -
  let ?pd = "pd_index virt" and ?pt = "pt_index virt"
  let ?new = "phys OR ((flags OR 1) AND 0xFFF)"
  let ?goal = "vm_ok D s' \<and> vm_pg s' = vm_pg s \<and> pool_frames (vm_pmm s') = pool_frames (vm_pmm s) \<and>
    avail_frames (vm_pmm s') \<subseteq> avail_frames (vm_pmm s) \<and>
    (r \<longleftrightarrow> pg_is_enabled (vm_pg s) \<and> virt AND 0xFFF = 0 \<and> phys AND 0xFFF = 0 \<and>
      pte_at m d virt = None \<and> (pres (entry_get m d ?pd) \<or> avail_frames (vm_pmm s) \<noteq> {})) \<and>
    (\<forall>d' \<in> D. \<forall>v. pte_at m' d' v =
      (if r \<and> page_of v = page_of virt \<and> (d' = d \<or> shares m d d' ?pd) then Some ?new else pte_at m d' v)) \<and>
    (\<forall>d' \<in> D. \<forall>j < 1024. (d', j) \<noteq> (d, ?pd) \<longrightarrow> entry_get m' d' j = entry_get m d' j) \<and>
    (d \<in> D \<longrightarrow> flags AND 4 = 0 \<longrightarrow> entry_get m' d ?pd AND 4 \<noteq> 0 \<longrightarrow> entry_get m d ?pd AND 4 \<noteq> 0)"
  have ?goal
  proof (cases "pg_is_enabled (vm_pg s) \<and> virt AND 0xFFF = 0 \<and> phys AND 0xFFF = 0")
    case False
    then have "paging_map_page virt phys flags s = (False, s)" by (auto simp: paging_map_page_def Let_def)
    with eq have "\<not> r" "s' = s" by auto
    with False ok show ?thesis by (auto simp: m_def m'_def)
  next
    case True
    then have dD: "d \<in> D" using ok by (simp add: vm_ok_def d_def)
    obtain h s1 where ens: "paging_ensure_table d ?pd (flags OR 1) s = (h, s1)" by fastforce
    note e = ensure_table [OF ok dD pd_index_less ens, folded m_def]
    let ?t = "table_of (entry_get (vm_mem s1) d ?pd)"
    have fl: "(flags OR 1) AND 4 = flags AND 4" by (simp add: bit.conj_disj_distrib2)
    have ok1: "vm_ok D s1"
      using ok e(1-4) active_dir_cong [OF e(1)] by (auto simp: vm_ok_def)
    have step: "paging_map_page virt phys flags s =
        (if \<not> h then (False, s1)
         else if pres (entry_get (vm_mem s1) ?t ?pt) then (False, s1)
         else (True, s1\<lparr>vm_mem := entry_set (vm_mem s1) ?t ?pt ?new\<rparr>))"
      using True page_addr_and_high [of phys]
      by (simp add: paging_map_page_def Let_def or_present ens flip: d_def) (simp add: page_addr_offset)
    have leaf: "pte_at m d virt = None \<longleftrightarrow> \<not> pres (entry_get (vm_mem s1) ?t ?pt)" if h
      using e(8) [OF that] e(10) [OF dD, of virt] by (auto simp: pte_at_def Let_def split: if_splits)
    show ?thesis
    proof (cases "h \<and> \<not> pres (entry_get (vm_mem s1) ?t ?pt)")
      case False
      then have r: "\<not> r" "s' = s1" using eq step by (auto split: if_splits)
      have "pte_at m d virt = None \<Longrightarrow> \<not> (pres (entry_get m d ?pd) \<or> avail_frames (vm_pmm s) \<noteq> {})"
        using False leaf e(6) by blast
      with r ok1 e True show ?thesis by (auto simp: m'_def m_def fl)
    next
      case h: True
      have r: "r" "s' = s1\<lparr>vm_mem := entry_set (vm_mem s1) ?t ?pt ?new\<rparr>" using eq step h by auto
      have wf1: "pt_wf D (avail_frames (vm_pmm s1)) (vm_mem s1)" by (rule e(3))
      have p1: "pres (entry_get (vm_mem s1) d ?pd)" using e(8) h by simp
      note lw = leaf_write(1-3) [OF wf1 dD pd_index_less p1 pt_index_less [of virt], where p = ?new]
        leaf_write(4) [OF wf1 dD pd_index_less p1 pt_index_less [of virt]]
      have pn: "pres ?new"
        using flag_of_or [of phys 1 "(flags OR 1) AND 0xFFF"] True
        by (simp add: page_addr_offset and.assoc bit.conj_disj_distrib2)
      have ok': "vm_ok D s'"
        using ok1 lw(1) r active_dir_cong [of s' s1] by (simp add: vm_ok_def)
      have pte: "pte_at m' d' v =
          (if r \<and> page_of v = page_of virt \<and> (d' = d \<or> shares m d d' ?pd) then Some ?new else pte_at m d' v)"
        if d': "d' \<in> D" for d' v
      proof -
        have "pres (entry_get (vm_mem s1) d' (pd_index v)) \<and>
            table_of (entry_get (vm_mem s1) d' (pd_index v)) = ?t \<and> pt_index v = ?pt \<longleftrightarrow>
            page_of v = page_of virt \<and> (d' = d \<or> shares m d d' ?pd)" (is "?l \<longleftrightarrow> ?r")
        proof
          assume l: ?l
          then have pd: "pd_index v = ?pd" using lw(4) [OF d', of v] by simp
          have "d' = d \<or> shares m d d' ?pd"
          proof (cases "d' = d")
            case False
            have same: "entry_get (vm_mem s1) d' ?pd = entry_get m d' ?pd"
              using False e(11) [OF d', of ?pd] by simp
            have "pres (entry_get m d ?pd)"
            proof (rule ccontr)
              assume np: "\<not> pres (entry_get m d ?pd)"
              then show False
                using l pd same h e(13) [OF _ np d' pd_index_less [of virt]] by auto
            qed
            with l pd same e(12) show ?thesis by (simp add: shares_def)
          qed simp
          with l pd show ?r using same_page_iff [of v virt] by simp
        next
          assume r: ?r
          then have pd: "pd_index v = ?pd" "pt_index v = ?pt" using same_page_iff [of v virt] by simp_all
          show ?l
          proof (cases "d' = d")
            case True
            with p1 pd show ?thesis by simp
          next
            case False
            with r have "shares m d d' ?pd" by simp
            with False pd e(11) [OF d', of ?pd] e(12) show ?thesis by (simp add: shares_def)
          qed
        qed
        then show ?thesis using lw(3) [OF d', of v] e(10) [OF d', of v] r pn by (auto simp: m'_def)
      qed
      have dir: "entry_get m' d' j = entry_get (vm_mem s1) d' j" if "d' \<in> D" "j < 1024" for d' j
        using lw(2) [OF that] r by (simp add: m'_def)
      have res: "r \<longleftrightarrow> pg_is_enabled (vm_pg s) \<and> virt AND 0xFFF = 0 \<and> phys AND 0xFFF = 0 \<and>
          pte_at m d virt = None \<and> (pres (entry_get m d ?pd) \<or> avail_frames (vm_pmm s) \<noteq> {})"
        using r(1) True h leaf e(6) by blast
      have user: "flags AND 4 = 0 \<longrightarrow> entry_get m' d ?pd AND 4 \<noteq> 0 \<longrightarrow> entry_get m d ?pd AND 4 \<noteq> 0"
        using dir [OF dD pd_index_less] e(9) h by (simp add: fl)
      have fields: "vm_pg s' = vm_pg s" "pool_frames (vm_pmm s') = pool_frames (vm_pmm s)"
        "avail_frames (vm_pmm s') \<subseteq> avail_frames (vm_pmm s)"
        using r e(1,4,5) by simp_all
      have dirs: "\<forall>d' \<in> D. \<forall>j < 1024. (d', j) \<noteq> (d, ?pd) \<longrightarrow> entry_get m' d' j = entry_get m d' j"
        using dir e(11) by simp
      have ptes: "\<forall>d' \<in> D. \<forall>v. pte_at m' d' v =
          (if r \<and> page_of v = page_of virt \<and> (d' = d \<or> shares m d d' ?pd) then Some ?new else pte_at m d' v)"
        by (intro ballI allI) (rule pte)
      show ?thesis by (intro conjI ok' fields res ptes dirs impI) (use user in simp)
    qed
  qed
  then show "vm_ok D s'" and "vm_pg s' = vm_pg s" and "pool_frames (vm_pmm s') = pool_frames (vm_pmm s)"
    and "avail_frames (vm_pmm s') \<subseteq> avail_frames (vm_pmm s)"
    and "r \<longleftrightarrow> pg_is_enabled (vm_pg s) \<and> virt AND 0xFFF = 0 \<and> phys AND 0xFFF = 0 \<and>
      pte_at m d virt = None \<and> (pres (entry_get m d (pd_index virt)) \<or> avail_frames (vm_pmm s) \<noteq> {})"
    and "d' \<in> D \<Longrightarrow> pte_at m' d' v =
      (if r \<and> page_of v = page_of virt \<and> (d' = d \<or> shares m d d' (pd_index virt))
       then Some (phys OR ((flags OR 1) AND 0xFFF)) else pte_at m d' v)"
    and "d' \<in> D \<Longrightarrow> j < 1024 \<Longrightarrow> (d', j) \<noteq> (d, pd_index virt) \<Longrightarrow> entry_get m' d' j = entry_get m d' j"
    and "d \<in> D \<Longrightarrow> flags AND 4 = 0 \<Longrightarrow> entry_get m' d (pd_index virt) AND 4 \<noteq> 0 \<Longrightarrow>
      entry_get m d (pd_index virt) AND 4 \<noteq> 0"
    by simp_all
qed

lemma unmap_page:
  assumes ok: "vm_ok D s" and eq: "paging_unmap_page virt s = (r, s')"
  defines "d \<equiv> paging_active_directory s" and "m \<equiv> vm_mem s" and "m' \<equiv> vm_mem s'"
  shows "vm_ok D s'" and "vm_pg s' = vm_pg s" and "vm_pmm s' = vm_pmm s"
    and "r \<longleftrightarrow> pg_is_enabled (vm_pg s) \<and> virt AND 0xFFF = 0 \<and> pte_at m d virt \<noteq> None"
    and "\<not> r \<Longrightarrow> s' = s"
    and "d' \<in> D \<Longrightarrow> pte_at m' d' v =
      (if r \<and> page_of v = page_of virt \<and> (d' = d \<or> shares m d d' (pd_index virt)) then None else pte_at m d' v)"
    and "d' \<in> D \<Longrightarrow> j < 1024 \<Longrightarrow> entry_get m' d' j = entry_get m d' j"
proof -
  let ?pd = "pd_index virt" and ?pt = "pt_index virt"
  let ?t = "table_of (entry_get m d ?pd)"
  let ?goal = "vm_ok D s' \<and> vm_pg s' = vm_pg s \<and> vm_pmm s' = vm_pmm s \<and>
    (r \<longleftrightarrow> pg_is_enabled (vm_pg s) \<and> virt AND 0xFFF = 0 \<and> pte_at m d virt \<noteq> None) \<and> (\<not> r \<longrightarrow> s' = s) \<and>
    (\<forall>d' \<in> D. \<forall>v. pte_at m' d' v = (if r \<and> page_of v = page_of virt \<and> (d' = d \<or> shares m d d' ?pd)
       then None else pte_at m d' v)) \<and>
    (\<forall>d' \<in> D. \<forall>j < 1024. entry_get m' d' j = entry_get m d' j)"
  have step: "paging_unmap_page virt s =
      (if pg_is_enabled (vm_pg s) \<and> virt AND 0xFFF = 0 \<and> pte_at m d virt \<noteq> None
       then (True, s\<lparr>vm_mem := entry_set m ?t ?pt 0\<rparr>) else (False, s))"
    by (auto simp: paging_unmap_page_def Let_def pte_at_def m_def d_def split: if_splits)
  have ?goal
  proof (cases "pg_is_enabled (vm_pg s) \<and> virt AND 0xFFF = 0 \<and> pte_at m d virt \<noteq> None")
    case False
    with eq step have r: "\<not> r" "s' = s" by auto
    with ok False show ?thesis by (auto simp: m_def m'_def)
  next
    case True
    then have dD: "d \<in> D" using ok by (simp add: vm_ok_def d_def)
    have wf: "pt_wf D (avail_frames (vm_pmm s)) m" using ok by (simp add: vm_ok_def m_def)
    have p: "pres (entry_get m d ?pd)" using True by (auto simp: pte_at_def Let_def split: if_splits)
    have r: r "s' = s\<lparr>vm_mem := entry_set m ?t ?pt 0\<rparr>" using True eq step by auto
    note lw = leaf_write(1-3) [OF wf dD pd_index_less p pt_index_less [of virt], where p = 0]
        leaf_write(4) [OF wf dD pd_index_less p pt_index_less [of virt]]
    have "pres (entry_get m d' (pd_index v)) \<and> table_of (entry_get m d' (pd_index v)) = ?t \<and> pt_index v = ?pt
        \<longleftrightarrow> page_of v = page_of virt \<and> (d' = d \<or> shares m d d' ?pd)" if "d' \<in> D" for d' v
      using lw(4) [OF that, of v] p same_page_iff [of v virt] by (auto simp: shares_def)
    then have "\<forall>d' \<in> D. \<forall>v. pte_at m' d' v =
        (if r \<and> page_of v = page_of virt \<and> (d' = d \<or> shares m d d' ?pd) then None else pte_at m d' v)"
      using lw(3) r by (simp add: m'_def)
    moreover have "vm_ok D s'" using ok lw(1) r active_dir_cong [of s' s] by (simp add: vm_ok_def)
    ultimately show ?thesis using r True lw(2) by (simp add: m'_def)
  qed
  then show "vm_ok D s'" and "vm_pg s' = vm_pg s" and "vm_pmm s' = vm_pmm s"
    and "r \<longleftrightarrow> pg_is_enabled (vm_pg s) \<and> virt AND 0xFFF = 0 \<and> pte_at m d virt \<noteq> None"
    and "\<not> r \<Longrightarrow> s' = s"
    and "d' \<in> D \<Longrightarrow> pte_at m' d' v =
      (if r \<and> page_of v = page_of virt \<and> (d' = d \<or> shares m d d' (pd_index virt)) then None else pte_at m d' v)"
    and "d' \<in> D \<Longrightarrow> j < 1024 \<Longrightarrow> entry_get m' d' j = entry_get m d' j"
    by simp_all
qed

lemma translate_pte:
  "paging_translate v s =
     (if pg_is_enabled (vm_pg s)
      then map_option (\<lambda>p. (p AND 0xFFFFF000) OR (v AND 0xFFF)) (pte_at (vm_mem s) (paging_active_directory s) v)
      else None)"
  by (simp add: paging_translate_def pte_at_def Let_def)

section \<open>User access checks\<close>

text \<open>A byte is user accessible when both levels are present and carry the user bit.\<close>

definition user_byte :: "mem \<Rightarrow> u32 \<Rightarrow> u32 \<Rightarrow> bool" where
  "user_byte m d v \<longleftrightarrow> user_flags_set (entry_get m d (pd_index v)) \<and>
     user_flags_set (entry_get m (table_of (entry_get m d (pd_index v))) (pt_index v))"

lemma user_byte_page: "page_of v = page_of w \<Longrightarrow> user_byte m d v = user_byte m d w"
  using same_page_iff [of v w] by (simp add: user_byte_def)

lemma page_of_less: "page_of v < PMM_MAX_FRAMES"
  using unat_u32_less [of v] by (simp add: page_of_def)

lemma page_of_frame_addr: "n < PMM_MAX_FRAMES \<Longrightarrow> page_of (frame_addr n) = n"
  by (simp add: page_of_def frame_addr_def unat_frame_addr)

lemma pages_loop_correct:
  assumes "page_addr page" "unat page \<le> unat last_addr" "\<And>v w. page_of v = page_of w \<Longrightarrow> P v = P w"
  shows "pages_loop P page last_addr \<longleftrightarrow> (\<forall>n. page_of page \<le> n \<and> n \<le> page_of last_addr \<longrightarrow> P (frame_addr n))"
  using assms
proof (induction P page last_addr rule: pages_loop.induct)
  case (1 P page lst)
  have lim: "page_of lst < PMM_MAX_FRAMES" by (rule page_of_less)
  have base: "unat (lst AND 0xFFFFF000) = page_of lst * 4096"
    using unat_page_base [of lst] by (simp add: page_mask_minus page_of_def)
  have pg: "unat page = page_of page * 4096" using "1.prems"(1) by (auto simp: page_addr_def page_of_def)
  then have le: "page_of page \<le> page_of lst" using "1.prems"(2) by (simp add: page_of_def div_le_mono)
  have here: "P page = P (frame_addr (page_of page))"
    using le lim by (intro "1.prems"(3)) (simp add: page_of_frame_addr)
  show ?case
  proof (cases "P page \<and> \<not> page \<ge> (lst AND 0xFFFFF000)")
    case False
    then have "pages_loop P page lst = P page" by (subst pages_loop.simps) auto
    moreover have eq: "page_of page = page_of lst" if "P page" using that False le base pg by (simp add: word_le_nat_alt)
    moreover have "\<forall>n. page_of page \<le> n \<and> n \<le> page_of lst \<longrightarrow> P (frame_addr n)" if "P page"
    proof (intro allI impI)
      fix n assume "page_of page \<le> n \<and> n \<le> page_of lst"
      with eq [OF that] have "n = page_of page" by simp
      then show "P (frame_addr n)" using that here by simp
    qed
    ultimately show ?thesis using here le by blast
  next
    case True
    then have lt: "page_of page < page_of lst" using base pg by (simp add: word_le_nat_alt)
    then have "unat page + 4096 < 4294967296" using pg lim by linarith
    then have nxt: "unat (page + 0x1000) = unat page + 4096" using unat_plus_small [of page 4096] by simp
    have nx: "page_of (page + 0x1000) = Suc (page_of page)" "page_addr (page + 0x1000)"
      unfolding page_of_def [of "page + 0x1000"] page_addr_def nxt pg by simp_all
    have "unat page + 4096 \<le> page_of lst * 4096" using lt pg by simp
    moreover have "page_of lst * 4096 \<le> unat lst" by (simp add: page_of_def)
    ultimately have nle: "unat (page + 0x1000) \<le> unat lst" using nxt by simp
    have "pages_loop P page lst = pages_loop P (page + 0x1000) lst" using True by (subst pages_loop.simps) simp
    also have "\<dots> \<longleftrightarrow> (\<forall>n. Suc (page_of page) \<le> n \<and> n \<le> page_of lst \<longrightarrow> P (frame_addr n))"
    proof -
      from True have t: "\<not> \<not> P page" "\<not> page \<ge> (lst AND 0xFFFFF000)" by simp_all
      show ?thesis using "1.IH" [OF t nx(2) nle "1.prems"(3)] unfolding nx(1) by simp
    qed
    also have "\<dots> \<longleftrightarrow> (\<forall>n. page_of page \<le> n \<and> n \<le> page_of lst \<longrightarrow> P (frame_addr n))"
    proof -
      have "page_of page \<le> n \<longleftrightarrow> n = page_of page \<or> Suc (page_of page) \<le> n" for n by auto
      then show ?thesis using True here by auto
    qed
    finally show ?thesis .
  qed
qed

lemma limit_minus:
  assumes "(sz :: u32) \<noteq> 0"
  shows "unat (0xFFFFFFFF - (sz - 1)) + unat sz = 4294967296"
proof -
  have le: "sz - 1 \<le> 0xFFFFFFFF" using unat_u32_less [of "sz - 1"] by (simp add: word_le_nat_alt)
  have "unat (0xFFFFFFFF - (sz - 1)) = 4294967295 - (unat sz - 1)"
    unfolding unat_sub [OF le] using assms by (simp add: unat_minus_one)
  moreover have "0 < unat sz" "unat sz < 4294967296" using assms unat_u32_less [of sz] by (simp_all add: unat_gt_0)
  ultimately show ?thesis by simp
qed

lemma range_check: "(sz :: u32) \<noteq> 0 \<Longrightarrow> virt > 0xFFFFFFFF - (sz - 1) \<longleftrightarrow> 4294967296 < unat virt + unat sz"
  using limit_minus [of sz] by (simp add: word_less_nat_alt) linarith

text \<open>The loop over the pages of a range checks every byte of the range.\<close>

lemma pages_range:
  assumes sz0: "sz \<noteq> 0" and fits: "unat virt + unat sz \<le> 4294967296" and inv: "\<And>v w. page_of v = page_of w \<Longrightarrow> P v = P w"
  shows "pages_loop P (virt AND 0xFFFFF000) (virt + sz - 1) \<longleftrightarrow> (\<forall>k < unat sz. P (virt + of_nat k))"
proof -
  let ?l = "virt + sz - 1"
  have sz: "0 < unat sz" using sz0 by (simp add: unat_gt_0)
  have byte: "unat (virt + of_nat k) = unat virt + k" if "k < unat sz" for k
  proof -
    have "unat (of_nat k :: u32) = k" using that unat_u32_less [of sz] by (simp add: unat_of_nat)
    then show ?thesis using that fits unat_plus_small [of virt "of_nat k"] by simp
  qed
  have l: "?l = virt + of_nat (unat sz - 1)" using sz by (simp add: of_nat_diff)
  have ul: "unat ?l = unat virt + (unat sz - 1)" unfolding l using sz by (intro byte) simp
  have base: "page_addr (virt AND 0xFFFFF000)" by (rule table_of_page)
  have pb: "page_of (virt AND 0xFFFFF000) = page_of virt"
    using unat_page_base [of virt] by (simp add: page_mask_minus page_of_def)
  have le: "unat (virt AND 0xFFFFF000) \<le> unat ?l"
    using unat_page_base [of virt] ul by (simp add: page_mask_minus trans_le_add1)
  have "(\<forall>n. page_of virt \<le> n \<and> n \<le> page_of ?l \<longrightarrow> P (frame_addr n)) \<longleftrightarrow> (\<forall>k < unat sz. P (virt + of_nat k))"
    (is "?pages \<longleftrightarrow> ?bytes")
  proof
    assume Q: ?pages
    show ?bytes
    proof (intro allI impI)
      fix k assume k: "k < unat sz"
      have r: "page_of virt \<le> page_of (virt + of_nat k)" "page_of (virt + of_nat k) \<le> page_of ?l"
        using k byte [OF k] ul by (auto simp: page_of_def intro!: div_le_mono)
      have "page_of (frame_addr (page_of (virt + of_nat k))) = page_of (virt + of_nat k)"
        by (rule page_of_frame_addr [OF page_of_less])
      then show "P (virt + of_nat k)" using Q r inv by blast
    qed
  next
    assume B: ?bytes
    show ?pages
    proof (intro allI impI)
      fix n assume n: "page_of virt \<le> n \<and> n \<le> page_of ?l"
      define k where "k = max (unat virt) (n * 4096) - unat virt"
      have "n * 4096 \<le> unat ?l" using n by (simp add: page_of_def less_eq_div_iff_mult_less_eq)
      then have k: "k < unat sz" using ul sz unfolding k_def by linarith
      have "page_of (virt + of_nat k) = n"
      proof (cases "unat virt \<le> n * 4096")
        case True
        then have "unat (virt + of_nat k) = n * 4096" using byte [OF k] by (simp add: k_def)
        then show ?thesis by (simp add: page_of_def)
      next
        case False
        then have "n \<le> page_of virt" "k = 0" by (simp_all add: page_of_def less_eq_div_iff_mult_less_eq k_def)
        with n show ?thesis by simp
      qed
      moreover have "n < PMM_MAX_FRAMES" using n page_of_less [of ?l] by simp
      ultimately have "page_of (frame_addr n) = page_of (virt + of_nat k)" by (simp add: page_of_frame_addr)
      with B k show "P (frame_addr n)" using inv by blast
    qed
  qed
  then show ?thesis using pages_loop_correct [OF base le inv] by (simp add: pb)
qed

lemma user_accessible_iff:
  "paging_user_accessible virt sz s \<longleftrightarrow> pg_is_enabled (vm_pg s) \<and> sz \<noteq> 0 \<and>
     unat virt + unat sz \<le> 4294967296 \<and>
     (\<forall>k < unat sz. user_byte (vm_mem s) (paging_active_directory s) (virt + of_nat k))"
proof (cases "pg_is_enabled (vm_pg s) \<and> sz \<noteq> 0 \<and> unat virt + unat sz \<le> 4294967296")
  case False
  then show ?thesis using range_check [of sz virt] by (auto simp: paging_user_accessible_def)
next
  case True
  let ?P = "user_byte (vm_mem s) (paging_active_directory s)"
  have "(\<lambda>page. let pde = entry_get (vm_mem s) (paging_active_directory s) (pd_index page) in if \<not> user_flags_set pde then False
      else user_flags_set (entry_get (vm_mem s) (table_of pde) (pt_index page))) = ?P"
    by (rule ext) (simp add: user_byte_def Let_def)
  then have l: "user_pages_loop (vm_mem s) (paging_active_directory s) = pages_loop ?P"
    unfolding user_pages_loop_def by (rule arg_cong)
  have r: "pages_loop ?P (virt AND 0xFFFFF000) (virt + sz - 1) \<longleftrightarrow> (\<forall>k < unat sz. ?P (virt + of_nat k))"
    using True by (intro pages_range user_byte_page) simp_all
  have "\<not> virt > 0xFFFFFFFF - (sz - 1)" using True range_check [of sz virt] by simp
  then show ?thesis using True unfolding paging_user_accessible_def l r by simp
qed

section \<open>Cloning the kernel directory\<close>

lemma clone_fold:
  assumes "page_addr f" "page_addr kd" "f \<noteq> kd" "set xs \<subseteq> {..<1024}"
    and "\<And>i. i < 1024 \<Longrightarrow> entry_get m kd i = entry_get m0 kd i"
  shows "fold (\<lambda>i m. entry_set m f i (h (entry_get m kd i))) xs m =
    fold (\<lambda>i m. entry_set m f i (h (entry_get m0 kd i))) xs m"
  using assms(4,5)
proof (induction xs arbitrary: m)
  case (Cons x xs)
  then show ?case using assms(1-3) by (simp add: entry_get_set)
qed simp

lemma clone_cases:
  assumes ok: "vm_ok D s" and en: "pg_is_enabled (vm_pg s)"
  obtains (full) "avail_frames (vm_pmm s) = {}" "paging_clone_kernel_directory s = (None, s)"
  | (dir) f p m' where "f \<in> avail_frames (vm_pmm s)" "page_addr f" "f \<noteq> 0" "f \<notin> D"
      "paging_clone_kernel_directory s = (Some f, s\<lparr>vm_pmm := p, vm_mem := m'\<rparr>)"
      "avail_frames p = avail_frames (vm_pmm s) - {f}" "pool_frames p = pool_frames (vm_pmm s)" "pmm_ok p"
      "\<And>d j. page_addr d \<Longrightarrow> j < 1024 \<Longrightarrow> entry_get m' d j =
        (if d = f then clone_entry (entry_get (vm_mem s) (pg_kernel_dir_phys (vm_pg s)) j)
         else entry_get (vm_mem s) d j)"
proof (cases "avail_frames (vm_pmm s) = {}")
  case True
  have "pmm_ok (vm_pmm s)" using ok by (simp add: vm_ok_def)
  with True have "paging_clone_kernel_directory s = (None, s)"
    using en pmm_frames.alloc_empty [OF _ True] by (simp add: paging_clone_kernel_directory_def)
  with True show thesis by (rule full)
next
  case False
  let ?kd = "pg_kernel_dir_phys (vm_pg s)"
  have p: "pmm_ok (vm_pmm s)" and wf: "pt_wf D (avail_frames (vm_pmm s)) (vm_mem s)" and kd: "?kd \<in> D"
    using ok en by (auto simp: vm_ok_def)
  obtain f q where fq: "pmm_alloc_frame (vm_pmm s) = (f, q)" by fastforce
  have f0: "f \<noteq> 0" using False pmm_frames.alloc_zero_iff [OF p fq] by simp
  note fresh = pmm_frames.alloc_fresh [OF p fq f0]
  have fD: "f \<notin> D" using fresh(5) pt_wfD(2) [OF wf] by blast
  have kp: "page_addr ?kd" "f \<noteq> ?kd" using pt_wfD(1) [OF wf kd] kd fD by auto
  define m' where "m' = table_fill f (\<lambda>i. clone_entry (entry_get (vm_mem s) ?kd i)) (vm_mem s)"
  have "paging_clone_kernel_directory s = (Some f, s\<lparr>vm_pmm := q, vm_mem := m'\<rparr>)"
    using en fq f0 clone_fold [OF fresh(3) kp(1) kp(2), of "[0..<1024]" "vm_mem s" "vm_mem s" clone_entry]
    by (simp add: paging_clone_kernel_directory_def m'_def table_fill_def subset_eq)
  moreover have "entry_get m' d j =
        (if d = f then clone_entry (entry_get (vm_mem s) ?kd j) else entry_get (vm_mem s) d j)"
    if "page_addr d" "j < 1024" for d j
    using that fresh(3) by (auto simp: m'_def entry_get_fill)
  ultimately show thesis
    using dir [OF fresh(5,3) f0 fD _ fresh(4)] pmm_frames.alloc_inv [OF p fq] by blast
qed

lemma clone_effect:
  assumes ok: "vm_ok D s" and eq: "paging_clone_kernel_directory s = (Some f, s')"
  defines "kd \<equiv> pg_kernel_dir_phys (vm_pg s)"
  shows "vm_ok (insert f D) s'" and "vm_pg s' = vm_pg s" and "f \<notin> D" and "page_addr f" and "f \<noteq> 0"
    and "pool_frames (vm_pmm s') = pool_frames (vm_pmm s)"
    and "f \<in> avail_frames (vm_pmm s)" and "avail_frames (vm_pmm s') = avail_frames (vm_pmm s) - {f}"
    and "d \<in> D \<Longrightarrow> i < 1024 \<Longrightarrow> entry_get (vm_mem s') d i = entry_get (vm_mem s) d i"
    and "i < 1024 \<Longrightarrow> entry_get (vm_mem s') f i = clone_entry (entry_get (vm_mem s) kd i)"
    and "d \<in> D \<Longrightarrow> pte_at (vm_mem s') d v = pte_at (vm_mem s) d v"
    and "pte_at (vm_mem s') f v =
      (if entry_get (vm_mem s) kd (pd_index v) AND 4 \<noteq> 0 then None else pte_at (vm_mem s) kd v)"
proof -
  let ?m = "vm_mem s" and ?A = "avail_frames (vm_pmm s)"
  have en: "pg_is_enabled (vm_pg s)"
    using eq by (auto simp: paging_clone_kernel_directory_def split: if_splits)
  have wf: "pt_wf D ?A ?m" and kd: "kd \<in> D" using ok en by (auto simp: vm_ok_def kd_def)
  obtain p m' where f: "f \<in> ?A" "page_addr f" "f \<noteq> 0" "f \<notin> D"
    and s': "s' = s\<lparr>vm_pmm := p, vm_mem := m'\<rparr>" and p: "avail_frames p = ?A - {f}"
      "pool_frames p = pool_frames (vm_pmm s)" "pmm_ok p"
    and ent: "\<And>d j. page_addr d \<Longrightarrow> j < 1024 \<Longrightarrow> entry_get m' d j =
        (if d = f then clone_entry (entry_get ?m kd j) else entry_get ?m d j)"
    by (rule clone_cases [OF ok en]) (use eq in \<open>auto simp: kd_def\<close>)
  let ?rep = "\<lambda>d. if d = f then kd else d"
  have old: "entry_get m' d i = entry_get ?m d i" if "d \<in> D" "i < 1024" for d i
    using ent [OF pt_wfD(1) [OF wf that(1)] that(2)] that f(4) by auto
  have new: "entry_get m' f i = clone_entry (entry_get ?m kd i)" if "i < 1024" for i
    using ent [OF f(2) that] by simp
  have rep: "entry_get m' d i = entry_get ?m (?rep d) i \<and> ?rep d \<in> D"
    if "d \<in> insert f D" "i < 1024" "pres (entry_get m' d i)" for d i
    using that old [of d i] new [of i] kd f(4) by (auto simp: clone_entry_def split: if_splits)
  have wf': "pt_wf (insert f D) (?A - {f}) m'"
    unfolding pt_wf_def
  proof (intro conjI ballI allI impI)
    fix d i assume *: "d \<in> insert f D" "i < 1024" "pres (entry_get m' d i)"
    have r: "entry_get m' d i = entry_get ?m (?rep d) i" "?rep d \<in> D" using rep [OF *] by auto
    then have "table_of (entry_get m' d i) \<notin> D" "table_of (entry_get m' d i) \<notin> ?A"
      using pt_wfD(3,4) [OF wf r(2) *(2)] *(3) by auto
    then show "table_of (entry_get m' d i) \<notin> insert f D \<union> (?A - {f})" using f(1) by auto
  next
    fix d d' i j
    assume *: "d \<in> insert f D" "d' \<in> insert f D" "i < 1024" "j < 1024" "pres (entry_get m' d i)"
      "pres (entry_get m' d' j)" "table_of (entry_get m' d i) = table_of (entry_get m' d' j)"
    have r: "entry_get m' d i = entry_get ?m (?rep d) i" "?rep d \<in> D"
      "entry_get m' d' j = entry_get ?m (?rep d') j" "?rep d' \<in> D"
      using rep [OF *(1,3,5)] rep [OF *(2,4,6)] by auto
    show "i = j" using pt_wf_share [OF wf r(2,4) *(3,4)] *(5-7) unfolding r(1,3) by simp
  qed (use pt_wfD [OF wf] f in auto)
  have leaf: "entry_get m' (table_of (entry_get ?m d i)) j = entry_get ?m (table_of (entry_get ?m d i)) j"
    if "d \<in> D" "i < 1024" "pres (entry_get ?m d i)" "j < 1024" for d i j
    using ent [OF table_of_page that(4)] pt_wfD(4) [OF wf that(1-3)] f(1) by auto
  show "pte_at (vm_mem s') d v = pte_at ?m d v" if "d \<in> D"
    using old [OF that, of "pd_index v"] leaf [OF that, of "pd_index v" "pt_index v"]
    by (auto simp: s' pte_at_def Let_def)
  show "pte_at (vm_mem s') f v =
      (if entry_get ?m kd (pd_index v) AND 4 \<noteq> 0 then None else pte_at ?m kd v)"
    using new [of "pd_index v"] leaf [OF kd, of "pd_index v" "pt_index v"]
    by (auto simp: s' pte_at_def clone_entry_def Let_def)
  show "vm_ok (insert f D) s'"
    using ok wf' p en active_dir_cong [of s' s] by (simp add: vm_ok_def s')
  show "vm_pg s' = vm_pg s" "f \<notin> D" "page_addr f" "f \<noteq> 0" "f \<in> ?A"
    "pool_frames (vm_pmm s') = pool_frames (vm_pmm s)" "avail_frames (vm_pmm s') = ?A - {f}"
    using f p by (simp_all add: s')
  show "d \<in> D \<Longrightarrow> i < 1024 \<Longrightarrow> entry_get (vm_mem s') d i = entry_get ?m d i"
    "i < 1024 \<Longrightarrow> entry_get (vm_mem s') f i = clone_entry (entry_get ?m kd i)"
    using old new by (simp_all add: s')
qed

section \<open>Building the identity map\<close>

lemma identity_entry_cases:
  assumes "pd < 1024" "e < 1024"
  defines "phys \<equiv> pd * 4194304 + e * 4096"
  shows "identity_entry lim (of_nat pd) e =
    (if phys < unat lim then of_nat phys OR 3 else 0)" and "unat (of_nat phys :: u32) = phys"
    and "page_addr (of_nat phys)"
proof -
  have lt: "phys < 4294967296" using assms by (simp add: phys_def)
  then show u: "unat (of_nat phys :: u32) = phys" by (simp add: unat_of_nat)
  show "page_addr (of_nat phys)" unfolding page_addr_def u by (simp add: phys_def mod_add_eq [symmetric])
  have "push_bit 22 (of_nat pd) + push_bit 12 (of_nat e) = (push_bit 22 (of_nat pd) OR push_bit 12 (of_nat e) :: u32)"
  proof (rule disjunctive_add)
    fix n
    have "n < 22" if "bit (push_bit 12 (of_nat e) :: u32) n"
    proof -
      have "take_bit 10 e = e" using assms(2) by (simp add: take_bit_nat_eq_self)
      then have "bit e k \<Longrightarrow> k < 10" for k by (metis bit_take_bit_iff)
      moreover from that have "12 \<le> n" "bit e (n - 12)"
        by (auto simp: bit_push_bit_iff bit_of_nat_iff)
      ultimately show ?thesis by force
    qed
    then show "\<not> bit (push_bit 22 (of_nat pd) :: u32) n \<or> \<not> bit (push_bit 12 (of_nat e) :: u32) n"
      by (auto simp: bit_push_bit_iff)
  qed
  moreover have "push_bit 22 (of_nat pd) + push_bit 12 (of_nat e) = (of_nat phys :: u32)"
    by (simp add: push_bit_eq_mult phys_def)
  ultimately have "push_bit 22 (of_nat pd) OR push_bit 12 (of_nat e) = (of_nat phys :: u32)" by simp
  then show "identity_entry lim (of_nat pd) e = (if phys < unat lim then of_nat phys OR 3 else 0)"
    by (simp add: identity_entry_def Let_def word_less_nat_alt u)
qed

text \<open>The state of the static directory after the slots below \<open>n\<close> have been built.\<close>

definition built :: "u32 \<Rightarrow> nat \<Rightarrow> u32 \<Rightarrow> mem \<Rightarrow> bool" where
  "built lim n d m \<longleftrightarrow>
     (\<forall>i < 1024. if i < n then pres (entry_get m d i) \<and> entry_get m d i AND 4 = 0 else entry_get m d i = 0) \<and>
     (\<forall>v. pte_at m d v = (if pd_index v < n then
        (let e = identity_entry lim (of_nat (pd_index v)) (pt_index v) in if pres e then Some e else None)
        else None))"

lemma built_kernel: "built lim n d m \<Longrightarrow> i < 1024 \<Longrightarrow> entry_get m d i AND 4 = 0"
  by (cases "i < n") (simp_all add: built_def)

lemma built_step:
  assumes wf: "pt_wf {d} (avail_frames (vm_pmm s)) (vm_mem s)" and p: "pmm_ok (vm_pmm s)"
    and b: "built lim n d (vm_mem s)" and n: "n < 1024" and d: "pg_page_directory (vm_pg s) = d"
    and al: "paging_alloc_table s = (Some t, s1)"
  defines "m2 \<equiv> entry_set (table_fill t (identity_entry lim (of_nat n)) (vm_mem s1)) d n (t OR 1 OR 2)"
  shows "pt_wf {d} (avail_frames (vm_pmm s1)) m2" and "pmm_ok (vm_pmm s1)"
    and "built lim (Suc n) d m2" and "vm_pg s1 = vm_pg s"
    and "card (avail_frames (vm_pmm s)) = Suc (card (avail_frames (vm_pmm s1)))"
proof -
  let ?g = "identity_entry lim (of_nat n)"
  let ?A = "avail_frames (vm_pmm s)" and ?m = "vm_mem s"
  obtain q where t: "t \<in> ?A" "page_addr t" and q: "pmm_ok q" "avail_frames q = ?A - {t}"
    and s1: "s1 = s\<lparr>vm_pmm := q, vm_mem := table_fill t (\<lambda>_. 0) ?m\<rparr>"
    using p by (cases rule: paging_alloc_table_cases) (use al in auto)
  let ?m1 = "table_fill t (\<lambda>_. 0) ?m"
  have dt: "page_addr d" "d \<noteq> t" using pt_wfD(1,2) [OF wf, of d] t by auto
  have dir1: "entry_get ?m1 d i = entry_get ?m d i" if "i < 1024" for i
    using dt t that by (simp add: entry_get_fill)
  have wf1: "pt_wf {d} ?A ?m1" by (rule pt_wf_cong [OF wf]) (use dir1 in auto)
  have np: "\<not> pres (entry_get ?m1 d n)" using b n dir1 by (simp add: built_def)
  have k3: "(3 :: u32) AND 0xFFF = 3" "pres 3" by simp_all
  note ti = table_install(1) [OF wf1 _ n np t k3, where g = ?g, simplified]
    table_install(2,3) [OF wf1 _ n np t k3, where g = ?g and d' = d, simplified]
  have m2: "m2 = entry_set (table_fill t ?g ?m1) d n (t OR 3)"
    by (simp add: m2_def s1 or.assoc)
  have bits: "(t OR 3) AND 1 = 1" "(t OR 3) AND 4 = 0"
    using flag_of_or [OF t(2) low_consts(1), of 3] flag_of_or [OF t(2) low_consts(2), of 3] by simp_all
  have leaf: "pte_at ?m1 d v = pte_at ?m d v" for v
    using pt_wfD(4) [OF wf, of d "pd_index v"] t dt dir1 [of "pd_index v"]
    by (auto simp: pte_at_def Let_def entry_get_fill table_of_page)
  show "pt_wf {d} (avail_frames (vm_pmm s1)) m2" using ti(1) q s1 by (simp add: m2)
  show "pmm_ok (vm_pmm s1)" "vm_pg s1 = vm_pg s" using q s1 by simp_all
  have pt: "pte_at m2 d v = (if pd_index v < Suc n then
      (let e = identity_entry lim (of_nat (pd_index v)) (pt_index v) in if pres e then Some e else None)
      else None)" for v
    using ti(3) [of v] leaf [of v] b by (auto simp: m2 built_def less_Suc_eq Let_def)
  have di: "if i < Suc n then pres (entry_get m2 d i) \<and> entry_get m2 d i AND 4 = 0 else entry_get m2 d i = 0"
    if "i < 1024" for i
    using ti(2) [of i] that dir1 [OF that] b bits by (auto simp: m2 built_def less_Suc_eq)
  show "built lim (Suc n) d m2" unfolding built_def by (intro conjI allI impI di pt)
  have "finite ?A" using pmm_frames.avail_pool [OF p] pmm_frames.pool_finite [OF p] by (rule finite_subset)
  then show "card ?A = Suc (card (avail_frames (vm_pmm s1)))"
    using t q s1 card_Suc_Diff1 [of ?A t] by simp
qed

lemma paging_init_loop_built:
  assumes "pt_wf {d} (avail_frames (vm_pmm s)) (vm_mem s)" "pmm_ok (vm_pmm s)"
    and "built lim n d (vm_mem s)" "n \<le> k" "k \<le> 1024" "pg_page_directory (vm_pg s) = d"
    and "paging_init_loop lim [n..<k] s = (r, s')"
  shows "vm_pg s' = vm_pg s \<and> pmm_ok (vm_pmm s') \<and> pt_wf {d} (avail_frames (vm_pmm s')) (vm_mem s') \<and>
    (r \<longleftrightarrow> k - n \<le> card (avail_frames (vm_pmm s))) \<and> (r \<longrightarrow> built lim k d (vm_mem s'))"
  using assms
proof (induction "k - n" arbitrary: n s)
  case 0
  then show ?case by simp
next
  case (Suc x)
  then have nk: "n < k" "[n..<k] = n # [Suc n..<k]" by (auto simp: upt_conv_Cons)
  note p = Suc.prems(2)
  show ?case
  proof (cases "paging_alloc_table s")
    case (Pair o1 s1)
    show ?thesis
    proof (cases o1)
      case None
      with p Pair have "avail_frames (vm_pmm s) = {}" "s1 = s"
        by (cases rule: paging_alloc_table_cases; simp)+
      with None Pair Suc.prems nk show ?thesis by simp
    next
      case (Some t)
      let ?m2 = "entry_set (table_fill t (identity_entry lim (of_nat n)) (vm_mem s1)) d n (t OR 1 OR 2)"
      have al: "paging_alloc_table s = (Some t, s1)" using Pair Some by simp
      have n: "n < 1024" using nk Suc.prems by simp
      note st = built_step [OF Suc.prems(1,2,3) n Suc.prems(6) al]
      have "paging_init_loop lim [Suc n..<k] (s1\<lparr>vm_mem := ?m2\<rparr>) = (r, s')"
        using Suc.prems(6,7) nk al st(4) by (simp add: Let_def)
      with Suc.hyps(1) [of "Suc n" "s1\<lparr>vm_mem := ?m2\<rparr>"] Suc.hyps(2) Suc.prems nk st
      show ?thesis by auto
    qed
  qed
qed

lemma split_page: "(v AND 0xFFFFF000) OR (v AND 0xFFF) = (v :: u32)"
proof -
  have "(v AND 0xFFFFF000) OR (v AND 0xFFF) = v AND (0xFFFFF000 OR 0xFFF)"
    by (simp only: bit.conj_disj_distrib)
  also have "(0xFFFFF000 OR 0xFFF :: u32) = - 1" by simp
  finally show ?thesis by simp
qed

definition slots_needed :: "u32 \<Rightarrow> nat" where
  "slots_needed lim = (unat lim + 4194303) div 4194304"

lemma identity_limit_bounds:
  assumes "h \<le> 0xFFC00000"
  shows "identity_limit h \<le> 0xFFC00000" and "page_addr (identity_limit h)" and "h \<le> identity_limit h"
    and "unat (drop_bit 22 (identity_limit h + 0x3FFFFF)) = slots_needed (identity_limit h)"
    and "slots_needed (identity_limit h) \<le> 1023"
proof -
  have h: "unat h \<le> 4290772992" using assms by (simp add: word_le_nat_alt)
  have up: "unat (align_up_4k h) = (unat h + 4095) div 4096 * 4096" using h by (simp add: unat_align_up)
  then have le: "unat (align_up_4k h) \<le> 4290772992" using h by simp
  then show lim: "identity_limit h \<le> 0xFFC00000"
    by (simp add: identity_limit_def Let_def word_le_nat_alt)
  show "page_addr (identity_limit h)"
    using align_up_aligned [of h] by (simp add: identity_limit_def Let_def page_addr_def)
  have "unat h \<le> unat (align_up_4k h)" using up by simp
  then show "h \<le> identity_limit h"
    by (auto simp: identity_limit_def Let_def word_le_nat_alt word_less_nat_alt)
  have "unat (identity_limit h + 0x3FFFFF) = unat (identity_limit h) + 4194303"
    using lim unat_plus_small [of "identity_limit h" "0x3FFFFF"] by (simp add: word_le_nat_alt)
  then show "unat (drop_bit 22 (identity_limit h + 0x3FFFFF)) = slots_needed (identity_limit h)"
    by (simp add: drop_bit_eq_div unat_div slots_needed_def)
  show "slots_needed (identity_limit h) \<le> 1023"
    using lim by (simp add: slots_needed_def word_le_nat_alt)
qed

text \<open>Reading the built directory.\<close>

lemma built_translate:
  assumes b: "built lim (slots_needed lim) d m" and lim: "page_addr lim"
  shows "map_option (\<lambda>p. (p AND 0xFFFFF000) OR (v AND 0xFFF)) (pte_at m d v) = (if v < lim then Some v else None)"
proof -
  define phys where "phys = pd_index v * 4194304 + pt_index v * 4096"
  note ie = identity_entry_cases [OF pd_index_less [of v] pt_index_less [of v], folded phys_def]
  have phys: "phys = unat v div 4096 * 4096"
    using page_of_indices [of v] by (simp add: phys_def page_of_def algebra_simps)
  then have w: "of_nat phys = v AND 0xFFFFF000"
    using ie(2) unat_page_base [of v] by (simp add: page_mask_minus flip: unat_inj_u32)
  obtain q where q: "unat lim = 4096 * q" using lim by (auto simp: page_addr_def mod_eq_0_iff_dvd)
  have lt: "phys < unat lim \<longleftrightarrow> v < lim"
    unfolding phys word_less_nat_alt q by (simp add: mult.commute div_less_iff_less_mult)
  show ?thesis
  proof (cases "v < lim")
    case True
    then have "pd_index v < slots_needed lim"
      by (simp add: pd_index_eq slots_needed_def word_less_nat_alt) 
    moreover have "pres (of_nat phys OR 3)" using flag_of_or [OF ie(3) low_consts(1), of 3] by simp
    ultimately have "pte_at m d v = Some (of_nat phys OR 3)"
      using b True lt ie(1) [of lim] by (simp add: built_def Let_def)
    moreover have "table_of (of_nat phys OR 3) = of_nat phys"
      by (rule table_of_or [OF ie(3)]) simp
    ultimately show ?thesis using True w split_page [of v] by simp
  next
    case False
    with b lt ie(1) [of lim] have "pte_at m d v = None" by (simp add: built_def Let_def)
    with False show ?thesis by simp
  qed
qed

lemma paging_init_start:
  assumes "page_addr d" and "d \<notin> A"
  shows "pt_wf {d} A (table_fill d (\<lambda>_. 0) m)" and "built lim 0 d (table_fill d (\<lambda>_. 0) m)"
proof -
  have z: "entry_get (table_fill d (\<lambda>_. 0) m) d i = 0" if "i < 1024" for i
    using assms that by (simp add: entry_get_fill)
  then show "pt_wf {d} A (table_fill d (\<lambda>_. 0) m)" using assms by (simp add: pt_wf_def)
  show "built lim 0 d (table_fill d (\<lambda>_. 0) m)" using z by (simp add: built_def pte_at_def)
qed

lemma paging_init_result:
  assumes p: "pmm_ok (vm_pmm s)" and d: "pg_page_directory (vm_pg s) = d" "page_addr d"
      "d \<notin> avail_frames (vm_pmm s)"
    and h: "pmm_highest_address (vm_pmm s) = h" "h \<le> 0xFFC00000"
  defines "s' \<equiv> paging_init s" and "lim \<equiv> identity_limit h"
  shows "paging_enabled s' \<longleftrightarrow> slots_needed lim \<le> card (avail_frames (vm_pmm s))"
    and "paging_enabled s' \<Longrightarrow> vm_ok {d} s' \<and> built lim (slots_needed lim) d (vm_mem s') \<and>
      paging_active_directory s' = d"
proof -
  note lim = identity_limit_bounds [OF h(2), folded lim_def]
  let ?s0 = "s\<lparr>vm_mem := table_fill d (\<lambda>_. 0) (vm_mem s)\<rparr>"
  obtain r s1 where loop: "paging_init_loop lim [0..<slots_needed lim] ?s0 = (r, s1)" by fastforce
  have "vm_pg s1 = vm_pg ?s0 \<and> pmm_ok (vm_pmm s1) \<and> pt_wf {d} (avail_frames (vm_pmm s1)) (vm_mem s1) \<and>
    (r \<longleftrightarrow> slots_needed lim - 0 \<le> card (avail_frames (vm_pmm ?s0))) \<and>
    (r \<longrightarrow> built lim (slots_needed lim) d (vm_mem s1))"
    by (rule paging_init_loop_built [OF _ _ _ _ _ _ loop])
      (use paging_init_start [OF d(2,3)] p d lim in auto)
  note L = this [simplified]
  have c: "\<not> drop_bit 22 (lim + 0x3FFFFF) > 1024"
    using lim(4,5) by (simp add: word_less_nat_alt)
  have s': "s' = (if r then s1\<lparr>vm_pg := (vm_pg s1)\<lparr>pg_kernel_dir_phys := d, pg_current_dir_phys := d,
      pg_is_enabled := True\<rparr>\<rparr> else s1\<lparr>vm_pg := (vm_pg s1)\<lparr>pg_is_enabled := False\<rparr>\<rparr>)"
    using p c loop lim(4) h(1) d(1) L
    by (simp add: s'_def paging_init_def pmm_ready_def pmm_ok_def Let_def flip: lim_def)
  then show "paging_enabled s' \<longleftrightarrow> slots_needed lim \<le> card (avail_frames (vm_pmm s))"
    using L by (simp add: paging_enabled_def)
  assume "paging_enabled s'"
  then have r using s' by (simp add: paging_enabled_def split: if_splits)
  then have "paging_active_directory s' = d" using s' L d(1) by (simp add: paging_active_directory_def)
  then show "vm_ok {d} s' \<and> built lim (slots_needed lim) d (vm_mem s') \<and> paging_active_directory s' = d"
    using \<open>r\<close> s' L by (simp add: vm_ok_def)
qed

section \<open>Access rights\<close>

lemma and_flag:
  fixes e :: u32
  shows "e AND 1 = (if bit e 0 then 1 else 0)" and "e AND 4 = (if bit e 2 then 4 else 0)"
proof -
  have one: "bit (1 :: u32) n \<longleftrightarrow> n = 0" and four: "bit (4 :: u32) n \<longleftrightarrow> n = 2" for n
  proof -
    have "bit (2 ^ 2 :: u32) n \<longleftrightarrow> possible_bit TYPE(u32) n \<and> n = 2" by (rule bit_exp_iff)
    also have "\<dots> \<longleftrightarrow> n = 2" by (cases "n = 2") simp_all
    finally show "bit (4 :: u32) n \<longleftrightarrow> n = 2" by simp
  qed (simp add: bit_1_iff)
  have "bit (e AND 1) n \<longleftrightarrow> bit (if bit e 0 then 1 else 0 :: u32) n" for n
    by (cases "n = 0"; cases "bit e 0")
      (simp_all only: bit_and_iff one if_True if_False bit_0_eq bot_apply bot_bool_def simp_thms)
  moreover have "bit (e AND 4) n \<longleftrightarrow> bit (if bit e 2 then 4 else 0 :: u32) n" for n
    by (cases "n = 2"; cases "bit e 2")
      (simp_all only: bit_and_iff four if_True if_False bit_0_eq bot_apply bot_bool_def simp_thms)
  ultimately show "e AND 1 = (if bit e 0 then 1 else 0)" "e AND 4 = (if bit e 2 then 4 else 0)"
    by (intro bit_word_eqI; simp)+
qed

lemma user_flags_set_iff: "user_flags_set e \<longleftrightarrow> e AND 1 \<noteq> 0 \<and> e AND 4 \<noteq> 0"
proof -
  have "e AND (1 OR 4) = (e AND 1) OR (e AND 4)" by (simp only: bit.conj_disj_distrib)
  then show ?thesis by (auto simp: user_flags_set_def and_flag split: if_splits)
qed

lemma user_byte_pte:
  "user_byte m d v \<longleftrightarrow> entry_get m d (pd_index v) AND 4 \<noteq> 0 \<and> (\<exists>p. pte_at m d v = Some p \<and> p AND 4 \<noteq> 0)"
  by (auto simp: user_byte_def user_flags_set_iff pte_at_def Let_def)

lemma new_pte:
  fixes phys flags :: u32
  assumes "phys AND 0xFFF = 0"
  shows "(phys OR ((flags OR 1) AND 0xFFF)) AND 0xFFFFF000 = phys"
    and "(phys OR ((flags OR 1) AND 0xFFF)) AND 4 = flags AND 4"
proof -
  have p: "page_addr phys" using assms by (simp add: page_addr_offset)
  show "(phys OR ((flags OR 1) AND 0xFFF)) AND 0xFFFFF000 = phys"
    by (rule table_of_or [OF p low_consts(5)])
  have "((flags OR 1) AND 0xFFF) AND 4 = (flags OR 1) AND (0xFFF AND 4)" by (simp only: and.assoc)
  also have "\<dots> = flags AND 4" by (simp add: bit.conj_disj_distrib2)
  finally show "(phys OR ((flags OR 1) AND 0xFFF)) AND 4 = flags AND 4"
    using flag_of_or [OF p low_consts(2)] by simp
qed

section \<open>Properties\<close>

text \<open>A small machine for the instances: an empty directory at 0x100000 and one free frame.\<close>

definition demo_vm :: "pmm \<Rightarrow> vm" where
  "demo_vm p = \<lparr>vm_pmm = p, vm_pg = \<lparr>pg_page_directory = 0x100000, pg_is_enabled = True,
     pg_kernel_dir_phys = 0x100000, pg_current_dir_phys = 0x100000\<rparr>, vm_mem = (\<lambda>_. 0)\<rparr>"

lemma demo_vm:
  obtains p where "pmm_ok p" "vm_ok {0x100000} (demo_vm p)" "vm_ok {0x100000, 0x101000} (demo_vm p)"
    "avail_frames p \<noteq> {}" "pte_at (vm_mem (demo_vm p)) 0x100000 v = None"
    "pg_is_enabled (vm_pg (demo_vm p))" "paging_active_directory (demo_vm p) = 0x100000"
proof -
  obtain p where p: "pmm_ok p" "avail_frames p = {0x200000}" by (rule demo_init)
  have z: "entry_get (\<lambda>_. 0) t i = 0" for t i by (simp add: entry_get_def load32_def)
  show thesis
    using p by (intro that [of p])
      (auto simp: vm_ok_def demo_vm_def pt_wf_def z pte_at_def paging_active_directory_def page_addr_def)
qed

text \<open>
  C8.  \<open>paging_map_page\<close> implements insertion into the page map of the active directory: it succeeds
  exactly for a page-aligned unmapped page when a page table exists or a frame for one is free; then
  every address of that page translates to the frame and every other address translates as before.
  On failure no translation changes.  The page-table invariant is kept.
\<close>

theorem paging_map_page_correct:
  assumes "vm_ok D s" and "paging_map_page virt phys flags s = (r, s')"
  shows "vm_ok D s' \<and>
    (r \<longleftrightarrow> pg_is_enabled (vm_pg s) \<and> virt AND 0xFFF = 0 \<and> phys AND 0xFFF = 0 \<and>
       paging_translate virt s = None \<and>
       (pres (entry_get (vm_mem s) (paging_active_directory s) (pd_index virt)) \<or> avail_frames (vm_pmm s) \<noteq> {})) \<and>
    (\<forall>v. paging_translate v s' =
       (if r \<and> page_of v = page_of virt then Some (phys OR (v AND 0xFFF)) else paging_translate v s))"
proof -
  note mp = map_page [OF assms]
  have act: "paging_active_directory s' = paging_active_directory s" by (rule active_dir_cong [OF mp(2)])
  have "paging_translate v s' =
      (if r \<and> page_of v = page_of virt then Some (phys OR (v AND 0xFFF)) else paging_translate v s)" for v
  proof (cases "pg_is_enabled (vm_pg s)")
    case True
    then have "paging_active_directory s \<in> D" using assms(1) by (simp add: vm_ok_def)
    with True mp(5) mp(6) [of "paging_active_directory s" v] show ?thesis
      by (auto simp: translate_pte mp(2) act new_pte)
  next
    case False
    with mp(5) show ?thesis by (simp add: translate_pte mp(2))
  qed
  with mp(1,5) show ?thesis by (auto simp: translate_pte)
qed

theorem paging_map_page_correct_witness:
  "\<exists>s s'. vm_ok {0x100000} s \<and> paging_map_page 0x40000000 0x5000 3 s = (True, s') \<and>
     paging_translate 0x40000123 s' = Some 0x5123"
proof -
  obtain p where p: "vm_ok {0x100000} (demo_vm p)" "avail_frames p \<noteq> {}"
    "pte_at (vm_mem (demo_vm p)) 0x100000 0x40000000 = None" "pg_is_enabled (vm_pg (demo_vm p))"
    "paging_active_directory (demo_vm p) = 0x100000" by (rule demo_vm)
  obtain r s' where r: "paging_map_page 0x40000000 0x5000 3 (demo_vm p) = (r, s')" by fastforce
  have tr: "paging_translate 0x40000000 (demo_vm p) = None" using p by (simp add: translate_pte)
  have pg: "page_of 0x40000123 = page_of 0x40000000" by (simp add: page_of_def)
  have "r" using paging_map_page_correct [OF p(1) r] p tr by (simp add: demo_vm_def)
  with paging_map_page_correct [OF p(1) r] pg have "paging_translate 0x40000123 s' = Some 0x5123" by simp
  with p(1) r \<open>r\<close> show ?thesis by auto
qed

text \<open>
  \<open>paging_unmap_page\<close> implements deletion: it succeeds exactly for an aligned mapped page, after
  which no address of the page translates and every other address translates as before; otherwise
  nothing at all changes.
\<close>

theorem paging_unmap_page_correct:
  assumes "vm_ok D s" and "paging_unmap_page virt s = (r, s')"
  shows "vm_ok D s' \<and>
    (r \<longleftrightarrow> pg_is_enabled (vm_pg s) \<and> virt AND 0xFFF = 0 \<and> paging_translate virt s \<noteq> None) \<and>
    (\<not> r \<longrightarrow> s' = s) \<and>
    (\<forall>v. paging_translate v s' = (if r \<and> page_of v = page_of virt then None else paging_translate v s))"
proof -
  note um = unmap_page [OF assms]
  have act: "paging_active_directory s' = paging_active_directory s" by (rule active_dir_cong [OF um(2)])
  have "paging_translate v s' = (if r \<and> page_of v = page_of virt then None else paging_translate v s)" for v
  proof (cases "pg_is_enabled (vm_pg s)")
    case True
    then have "paging_active_directory s \<in> D" using assms(1) by (simp add: vm_ok_def)
    with True um(6) [of "paging_active_directory s" v] show ?thesis by (simp add: translate_pte um(2) act)
  next
    case False
    with um(4) show ?thesis by (simp add: translate_pte um(2))
  qed
  with um(1,4,5) show ?thesis by (auto simp: translate_pte)
qed

theorem paging_unmap_page_correct_witness:
  "\<exists>s s' s''. vm_ok {0x100000} s' \<and> paging_map_page 0x40000000 0x5000 3 s = (True, s') \<and>
     paging_unmap_page 0x40000000 s' = (True, s'') \<and> paging_translate 0x40000123 s'' = None"
proof -
  obtain p where p: "vm_ok {0x100000} (demo_vm p)" "avail_frames p \<noteq> {}"
    "pte_at (vm_mem (demo_vm p)) 0x100000 0x40000000 = None" "pg_is_enabled (vm_pg (demo_vm p))"
    "paging_active_directory (demo_vm p) = 0x100000" by (rule demo_vm)
  obtain r s' where r: "paging_map_page 0x40000000 0x5000 3 (demo_vm p) = (r, s')" by fastforce
  note mp = map_page [OF p(1) r]
  have "r" using mp(5) p by (simp add: demo_vm_def)
  have act: "paging_active_directory s' = 0x100000" using active_dir_cong [OF mp(2)] p by simp
  have tr: "paging_translate 0x40000000 s' \<noteq> None"
    using mp(6) [of "0x100000" "0x40000000"] \<open>r\<close> p mp(2) act by (simp add: translate_pte)
  obtain r' s'' where u: "paging_unmap_page 0x40000000 s' = (r', s'')" by fastforce
  have pg: "page_of 0x40000123 = page_of 0x40000000" by (simp add: page_of_def)
  from paging_unmap_page_correct [OF mp(1) u] tr mp(2) p(4)
  have "r'" "paging_translate 0x40000123 s'' = None" using pg by auto
  with mp(1) r u \<open>r\<close> show ?thesis by auto
qed

text \<open>
  C21.  Address-space isolation: mapping a page in the active directory leaves every mapping of any
  other directory untouched, unless that directory shares the very table (the kernel tables that
  clones have in common).
\<close>

theorem paging_map_page_isolated:
  assumes "vm_ok D s" and "paging_map_page virt phys flags s = (r, s')"
    and "d' \<in> D" "d' \<noteq> paging_active_directory s"
    and "\<not> shares (vm_mem s) (paging_active_directory s) d' (pd_index virt)"
  shows "pte_at (vm_mem s') d' v = pte_at (vm_mem s) d' v \<and>
    user_byte (vm_mem s') d' v = user_byte (vm_mem s) d' v"
  using map_page(6) [OF assms(1,2,3), of v] map_page(7) [OF assms(1,2,3), of "pd_index v"] assms(4,5)
  by (simp add: user_byte_pte)

theorem paging_map_page_isolated_witness:
  "\<exists>s r s'. vm_ok {0x100000, 0x101000} s \<and> paging_map_page 0x40000000 0x5000 7 s = (r, s') \<and>
     pte_at (vm_mem s') 0x101000 0x40000000 = pte_at (vm_mem s) 0x101000 0x40000000"
proof -
  obtain p where p: "vm_ok {0x100000, 0x101000} (demo_vm p)"
    "paging_active_directory (demo_vm p) = 0x100000" by (rule demo_vm)
  obtain r s' where r: "paging_map_page 0x40000000 0x5000 7 (demo_vm p) = (r, s')" by fastforce
  have "\<not> shares (vm_mem (demo_vm p)) (paging_active_directory (demo_vm p)) 0x101000 (pd_index 0x40000000)"
    by (simp add: shares_def demo_vm_def entry_get_def load32_def)
  from paging_map_page_isolated [OF p(1) r _ _ this] p(2)
  have "pte_at (vm_mem s') 0x101000 0x40000000 = pte_at (vm_mem (demo_vm p)) 0x101000 0x40000000" by simp
  with p(1) r show ?thesis by blast
qed

text \<open>
  No privilege escalation through kernel mappings: a mapping without the user flag never makes
  an address of any address space accessible to user code.
\<close>

theorem paging_map_kernel_not_user:
  assumes "vm_ok D s" and "paging_map_page virt phys flags s = (r, s')"
    and "flags AND PAGING_FLAG_USER = 0" and "d' \<in> D" and "user_byte (vm_mem s') d' v"
  shows "user_byte (vm_mem s) d' v"
proof -
  let ?d = "paging_active_directory s"
  note mp = map_page [OF assms(1,2)]
  obtain p where p: "pte_at (vm_mem s') d' v = Some p" "p AND 4 \<noteq> 0"
    and e: "entry_get (vm_mem s') d' (pd_index v) AND 4 \<noteq> 0"
    using assms(5) by (auto simp: user_byte_pte)
  have "(phys OR ((flags OR 1) AND 0xFFF)) AND 4 = 0" if r
    using new_pte(2) [of phys flags] mp(5) that assms(3) by simp
  then have old: "pte_at (vm_mem s) d' v = Some p"
    using mp(6) [OF assms(4), of v] p by (auto split: if_splits)
  have "entry_get (vm_mem s) d' (pd_index v) AND 4 \<noteq> 0"
  proof (cases "(d', pd_index v) = (?d, pd_index virt)")
    case True
    with mp(8) assms(3,4) e show ?thesis by auto
  next
    case False
    with mp(7) [OF assms(4) pd_index_less False] e show ?thesis by simp
  qed
  with old p(2) show ?thesis by (auto simp: user_byte_pte)
qed

text \<open>A directory with one user page, at 0x40000000.\<close>

definition demo_user_vm :: "pmm \<Rightarrow> vm" where
  "demo_user_vm p = (demo_vm p)\<lparr>vm_mem :=
     entry_set (entry_set (\<lambda>_. 0) 0x100000 256 0x300007) 0x300000 0 0x5007\<rparr>"

lemma demo_user_vm:
  assumes "pmm_ok p" and "avail_frames p = {0x200000}"
  shows "vm_ok {0x100000} (demo_user_vm p)"
    and "user_byte (vm_mem (demo_user_vm p)) 0x100000 0x40000000"
proof -
  have pa: "page_addr 0x100000" "page_addr 0x300000" by (simp_all add: page_addr_def)
  have z: "entry_get (\<lambda>_. 0) t i = 0" for t i by (simp add: entry_get_def load32_def)
  have d: "entry_get (vm_mem (demo_user_vm p)) 0x100000 i = (if i = 256 then 0x300007 else 0)" if "i < 1024" for i
    using pa that by (simp add: demo_user_vm_def entry_get_set z)
  show "vm_ok {0x100000} (demo_user_vm p)"
    using assms pa d by (simp add: vm_ok_def pt_wf_def demo_user_vm_def demo_vm_def paging_active_directory_def)
  have "entry_get (vm_mem (demo_user_vm p)) 0x300000 0 = 0x5007"
    using pa by (simp add: demo_user_vm_def entry_get_set)
  then show "user_byte (vm_mem (demo_user_vm p)) 0x100000 0x40000000"
    using d [of 256] by (simp add: user_byte_def user_flags_set_def pd_index_def pt_index_def)
qed

theorem paging_map_kernel_not_user_witness:
  "\<exists>s r s'. vm_ok {0x100000} s \<and> paging_map_page 0x40000000 0x6000 3 s = (r, s') \<and>
     user_byte (vm_mem s') 0x100000 0x40000000 \<and> user_byte (vm_mem s) 0x100000 0x40000000"
proof -
  obtain p where p: "pmm_ok p" "avail_frames p = {0x200000}" by (rule demo_init)
  note d = demo_user_vm [OF p]
  obtain r s' where r: "paging_map_page 0x40000000 0x6000 3 (demo_user_vm p) = (r, s')" by fastforce
  have act: "paging_active_directory (demo_user_vm p) = 0x100000"
    by (simp add: demo_user_vm_def demo_vm_def paging_active_directory_def)
  have "pte_at (vm_mem (demo_user_vm p)) 0x100000 0x40000000 \<noteq> None"
    using d(2) by (auto simp: user_byte_pte)
  then have "\<not> r" using map_page(5) [OF d(1) r] act by simp
  moreover have "s' = demo_user_vm p"
    using r d(2) act by (auto simp: paging_map_page_def paging_ensure_table_def Let_def user_byte_def
        user_flags_set_iff demo_user_vm_def demo_vm_def split: if_splits)
  ultimately have "user_byte (vm_mem s') 0x100000 0x40000000" using d(2) by simp
  moreover from paging_map_kernel_not_user [OF d(1) r _ _ this]
  have "user_byte (vm_mem (demo_user_vm p)) 0x100000 0x40000000" by simp
  ultimately show ?thesis using d(1) r by blast
qed

text \<open>
  C20.  \<open>paging_user_accessible\<close> is exact: it holds iff paging is on, the range is non-empty and does
  not wrap around the address space, and every single byte of it is present and user accessible at
  both table levels.
\<close>

theorem paging_user_accessible_exact:
  "paging_user_accessible virt sz s \<longleftrightarrow> pg_is_enabled (vm_pg s) \<and> sz \<noteq> 0 \<and>
     unat virt + unat sz \<le> 2 ^ 32 \<and>
     list_all (\<lambda>k. user_byte (vm_mem s) (paging_active_directory s) (virt + of_nat k)) [0..<unat sz]"
  using user_accessible_iff [of virt sz s] by (simp add: list_all_iff Ball_def)

text \<open>
  C17.  \<open>paging_clone_kernel_directory\<close> gives a new address space a fresh directory that has exactly
  the kernel's non-user mappings and no user-accessible byte, and changes no existing mapping; the
  extended set of directories is again well formed.
\<close>

theorem paging_clone_correct:
  assumes "vm_ok D s" and "paging_clone_kernel_directory s = (Some f, s')"
  shows "vm_ok (insert f D) s' \<and> f \<notin> D \<and> f \<in> avail_frames (vm_pmm s) \<and>
    (\<forall>v. \<not> user_byte (vm_mem s') f v) \<and>
    (\<forall>v. pte_at (vm_mem s') f v =
       (if entry_get (vm_mem s) (pg_kernel_dir_phys (vm_pg s)) (pd_index v) AND PAGING_FLAG_USER \<noteq> 0 then None
        else pte_at (vm_mem s) (pg_kernel_dir_phys (vm_pg s)) v)) \<and>
    (\<forall>d \<in> D. \<forall>v. pte_at (vm_mem s') d v = pte_at (vm_mem s) d v)"
  using clone_effect [OF assms] by (auto simp: user_byte_pte clone_entry_def)

theorem paging_clone_correct_witness:
  "\<exists>s f s'. vm_ok {0x100000} s \<and> user_byte (vm_mem s) 0x100000 0x40000000 \<and>
     paging_clone_kernel_directory s = (Some f, s') \<and> \<not> user_byte (vm_mem s') f 0x40000000 \<and>
     vm_ok {f, 0x100000} s'"
proof -
  obtain p where p: "pmm_ok p" "avail_frames p = {0x200000}" by (rule demo_init)
  note d = demo_user_vm [OF p]
  have en: "pg_is_enabled (vm_pg (demo_user_vm p))" "vm_pmm (demo_user_vm p) = p"
    by (simp_all add: demo_user_vm_def demo_vm_def)
  obtain f s' where c: "paging_clone_kernel_directory (demo_user_vm p) = (Some f, s')"
    by (rule clone_cases [OF d(1) en(1)]) (use p en in auto)
  from paging_clone_correct [OF d(1) c] d c show ?thesis by blast
qed

text \<open>
  The rounding of the directory count wraps: when the highest usable address lies in the last
  4 MiB of the address space, the count is computed as 0 and \<open>paging_init\<close> switches paging on with
  an empty directory in which no address translates, the kernel's own code included.
\<close>

lemma paging_init_count_wraps:
  assumes "pmm_ok (vm_pmm s)" "page_addr (pg_page_directory (vm_pg s))"
    and "0xFFC00000 < pmm_highest_address (vm_pmm s)" "pmm_highest_address (vm_pmm s) \<le> 0xFFFFF000"
  shows "paging_enabled (paging_init s) \<and> paging_translate v (paging_init s) = None"
proof -
  let ?h = "pmm_highest_address (vm_pmm s)" and ?d = "pg_page_directory (vm_pg s)"
  let ?m = "table_fill ?d (\<lambda>_. 0) (vm_mem s)"
  let ?lim = "identity_limit ?h"
  have h: "4290772992 < unat ?h" "unat ?h \<le> 4294963200"
    using assms(3,4) by (simp_all add: word_less_nat_alt word_le_nat_alt)
  have up: "unat (align_up_4k ?h) = (unat ?h + 4095) div 4096 * 4096" using h by (simp add: unat_align_up)
  then have ge: "4290772992 < unat (align_up_4k ?h)" using h by linarith
  then have lim: "?lim = align_up_4k ?h" by (simp add: identity_limit_def Let_def word_less_nat_alt)
  have "unat (?lim + 0x3FFFFF) = unat ?lim + 4194303 - 4294967296"
    using ge up h unfolding lim by (simp add: unat_word_ariths mod_if)
  then have "unat (drop_bit 22 (?lim + 0x3FFFFF)) = 0"
    using up h unfolding lim by (simp add: drop_bit_eq_div unat_div)
  then have c: "drop_bit 22 (?lim + 0x3FFFFF) = 0" by (simp add: unat_eq_zero)
  have s': "paging_init s = s\<lparr>vm_mem := ?m, vm_pg := (vm_pg s)\<lparr>pg_kernel_dir_phys := ?d,
      pg_current_dir_phys := ?d, pg_is_enabled := True\<rparr>\<rparr>"
    using assms(1) c by (simp add: paging_init_def pmm_ready_def pmm_ok_def Let_def)
  have "entry_get ?m ?d (pd_index v) = 0" using assms(2) by (simp add: entry_get_fill)
  then have none: "pte_at ?m ?d v = None" by (simp add: pte_at_def Let_def)
  have "paging_active_directory (paging_init s) = ?d" by (simp add: s' paging_active_directory_def)
  with none show ?thesis by (simp add: translate_pte) (simp add: s' paging_enabled_def)
qed

text \<open>
  C25.  Boot identity map.  If the highest usable address is at most 0xFFC00000, \<open>paging_init\<close> turns
  paging on iff there are enough frames for the tables, and then every address below the limit
  translates to itself, no address above it translates, nothing is user accessible, and the
  page-table invariant holds.  If it lies in the last 4 MiB, the rounding of the directory count wraps to 0 and
  paging is turned on with a directory in which no address translates.
\<close>

theorem paging_init_identity:
  assumes "pmm_ok (vm_pmm s)" "pg_page_directory (vm_pg s) = d" "page_addr d" "d \<notin> avail_frames (vm_pmm s)"
    and "pmm_highest_address (vm_pmm s) = h" "page_addr h"
  shows "if h \<le> 0xFFC00000 then
      (paging_enabled (paging_init s) \<longleftrightarrow> slots_needed (identity_limit h) \<le> card (avail_frames (vm_pmm s))) \<and>
      (paging_enabled (paging_init s) \<longrightarrow> vm_ok {d} (paging_init s) \<and>
        (\<forall>v. paging_translate v (paging_init s) = (if v < identity_limit h then Some v else None)) \<and>
        (\<forall>v. \<not> user_byte (vm_mem (paging_init s)) d v))
    else paging_enabled (paging_init s) \<and> (\<forall>v. paging_translate v (paging_init s) = None)"
proof -
  have le: "unat h \<le> 4294963200"
    using assms(6) unat_u32_less [of h] by (auto simp: page_addr_def mod_eq_0_iff_dvd elim!: dvdE)
  show ?thesis
  proof (cases "h \<le> 0xFFC00000")
    case False
    then have "0xFFC00000 < h" "h \<le> 0xFFFFF000" using le by (simp_all add: word_le_nat_alt word_less_nat_alt)
    with False show ?thesis using paging_init_count_wraps [of s] assms(1-3,5) by simp
  next
    case True
    note res = paging_init_result [OF assms(1-5) True]
    have "(paging_enabled (paging_init s) \<longleftrightarrow> slots_needed (identity_limit h) \<le> card (avail_frames (vm_pmm s))) \<and>
      (paging_enabled (paging_init s) \<longrightarrow> vm_ok {d} (paging_init s) \<and>
        (\<forall>v. paging_translate v (paging_init s) = (if v < identity_limit h then Some v else None)) \<and>
        (\<forall>v. \<not> user_byte (vm_mem (paging_init s)) d v))"
    proof (intro conjI impI allI)
      assume en: "paging_enabled (paging_init s)"
      note r = res(2) [OF en]
      show "vm_ok {d} (paging_init s)" using r by simp
      fix v
      show "paging_translate v (paging_init s) = (if v < identity_limit h then Some v else None)"
        using built_translate [of "identity_limit h" d "vm_mem (paging_init s)" v] r en
          identity_limit_bounds(2) [OF True]
        by (simp add: translate_pte paging_enabled_def)
      have "entry_get (vm_mem (paging_init s)) d (pd_index v) AND 4 = 0"
        using r built_kernel pd_index_less by blast
      then show "\<not> user_byte (vm_mem (paging_init s)) d v" by (simp add: user_byte_pte)
    qed (rule res(1))
    with True show ?thesis by simp
  qed
qed

theorem paging_init_identity_witness:
  "\<exists>s. paging_translate 0x123456 (paging_init s) = Some 0x123456 \<and>
     paging_translate 0x500000 (paging_init s) = None"
proof -
  obtain p where p: "pmm_ok p" "avail_frames p = {0x200000}" "pmm_highest_end p = 0x201000" by (rule demo_init)
  let ?s = "demo_vm p"
  have pre: "pmm_ok (vm_pmm ?s)" "pg_page_directory (vm_pg ?s) = 0x100000" "page_addr 0x100000"
    "0x100000 \<notin> avail_frames (vm_pmm ?s)" "pmm_highest_address (vm_pmm ?s) = 0x201000" "page_addr 0x201000"
    using p by (simp_all add: demo_vm_def page_addr_def pmm_highest_address_def pmm_ok_def)
  have lim: "identity_limit 0x201000 = 0x400000" by (simp add: identity_limit_def align_up_4k_def)
  have "slots_needed (identity_limit 0x201000) \<le> card (avail_frames (vm_pmm ?s))"
    using p by (simp add: lim slots_needed_def demo_vm_def)
  with paging_init_identity [OF pre] have "paging_translate v (paging_init ?s) = (if v < 0x400000 then Some v else None)" for v
    by (simp add: lim)
  then show ?thesis by (intro exI [of _ ?s]) simp
qed

end
