(* ===== verification/Kheap.thy ===== *)
theory Kheap
  imports Paging
begin

text \<open>
  The kernel heap of \<open>kheap.c\<close>: a doubly linked list of block headers that starts at 0xD0000000, with
  splitting, coalescing and growth by whole pages.  Headers live in a store from addresses to
  \<open>heap_block\<close> records, so that every pointer write of the C code is one store update; the payload
  bytes are not interpreted here.  The store is related to the abstract heap, a list of
  (payload size, free) pairs laid out contiguously: a header takes 16 bytes, its payload follows, and
  the next header follows the payload.
\<close>

section \<open>State\<close>

record heap_block =
  hb_size :: u32
  hb_free :: u32
  hb_next :: u32
  hb_prev :: u32

record kheap =
  hp_blocks :: "u32 \<Rightarrow> heap_block"
  hp_head :: u32
  hp_end :: u32
  hp_total :: u32
  hp_used :: u32
  hp_ready :: bool

record kmem =
  km_vm :: vm
  km_heap :: kheap

abbreviation (input) KHEAP_START :: u32 where "KHEAP_START \<equiv> 0xD0000000"
abbreviation (input) KHEAP_INITIAL_PAGES :: nat where "KHEAP_INITIAL_PAGES \<equiv> 16"
abbreviation (input) KHEAP_GROW_PAGES :: nat where "KHEAP_GROW_PAGES \<equiv> 8"
abbreviation (input) HB_BYTES :: u32 where "HB_BYTES \<equiv> 16"

type_synonym block_store = "u32 \<Rightarrow> heap_block"

section \<open>Operations\<close>

definition align_up_8 :: "u32 \<Rightarrow> u32" where
  "align_up_8 v = (v + 7) AND NOT 7"

definition heap_split_block :: "u32 \<Rightarrow> u32 \<Rightarrow> block_store \<Rightarrow> block_store" where
  "heap_split_block block sz st =
     (if hb_size (st block) \<le> sz + HB_BYTES + 8 then st
      else
        let new_block = block + HB_BYTES + sz;
            st1 = st(new_block := \<lparr>hb_size = hb_size (st block) - sz - HB_BYTES, hb_free = 1,
                       hb_next = hb_next (st block), hb_prev = block\<rparr>);
            nx = hb_next (st1 block);
            st2 = (if nx \<noteq> 0 then st1(nx := (st1 nx)\<lparr>hb_prev := new_block\<rparr>) else st1);
            st3 = st2(block := (st2 block)\<lparr>hb_next := new_block\<rparr>)
        in st3(block := (st3 block)\<lparr>hb_size := sz\<rparr>))"

definition heap_merge_next :: "u32 \<Rightarrow> block_store \<Rightarrow> block_store" where
  "heap_merge_next block st =
     (if hb_next (st block) \<noteq> 0 \<and> hb_free (st (hb_next (st block))) \<noteq> 0 then
        let nx = hb_next (st block);
            st1 = st(block := (st block)\<lparr>hb_size := hb_size (st block) + (HB_BYTES + hb_size (st nx))\<rparr>);
            st2 = st1(block := (st1 block)\<lparr>hb_next := hb_next (st1 nx)\<rparr>);
            nn = hb_next (st2 block)
        in if nn \<noteq> 0 then st2(nn := (st2 nn)\<lparr>hb_prev := block\<rparr>) else st2
      else st)"

definition heap_merge_prev :: "u32 \<Rightarrow> block_store \<Rightarrow> block_store" where
  "heap_merge_prev block st =
     (if hb_prev (st block) \<noteq> 0 \<and> hb_free (st (hb_prev (st block))) \<noteq> 0 then
        let pv = hb_prev (st block);
            st1 = st(pv := (st pv)\<lparr>hb_size := hb_size (st pv) + (HB_BYTES + hb_size (st block))\<rparr>);
            st2 = st1(pv := (st1 pv)\<lparr>hb_next := hb_next (st1 block)\<rparr>);
            nn = hb_next (st2 block)
        in if nn \<noteq> 0 then st2(nn := (st2 nn)\<lparr>hb_prev := pv\<rparr>) else st2
      else st)"

definition heap_coalesce :: "u32 \<Rightarrow> block_store \<Rightarrow> block_store" where
  "heap_coalesce block st = heap_merge_prev block (heap_merge_next block st)"

text \<open>\<open>while (tail->next != 0) tail = tail->next;\<close>  None stands for a list that never ends.\<close>

partial_function (option) heap_tail :: "block_store \<Rightarrow> u32 \<Rightarrow> u32 option" where
  "heap_tail st tail = (if hb_next (st tail) \<noteq> 0 then heap_tail st (hb_next (st tail)) else Some tail)"

definition heap_append_page :: "u32 \<Rightarrow> block_store \<Rightarrow> block_store" where
  "heap_append_page tail st =
     (if hb_free (st tail) \<noteq> 0 then st(tail := (st tail)\<lparr>hb_size := hb_size (st tail) + 4096\<rparr>)
      else
        let new_block = tail + HB_BYTES + hb_size (st tail);
            st1 = st(new_block := \<lparr>hb_size = 4096 - HB_BYTES, hb_free = 1, hb_next = 0, hb_prev = tail\<rparr>)
        in st1(tail := (st1 tail)\<lparr>hb_next := new_block\<rparr>))"

fun heap_map_more :: "nat \<Rightarrow> kmem \<Rightarrow> (bool \<times> kmem) option" where
  "heap_map_more 0 s = Some (True, s)"
| "heap_map_more (Suc n) s =
     (let (phys, p) = pmm_alloc_frame (vm_pmm (km_vm s));
          s1 = s\<lparr>km_vm := (km_vm s)\<lparr>vm_pmm := p\<rparr>\<rparr>;
          virt = hp_end (km_heap s) in
      if phys = 0 then Some (False, s1)
      else
        let (ok, v) = paging_map_page virt phys (PAGING_FLAG_PRESENT OR PAGING_FLAG_RW) (km_vm s1);
            s2 = s1\<lparr>km_vm := v\<rparr> in
        if \<not> ok then Some (False, s2)
        else
          let h = (km_heap s2)\<lparr>hp_end := hp_end (km_heap s2) + 4096, hp_total := hp_total (km_heap s2) + 4096\<rparr> in
          case heap_tail (hp_blocks h) (hp_head h) of
            None \<Rightarrow> None
          | Some tail \<Rightarrow> heap_map_more n (s2\<lparr>km_heap := h\<lparr>hp_blocks := heap_append_page tail (hp_blocks h)\<rparr>\<rparr>))"

text \<open>The first loop of \<open>kheap_init\<close>, from page \<open>i\<close> on.\<close>

fun kheap_map_initial :: "nat list \<Rightarrow> vm \<Rightarrow> bool \<times> vm" where
  "kheap_map_initial [] v = (True, v)"
| "kheap_map_initial (i # is) v =
     (let (phys, p) = pmm_alloc_frame (vm_pmm v);
          v1 = v\<lparr>vm_pmm := p\<rparr>;
          virt = KHEAP_START + of_nat i * 4096 in
      if phys = 0 then (False, v1)
      else
        let (ok, v2) = paging_map_page virt phys (PAGING_FLAG_PRESENT OR PAGING_FLAG_RW) v1 in
        if \<not> ok then (False, v2) else kheap_map_initial is v2)"

definition kheap_init :: "kmem \<Rightarrow> bool \<times> kmem" where
  "kheap_init s =
     (let (ok, v) = kheap_map_initial [0..<KHEAP_INITIAL_PAGES] (km_vm s); s1 = s\<lparr>km_vm := v\<rparr> in
      if \<not> ok then (False, s1)
      else (True, s1\<lparr>km_heap :=
         \<lparr>hp_blocks = (hp_blocks (km_heap s1))(KHEAP_START := \<lparr>hb_size = of_nat KHEAP_INITIAL_PAGES * 4096 - HB_BYTES,
            hb_free = 1, hb_next = 0, hb_prev = 0\<rparr>),
          hp_head = KHEAP_START, hp_end = KHEAP_START + of_nat KHEAP_INITIAL_PAGES * 4096,
          hp_total = of_nat KHEAP_INITIAL_PAGES * 4096, hp_used = 0, hp_ready = True\<rparr>\<rparr>))"

text \<open>The scan for the first free block that is large enough; address 0 is "none".\<close>

partial_function (option) heap_find :: "block_store \<Rightarrow> u32 \<Rightarrow> u32 \<Rightarrow> u32 option" where
  "heap_find st want block =
     (if block \<noteq> 0 then
        if hb_free (st block) \<noteq> 0 \<and> hb_size (st block) \<ge> want then Some block
        else heap_find st want (hb_next (st block))
      else Some 0)"

definition heap_take :: "u32 \<Rightarrow> u32 \<Rightarrow> kheap \<Rightarrow> kheap" where
  "heap_take block want h =
     (let st1 = heap_split_block block want (hp_blocks h);
          st2 = st1(block := (st1 block)\<lparr>hb_free := 0\<rparr>)
      in h\<lparr>hp_blocks := st2, hp_used := hp_used h + hb_size (st2 block)\<rparr>)"

partial_function (option) kmalloc_loop :: "u32 \<Rightarrow> kmem \<Rightarrow> (u32 \<times> kmem) option" where
  "kmalloc_loop want s =
     (case heap_find (hp_blocks (km_heap s)) want (hp_head (km_heap s)) of
        None \<Rightarrow> None
      | Some block \<Rightarrow>
          if block \<noteq> 0 then Some (block + HB_BYTES, s\<lparr>km_heap := heap_take block want (km_heap s)\<rparr>)
          else case heap_map_more KHEAP_GROW_PAGES s of
            None \<Rightarrow> None
          | Some r \<Rightarrow> if \<not> fst r then Some (0, snd r) else kmalloc_loop want (snd r))"

definition kmalloc :: "u32 \<Rightarrow> kmem \<Rightarrow> (u32 \<times> kmem) option" where
  "kmalloc sz s =
     (if \<not> hp_ready (km_heap s) \<or> sz = 0 then Some (0, s)
      else if sz > 0x7FFFFFFF then Some (0, s)
      else kmalloc_loop (align_up_8 sz) s)"

definition kfree :: "u32 \<Rightarrow> kmem \<Rightarrow> kmem" where
  "kfree ptr s =
     (let h = km_heap s in
      if \<not> hp_ready h \<or> ptr = 0 then s
      else if ptr < KHEAP_START + HB_BYTES \<or> ptr \<ge> hp_end h then s
      else
        let block = ptr - HB_BYTES; st = hp_blocks h in
        if hb_free (st block) \<noteq> 0 then s
        else
          let st1 = st(block := (st block)\<lparr>hb_free := 1\<rparr>);
              used = (if hp_used h \<ge> hb_size (st1 block) then hp_used h - hb_size (st1 block) else 0)
          in s\<lparr>km_heap := h\<lparr>hp_used := used, hp_blocks := heap_coalesce block st1\<rparr>\<rparr>)"

definition kheap_total_bytes :: "kmem \<Rightarrow> u32" where
  "kheap_total_bytes s = hp_total (km_heap s)"

definition kheap_used_bytes :: "kmem \<Rightarrow> u32" where
  "kheap_used_bytes s = hp_used (km_heap s)"

section \<open>The abstract heap\<close>

type_synonym blk = "nat \<times> bool"

fun span :: "blk list \<Rightarrow> nat" where
  "span [] = 0"
| "span ((n, f) # xs) = 16 + n + span xs"

text \<open>Addresses of the headers of the blocks laid out from \<open>a\<close>.\<close>

fun starts :: "nat \<Rightarrow> blk list \<Rightarrow> nat list" where
  "starts a [] = []"
| "starts a ((n, f) # xs) = a # starts (a + 16 + n) xs"

text \<open>The header of the last block, or \<open>p\<close> if there is none.\<close>

fun last_start :: "nat \<Rightarrow> nat \<Rightarrow> blk list \<Rightarrow> nat" where
  "last_start p a [] = p"
| "last_start p a ((n, f) # xs) = last_start a (a + 16 + n) xs"

fun heap_seg :: "block_store \<Rightarrow> nat \<Rightarrow> nat \<Rightarrow> blk list \<Rightarrow> nat \<Rightarrow> bool" where
  "heap_seg st p a [] nx = True"
| "heap_seg st p a ((n, f) # xs) nx =
     (unat (hb_size (st (of_nat a))) = n \<and> (hb_free (st (of_nat a)) \<noteq> 0) = f \<and>
      hb_prev (st (of_nat a)) = of_nat p \<and>
      hb_next (st (of_nat a)) = of_nat (if xs = [] then nx else a + 16 + n) \<and>
      heap_seg st a (a + 16 + n) xs nx)"

lemma span_append [simp]: "span (xs @ ys) = span xs + span ys"
  by (induction xs) auto

lemma starts_append: "starts a (xs @ ys) = starts a xs @ starts (a + span xs) ys"
  by (induction xs arbitrary: a) (auto simp: add.assoc)

lemma starts_bounds: "b \<in> set (starts a xs) \<Longrightarrow> a \<le> b \<and> b + 16 \<le> a + span xs"
  by (induction xs arbitrary: a) fastforce+

lemma last_start_cases: "xs \<noteq> [] \<Longrightarrow> last_start p a xs \<in> set (starts a xs)"
proof (induction xs arbitrary: p a)
  case (Cons x xs)
  obtain n f where x: "x = (n, f)" by (cases x)
  with Cons show ?case by (cases "xs = []") auto
qed simp

lemma last_start_append: "last_start p a (xs @ [(n, f)]) = a + span xs"
  by (induction xs arbitrary: p a) auto

lemma heap_seg_append:
  "heap_seg st p a (xs @ ys) nx \<longleftrightarrow>
   heap_seg st p a xs (if ys = [] then nx else a + span xs) \<and>
   heap_seg st (last_start p a xs) (a + span xs) ys nx"
  by (induction xs arbitrary: p a) (auto simp: add.assoc)

lemma heap_seg_cong:
  "(\<And>b. b \<in> set (starts a xs) \<Longrightarrow> st' (of_nat b) = st (of_nat b)) \<Longrightarrow>
   heap_seg st' p a xs nx = heap_seg st p a xs nx"
  by (induction xs arbitrary: p a) auto

lemma unat_of_nat_u32: "a < 4294967296 \<Longrightarrow> unat (of_nat a :: u32) = a"
  by (simp add: unat_of_nat)

lemma heap_seg_upd:
  assumes "x \<notin> set (starts a xs)" "x < 4294967296" "a + span xs \<le> 4294967296"
  shows "heap_seg (st(of_nat x := h)) p a xs nx = heap_seg st p a xs nx"
proof (rule heap_seg_cong)
  fix b assume b: "b \<in> set (starts a xs)"
  then have "b < 4294967296" "b \<noteq> x" using starts_bounds [OF b] assms by auto
  then show "(st(of_nat x := h)) (of_nat b) = st (of_nat b)" using assms(2) by (simp add: of_nat_u32_eq)
qed

lemma starts_outside:
  "x < a \<Longrightarrow> x \<notin> set (starts a xs)" "a + span xs \<le> x + 15 \<Longrightarrow> x \<notin> set (starts a xs)"
  using starts_bounds [of x a xs] by auto

text \<open>Relinking the first block of a segment to a new predecessor.\<close>

lemma heap_seg_relink:
  assumes "heap_seg st p a zs nx" "a + span zs \<le> 4294967296" "zs \<noteq> []"
  shows "heap_seg (st(of_nat a := (st (of_nat a))\<lparr>hb_prev := of_nat q\<rparr>)) q a zs nx"
proof -
  obtain n f zs' where zs: "zs = (n, f) # zs'" using assms(3) by (cases zs) auto
  have "heap_seg (st(of_nat a := (st (of_nat a))\<lparr>hb_prev := of_nat q\<rparr>)) a (a + 16 + n) zs' nx =
      heap_seg st a (a + 16 + n) zs' nx"
    using assms(2) zs by (intro heap_seg_upd starts_outside(1)) auto
  with assms(1) zs show ?thesis by simp
qed

text \<open>The whole heap, with one block singled out.\<close>

lemma heap_seg_at:
  "heap_seg st p a (ys @ (n, f) # zs) 0 \<longleftrightarrow>
   heap_seg st p a ys (a + span ys) \<and>
   unat (hb_size (st (of_nat (a + span ys)))) = n \<and> (hb_free (st (of_nat (a + span ys))) \<noteq> 0) = f \<and>
   hb_prev (st (of_nat (a + span ys))) = of_nat (last_start p a ys) \<and>
   hb_next (st (of_nat (a + span ys))) = of_nat (if zs = [] then 0 else a + span ys + 16 + n) \<and>
   heap_seg st (a + span ys) (a + span ys + 16 + n) zs 0"
  by (simp add: heap_seg_append)

lemma of_nat_u32_eq_0: "a < 4294967296 \<Longrightarrow> (of_nat a :: u32) = 0 \<longleftrightarrow> a = 0"
  using of_nat_u32_eq [of a 0] by simp

lemma heap_split_rep:
  assumes rep: "heap_seg st 0 a (ys @ (n, f) # zs) 0" and lim: "a + span (ys @ (n, f) # zs) \<le> 4294967296"
    and a: "0 < a" and w: "w + 24 < 4294967296"
  shows "heap_seg (heap_split_block (of_nat (a + span ys)) (of_nat w) st) 0 a
    (ys @ (if n \<le> w + 24 then [(n, f)] else [(w, f), (n - w - 16, True)]) @ zs) 0"
proof -
  define A where "A = a + span ys"
  have A: "0 < A" "A + 16 + n + span zs \<le> 4294967296" using a lim by (simp_all add: A_def)
  from rep have ysr: "heap_seg st 0 a ys A" and szr: "unat (hb_size (st (of_nat A))) = n"
    and frr: "(hb_free (st (of_nat A)) \<noteq> 0) = f"
    and pvr: "hb_prev (st (of_nat A)) = of_nat (last_start 0 a ys)"
    and nxr: "hb_next (st (of_nat A)) = of_nat (if zs = [] then 0 else A + 16 + n)"
    and zsr: "heap_seg st A (A + 16 + n) zs 0"
    unfolding heap_seg_at by (simp_all add: A_def)
  have uw: "unat (of_nat w + 16 + 8 :: u32) = w + 24"
    using w unat_of_nat_u32 [of "w + 24"] by (simp add: ac_simps)
  have cmp: "hb_size (st (of_nat A)) \<le> of_nat w + 16 + 8 \<longleftrightarrow> n \<le> w + 24"
    unfolding word_le_nat_alt uw szr ..
  show ?thesis
  proof (cases "n \<le> w + 24")
    case True
    then show ?thesis using rep cmp by (simp add: heap_split_block_def A_def)
  next
    case False
    define N where "N = A + 16 + w"
    define Z where "Z = A + 16 + n"
    have ord: "A < N" "N + 16 + (n - w - 16) = Z" "N < 4294967296" "A < 4294967296" "Z + span zs \<le> 4294967296"
      using A False by (simp_all add: N_def Z_def)
    have Zlt: "Z < 4294967296" if "zs \<noteq> []"
      using that ord(5) by (cases zs rule: span.cases) auto
    define hN where "hN = \<lparr>hb_size = hb_size (st (of_nat A)) - of_nat w - 16, hb_free = 1,
      hb_next = hb_next (st (of_nat A)), hb_prev = of_nat A\<rparr>"
    define st1 where "st1 = st(of_nat N := hN)"
    define st2 where "st2 = (if zs \<noteq> [] then st1(of_nat Z := (st1 (of_nat Z))\<lparr>hb_prev := of_nat N\<rparr>) else st1)"
    have Nw: "of_nat A + 16 + of_nat w = (of_nat N :: u32)" by (simp add: N_def)
    have AN: "(of_nat A :: u32) \<noteq> of_nat N" using ord by (simp add: of_nat_u32_eq)
    have AZ: "zs \<noteq> [] \<Longrightarrow> (of_nat A :: u32) \<noteq> of_nat Z" and NZ: "zs \<noteq> [] \<Longrightarrow> (of_nat N :: u32) \<noteq> of_nat Z"
      and Z0: "zs \<noteq> [] \<Longrightarrow> (of_nat Z :: u32) \<noteq> 0"
      using ord Zlt A by (auto simp: of_nat_u32_eq of_nat_u32_eq_0)
    have st2A: "st2 (of_nat A) = st (of_nat A)" using AN AZ by (auto simp: st2_def st1_def)
    have st2N: "st2 (of_nat N) = hN" using NZ by (auto simp: st2_def st1_def)
    have split: "heap_split_block (of_nat A) (of_nat w) st =
        st2(of_nat A := (st (of_nat A))\<lparr>hb_next := of_nat N, hb_size := of_nat w\<rparr>)"
      using cmp False nxr Z0 AN AZ st2A Nw
      by (simp add: heap_split_block_def Let_def st2_def st1_def hN_def Z_def [symmetric] add.assoc [symmetric])
    let ?st = "st2(of_nat A := (st (of_nat A))\<lparr>hb_next := of_nat N, hb_size := of_nat w\<rparr>)"
    have "heap_seg st1 A Z zs 0"
      using zsr ord unfolding st1_def Z_def [symmetric]
      by (subst heap_seg_upd) (auto simp: Z_def N_def intro!: starts_outside(1))
    then have "heap_seg st2 N Z zs 0"
      using heap_seg_relink [of st1 A Z zs 0 N] ord by (auto simp: st2_def)
    then have zs': "heap_seg ?st N Z zs 0"
      using ord by (subst heap_seg_upd) (auto intro!: starts_outside(1))
    have "heap_seg st1 0 a ys A"
      using ysr ord unfolding st1_def by (subst heap_seg_upd) (auto simp: A_def intro!: starts_outside(2))
    then have "heap_seg st2 0 a ys A"
      using ord Zlt unfolding st2_def
      by (auto simp: A_def [symmetric] intro!: heap_seg_upd [THEN iffD2] starts_outside(2))
    then have ys': "heap_seg ?st 0 a ys A"
      using ord by (subst heap_seg_upd) (auto simp: A_def intro!: starts_outside(2))
    have "hb_size (st (of_nat A)) = of_nat n" using szr by (simp flip: szr)
    then have "hb_size hN = of_nat (n - w - 16)" using False by (simp add: hN_def of_nat_diff)
    then have "unat (hb_size hN) = n - w - 16" using A by (simp add: unat_of_nat_u32)
    moreover have "hb_next hN = of_nat (if zs = [] then 0 else N + 16 + (n - w - 16))"
      using nxr ord(2) by (simp add: hN_def Z_def [symmetric])
    ultimately have "heap_seg ?st 0 a (ys @ (w, f) # (n - w - 16, True) # zs) 0"
      unfolding heap_seg_at A_def [symmetric] heap_seg.simps
      using ys' zs' AN st2N ord w frr pvr
      by (simp add: N_def [symmetric] unat_of_nat_u32 hN_def)
    with False show ?thesis unfolding A_def [symmetric] split by simp
  qed
qed

lemma seg_less: "a + span xs \<le> L \<Longrightarrow> xs \<noteq> [] \<Longrightarrow> a < L"
  by (cases xs rule: span.cases) auto

lemma unat_add_hdr:
  assumes "unat (x :: u32) = n" "unat y = k" "n + 16 + k < 4294967296"
  shows "unat (x + (16 + y)) = n + 16 + k"
proof -
  have "unat (16 + y) = 16 + k" using assms unat_plus_small [of 16 y] by simp
  then show ?thesis using assms unat_plus_small [of x "16 + y"] by simp
qed

lemma heap_merge_next_rep:
  assumes rep: "heap_seg st 0 a (ys @ (n, f) # (k, g) # us) 0"
    and lim: "a + span (ys @ (n, f) # (k, g) # us) \<le> 4294967296" and a: "0 < a"
  shows "heap_seg (heap_merge_next (of_nat (a + span ys)) st) 0 a
    (ys @ (if g then (n + 16 + k, f) # us else (n, f) # (k, g) # us)) 0"
proof -
  define A where "A = a + span ys"
  define Z where "Z = A + 16 + n"
  define U where "U = Z + 16 + k"
  have ord: "0 < A" "A < Z" "Z < U" "U + span us \<le> 4294967296" using a lim by (simp_all add: A_def Z_def U_def)
  from rep have ysr: "heap_seg st 0 a ys A" and szr: "unat (hb_size (st (of_nat A))) = n"
    and frr: "(hb_free (st (of_nat A)) \<noteq> 0) = f"
    and pvr: "hb_prev (st (of_nat A)) = of_nat (last_start 0 a ys)"
    and nxr: "hb_next (st (of_nat A)) = of_nat Z"
    and zr: "unat (hb_size (st (of_nat Z))) = k" "(hb_free (st (of_nat Z)) \<noteq> 0) = g"
      "hb_next (st (of_nat Z)) = of_nat (if us = [] then 0 else U)"
    and usr: "heap_seg st Z U us 0"
    unfolding heap_seg_at by (simp_all add: A_def Z_def U_def)
  have Z0: "(of_nat Z :: u32) \<noteq> 0" and AZ: "(of_nat A :: u32) \<noteq> of_nat Z"
    using ord by (simp_all add: of_nat_u32_eq of_nat_u32_eq_0)
  have U: "us \<noteq> [] \<Longrightarrow> U < 4294967296" using seg_less ord(4) .
  have U0: "us \<noteq> [] \<Longrightarrow> (of_nat U :: u32) \<noteq> 0" "us \<noteq> [] \<Longrightarrow> (of_nat A :: u32) \<noteq> of_nat U"
    using U ord by (auto simp: of_nat_u32_eq of_nat_u32_eq_0)
  show ?thesis
  proof (cases g)
    case False
    with zr nxr rep show ?thesis by (simp add: heap_merge_next_def A_def)
  next
    case True
    let ?hA = "(st (of_nat A))\<lparr>hb_size := hb_size (st (of_nat A)) + (16 + hb_size (st (of_nat Z))),
        hb_next := hb_next (st (of_nat Z))\<rparr>"
    define st1 where "st1 = st(of_nat A := ?hA)"
    have m: "heap_merge_next (of_nat A) st =
        (if us \<noteq> [] then st1(of_nat U := (st1 (of_nat U))\<lparr>hb_prev := of_nat A\<rparr>) else st1)"
      using True zr nxr Z0 AZ U0 by (simp add: heap_merge_next_def Let_def st1_def)
    have "heap_seg st1 Z U us 0"
      using usr ord unfolding st1_def by (subst heap_seg_upd) (auto intro!: starts_outside(1))
    then have us': "heap_seg (heap_merge_next (of_nat A) st) A U us 0"
      unfolding m using heap_seg_relink [of st1 Z U us 0 A] ord by auto
    have "heap_seg st1 0 a ys A"
      using ysr ord unfolding st1_def by (subst heap_seg_upd) (auto simp: A_def intro!: starts_outside(2))
    then have ys': "heap_seg (heap_merge_next (of_nat A) st) 0 a ys A"
      unfolding m using ord U
      by (auto simp: A_def [symmetric] intro!: heap_seg_upd [THEN iffD2] starts_outside(2))
    have hA: "heap_merge_next (of_nat A) st (of_nat A) = ?hA" unfolding m using U0 by (auto simp: st1_def)
    have "n + 16 + k < 4294967296" using ord by (simp add: Z_def U_def)
    from unat_add_hdr [OF szr zr(1) this] have "unat (hb_size ?hA) = n + 16 + k" by simp
    then show ?thesis
      unfolding A_def [symmetric] heap_seg_at using True ys' us' hA frr pvr zr(3)
      by (simp add: heap_seg_at A_def [symmetric] U_def Z_def add.assoc)
  qed
qed

lemma heap_merge_next_last:
  assumes rep: "heap_seg st 0 a (ys @ [(n, f)]) 0"
  shows "heap_merge_next (of_nat (a + span ys)) st = st"
  using assms by (simp add: heap_seg_at heap_merge_next_def)

lemma heap_merge_prev_first:
  assumes rep: "heap_seg st 0 a ((n, f) # zs) 0"
  shows "heap_merge_prev (of_nat a) st = st"
  using assms by (simp add: heap_merge_prev_def)

lemma heap_merge_prev_rep:
  assumes rep: "heap_seg st 0 a (vs @ (k, g) # (n, f) # zs) 0"
    and lim: "a + span (vs @ (k, g) # (n, f) # zs) \<le> 4294967296" and a: "0 < a"
  shows "heap_seg (heap_merge_prev (of_nat (a + span vs + 16 + k)) st) 0 a
    (vs @ (if g then (k + 16 + n, g) # zs else (k, g) # (n, f) # zs)) 0"
proof -
  define P where "P = a + span vs"
  define A where "A = P + 16 + k"
  define Z where "Z = A + 16 + n"
  have ord: "0 < P" "P < A" "A < Z" "Z + span zs \<le> 4294967296" using a lim by (simp_all add: A_def Z_def P_def)
  from rep have vsr: "heap_seg st 0 a vs P" and szp: "unat (hb_size (st (of_nat P))) = k"
    and frp: "(hb_free (st (of_nat P)) \<noteq> 0) = g"
    and pvp: "hb_prev (st (of_nat P)) = of_nat (last_start 0 a vs)"
    and ar: "unat (hb_size (st (of_nat A))) = n" "hb_prev (st (of_nat A)) = of_nat P"
      "hb_next (st (of_nat A)) = of_nat (if zs = [] then 0 else Z)"
    and zsr: "heap_seg st A Z zs 0"
    unfolding heap_seg_at by (simp_all add: A_def Z_def P_def)
  have P0: "(of_nat P :: u32) \<noteq> 0" and PA: "(of_nat P :: u32) \<noteq> of_nat A"
    using ord by (simp_all add: of_nat_u32_eq of_nat_u32_eq_0)
  have Z: "zs \<noteq> [] \<Longrightarrow> Z < 4294967296" using seg_less ord(4) .
  have Z0: "zs \<noteq> [] \<Longrightarrow> (of_nat Z :: u32) \<noteq> 0" "zs \<noteq> [] \<Longrightarrow> (of_nat P :: u32) \<noteq> of_nat Z"
    "zs \<noteq> [] \<Longrightarrow> (of_nat A :: u32) \<noteq> of_nat Z"
    using Z ord by (auto simp: of_nat_u32_eq of_nat_u32_eq_0)
  have Aeq: "a + span vs + 16 + k = A" by (simp add: A_def P_def)
  show ?thesis
  proof (cases g)
    case False
    with ar frp rep Aeq show ?thesis by (simp add: heap_merge_prev_def)
  next
    case True
    let ?hP = "(st (of_nat P))\<lparr>hb_size := hb_size (st (of_nat P)) + (16 + hb_size (st (of_nat A))),
        hb_next := hb_next (st (of_nat A))\<rparr>"
    define st1 where "st1 = st(of_nat P := ?hP)"
    have m: "heap_merge_prev (of_nat A) st =
        (if zs \<noteq> [] then st1(of_nat Z := (st1 (of_nat Z))\<lparr>hb_prev := of_nat P\<rparr>) else st1)"
      using True ar frp P0 PA Z0 by (simp add: heap_merge_prev_def Let_def st1_def)
    have "heap_seg st1 A Z zs 0"
      using zsr ord unfolding st1_def by (subst heap_seg_upd) (auto intro!: starts_outside(1))
    then have zs': "heap_seg (heap_merge_prev (of_nat A) st) P Z zs 0"
      unfolding m using heap_seg_relink [of st1 A Z zs 0 P] ord by auto
    have "heap_seg st1 0 a vs P"
      using vsr ord unfolding st1_def by (subst heap_seg_upd) (auto simp: P_def intro!: starts_outside(2))
    then have vs': "heap_seg (heap_merge_prev (of_nat A) st) 0 a vs P"
      unfolding m using ord Z
      by (auto simp: P_def [symmetric] intro!: heap_seg_upd [THEN iffD2] starts_outside(2))
    have hP: "heap_merge_prev (of_nat A) st (of_nat P) = ?hP" unfolding m using Z0 by (auto simp: st1_def)
    have "k + 16 + n < 4294967296" using ord by (simp add: A_def Z_def)
    from unat_add_hdr [OF szp ar(1) this] have "unat (hb_size ?hP) = k + 16 + n" by simp
    then show ?thesis
      unfolding Aeq using True vs' zs' hP frp pvp ar(3)
      by (simp add: heap_seg_at P_def [symmetric] A_def Z_def add.assoc)
  qed
qed

section \<open>Searching and growing\<close>

definition fits :: "nat \<Rightarrow> blk \<Rightarrow> bool" where
  "fits w b \<longleftrightarrow> snd b \<and> w \<le> fst b"

lemma heap_find_rep:
  assumes "heap_seg st p a xs 0" "0 < a" "a + span xs \<le> 4294967296"
  shows "heap_find st want (of_nat (if xs = [] then 0 else a)) =
    Some (case first_idx (fits (unat want)) xs of None \<Rightarrow> 0 | Some i \<Rightarrow> of_nat (a + span (take i xs)))"
  using assms
proof (induction xs arbitrary: p a)
  case Nil
  then show ?case by (simp add: heap_find.simps)
next
  case (Cons x xs)
  obtain n f where x: "x = (n, f)" by (cases x)
  let ?a = "of_nat a :: u32"
  have a0: "?a \<noteq> 0" using Cons.prems x by (simp add: of_nat_u32_eq_0)
  have hit: "hb_free (st ?a) \<noteq> 0 \<and> hb_size (st ?a) \<ge> want \<longleftrightarrow> fits (unat want) x"
    using Cons.prems(1) x by (simp add: fits_def word_le_nat_alt)
  show ?case
  proof (cases "fits (unat want) x")
    case True
    with hit a0 show ?thesis by (subst heap_find.simps) simp
  next
    case False
    have "heap_find st want ?a = heap_find st want (hb_next (st ?a))"
      using False hit a0 by (subst heap_find.simps) auto
    also have "hb_next (st ?a) = of_nat (if xs = [] then 0 else a + 16 + n)"
      using Cons.prems(1) x by simp
    also have "heap_find st want \<dots> = Some (case first_idx (fits (unat want)) xs of None \<Rightarrow> 0
        | Some i \<Rightarrow> of_nat (a + 16 + n + span (take i xs)))"
      using Cons.prems x by (intro Cons.IH) auto
    finally show ?thesis using False x by (auto simp: ac_simps split: option.splits)
  qed
qed

lemma heap_tail_rep:
  assumes "heap_seg st p a xs 0" "0 < a" "a + span xs \<le> 4294967296" "xs \<noteq> []"
  shows "heap_tail st (of_nat a) = Some (of_nat (last_start p a xs))"
  using assms
proof (induction xs arbitrary: p a)
  case (Cons x xs)
  obtain n f where x: "x = (n, f)" by (cases x)
  have nx: "hb_next (st (of_nat a)) = of_nat (if xs = [] then 0 else a + 16 + n)"
    using Cons.prems(1) x by simp
  show ?case
  proof (cases "xs = []")
    case True
    with nx x show ?thesis by (simp add: heap_tail.simps)
  next
    case False
    have "a + 16 + n < 4294967296" using Cons.prems(3) x False by (intro seg_less [of _ xs]) auto
    then have "hb_next (st (of_nat a)) \<noteq> 0" using nx False of_nat_u32_eq_0 [of "a + 16 + n"] by simp
    then have "heap_tail st (of_nat a) = heap_tail st (of_nat (a + 16 + n))"
      using nx False by (subst heap_tail.simps) simp
    also have "\<dots> = Some (of_nat (last_start a (a + 16 + n) xs))"
      using Cons.prems x False by (intro Cons.IH) auto
    finally show ?thesis using x by simp
  qed
qed simp

definition grow_page :: "blk list \<Rightarrow> blk list" where
  "grow_page xs = (let (n, f) = last xs in
     if f then butlast xs @ [(n + 4096, True)] else xs @ [(4080, True)])"

lemma heap_append_page_rep:
  assumes rep: "heap_seg st 0 a xs 0" and ne: "xs \<noteq> []" and a: "0 < a"
    and lim: "a + span xs + 4096 \<le> 4294967296"
  shows "heap_seg (heap_append_page (of_nat (last_start 0 a xs)) st) 0 a (grow_page xs) 0"
proof -
  obtain ys n f where xs: "xs = ys @ [(n, f)]" using ne by (metis prod.exhaust_sel rev_exhaust)
  define A where "A = a + span ys"
  have ls: "last_start 0 a xs = A" by (simp add: xs last_start_append A_def)
  from rep have ysr: "heap_seg st 0 a ys A" and szr: "unat (hb_size (st (of_nat A))) = n"
    and frr: "(hb_free (st (of_nat A)) \<noteq> 0) = f" and nxr: "hb_next (st (of_nat A)) = 0"
    and pvr: "hb_prev (st (of_nat A)) = of_nat (last_start 0 a ys)"
    unfolding xs heap_seg_at by (simp_all add: A_def)
  have ord: "A + 16 + n + 4096 \<le> 4294967296" using lim by (simp add: xs A_def)
  have keep: "heap_seg (st(of_nat A := h)) 0 a ys A" for h
    using ysr ord by (subst heap_seg_upd) (auto simp: A_def intro!: starts_outside(2))
  show ?thesis
  proof (cases f)
    case True
    have "unat (hb_size (st (of_nat A)) + 4096) = n + 4096"
      using szr ord unat_plus_small [of "hb_size (st (of_nat A))" 4096] by simp
    then show ?thesis
      unfolding ls using True keep frr nxr pvr
      by (simp add: xs grow_page_def heap_seg_at heap_append_page_def A_def [symmetric])
  next
    case False
    define N where "N = A + 16 + n"
    have N: "(of_nat A + 16 + hb_size (st (of_nat A)) :: u32) = of_nat N"
      using szr by (simp add: N_def flip: szr)
    have "A < N" "N < 4294967296" using ord by (simp_all add: N_def)
    then have AN: "(of_nat A :: u32) \<noteq> of_nat N" by (simp add: of_nat_u32_eq)
    have "heap_seg (st(of_nat N := h)) 0 a ys A" for h
      using ysr ord by (subst heap_seg_upd) (auto simp: A_def N_def intro!: starts_outside(2))
    then have "heap_seg (st(of_nat N := h, of_nat A := h')) 0 a ys A" for h h'
      using ord by (subst heap_seg_upd) (auto simp: A_def intro!: starts_outside(2))
    then show ?thesis
      unfolding ls using False frr nxr pvr N AN szr
      by (simp add: xs grow_page_def heap_seg_at heap_append_page_def A_def [symmetric] Let_def)
        (simp add: N_def)
  qed
qed

section \<open>Blocks in use\<close>

definition used_bytes :: "blk list \<Rightarrow> nat" where
  "used_bytes xs = sum_list (map fst (filter (\<lambda>b. \<not> snd b) xs))"

text \<open>Pointer and payload size of every block in use.\<close>

fun allocs :: "nat \<Rightarrow> blk list \<Rightarrow> (nat \<times> nat) set" where
  "allocs a [] = {}"
| "allocs a ((n, f) # xs) = (if f then {} else {(a + 16, n)}) \<union> allocs (a + 16 + n) xs"

definition blocks_wf :: "blk list \<Rightarrow> bool" where
  "blocks_wf xs \<longleftrightarrow> xs \<noteq> [] \<and> (\<forall>b \<in> set xs. fst b mod 8 = 0 \<and> 0 < fst b) \<and>
     successively (\<lambda>x y. \<not> (snd x \<and> snd y)) xs"

lemma blocks_wf_append:
  "blocks_wf (ys @ x # zs) \<longleftrightarrow> (ys = [] \<or> blocks_wf ys) \<and> blocks_wf (x # zs) \<and>
     (ys \<noteq> [] \<longrightarrow> \<not> (snd (last ys) \<and> snd x))"
  by (cases "ys = []") (auto simp: blocks_wf_def successively_append_iff)

lemma used_bytes_simps [simp]:
  "used_bytes [] = 0" "used_bytes ((n, f) # xs) = (if f then 0 else n) + used_bytes xs"
  "used_bytes (xs @ ys) = used_bytes xs + used_bytes ys"
  by (simp_all add: used_bytes_def)

lemma allocs_append: "allocs a (xs @ ys) = allocs a xs \<union> allocs (a + span xs) ys"
  by (induction xs arbitrary: a) (auto simp: ac_simps)

lemma allocs_bounds: "(p, n) \<in> allocs a xs \<Longrightarrow> a + 16 \<le> p \<and> p + n \<le> a + span xs"
  by (induction xs arbitrary: a) (fastforce split: if_splits)+

lemma allocs_split: "(p, n) \<in> allocs a xs \<longleftrightarrow> (\<exists>ys zs. xs = ys @ (n, False) # zs \<and> p = a + span ys + 16)"
proof
  assume "(p, n) \<in> allocs a xs"
  then show "\<exists>ys zs. xs = ys @ (n, False) # zs \<and> p = a + span ys + 16"
  proof (induction xs arbitrary: a)
    case (Cons x xs)
    obtain k f where x: "x = (k, f)" by (cases x)
    show ?case
    proof (cases "(p, n) \<in> allocs (a + 16 + k) xs")
      case True
      with Cons.IH obtain ys zs where "xs = ys @ (n, False) # zs" "p = a + 16 + k + span ys + 16" by blast
      with x show ?thesis by (intro exI [of _ "x # ys"] exI [of _ zs]) simp
    next
      case False
      with Cons.prems x have "p = a + 16" "n = k" "\<not> f" by (auto split: if_splits)
      with x show ?thesis by (intro exI [of _ "[]"] exI [of _ xs]) simp
    qed
  qed simp
next
  assume "\<exists>ys zs. xs = ys @ (n, False) # zs \<and> p = a + span ys + 16"
  then show "(p, n) \<in> allocs a xs" by (auto simp: allocs_append)
qed

lemma allocs_disjoint:
  assumes "(p, n) \<in> allocs a xs" "(q, m) \<in> allocs a xs"
  shows "(p = q \<and> n = m) \<or> p + n + 16 \<le> q \<or> q + m + 16 \<le> p"
  using assms
proof (induction xs arbitrary: a)
  case (Cons x xs)
  obtain k f where x: "x = (k, f)" by (cases x)
  have here: "(b, c) = (a + 16, k) \<or> (b, c) \<in> allocs (a + 16 + k) xs" if "(b, c) \<in> allocs a (x # xs)" for b c
    using that x by (auto split: if_splits)
  show ?case
    using here [OF Cons.prems(1)] here [OF Cons.prems(2)] Cons.IH [of "a + 16 + k"]
      allocs_bounds [of p n "a + 16 + k" xs] allocs_bounds [of q m "a + 16 + k" xs] by auto
qed simp

text \<open>Taking a free block, possibly splitting it.\<close>

definition take_at :: "nat \<Rightarrow> blk list \<Rightarrow> nat \<Rightarrow> blk list \<Rightarrow> blk list" where
  "take_at w ys n zs = ys @ (if n \<le> w + 24 then [(n, False)] else [(w, False), (n - w - 16, True)]) @ zs"

lemma take_at_span: "w \<le> n \<Longrightarrow> span (take_at w ys n zs) = span (ys @ (n, True) # zs)"
  by (simp add: take_at_def)

lemma take_at_allocs:
  assumes "w \<le> n"
  shows "allocs a (take_at w ys n zs) =
      insert (a + span ys + 16, if n \<le> w + 24 then n else w) (allocs a (ys @ (n, True) # zs))"
    and "used_bytes (take_at w ys n zs) = used_bytes (ys @ (n, True) # zs) + (if n \<le> w + 24 then n else w)"
  by (auto simp: take_at_def allocs_append add.assoc)

lemma take_at_wf:
  assumes "blocks_wf (ys @ (n, True) # zs)" "w mod 8 = 0" "0 < w"
  shows "blocks_wf (take_at w ys n zs)"
proof -
  have n8: "n mod 8 = 0" using assms(1) by (simp add: blocks_wf_def)
  have "(n - w - 16) mod 8 = 0" using n8 assms(2) by (simp add: mod_eq_0_iff_dvd dvd_diff_nat)
  then show ?thesis
    using assms by (auto simp: blocks_wf_def take_at_def successively_append_iff successively_Cons)
qed

text \<open>Returning a block, merging it with free neighbours.\<close>

definition merge_right :: "nat \<Rightarrow> blk list \<Rightarrow> blk list" where
  "merge_right n zs = (case zs of (k, True) # us \<Rightarrow> (n + 16 + k, True) # us | _ \<Rightarrow> (n, True) # zs)"

definition free_at :: "blk list \<Rightarrow> nat \<Rightarrow> blk list \<Rightarrow> blk list" where
  "free_at ys n zs =
     (if ys \<noteq> [] \<and> snd (last ys)
      then butlast ys @ (fst (last ys) + 16 + fst (hd (merge_right n zs)), True) # tl (merge_right n zs)
      else ys @ merge_right n zs)"

lemma merge_right_cases:
  obtains m us where "merge_right n zs = (m, True) # us" "16 + m + span us = 16 + n + span zs"
    "used_bytes us = used_bytes zs" "allocs (a + 16 + m) us = allocs (a + 16 + n) zs"
    "blocks_wf ((n, False) # zs) \<longrightarrow> blocks_wf ((m, True) # us)"
proof (cases "\<exists>k us. zs = (k, True) # us")
  case True
  then obtain k us where zs: "zs = (k, True) # us" by blast
  show thesis
    by (rule that [of "n + 16 + k" us])
      (auto simp: zs merge_right_def add.assoc blocks_wf_def successively_Cons mod_add_eq [symmetric])
next
  case False
  then have m: "merge_right n zs = (n, True) # zs"
    by (auto simp: merge_right_def split: list.splits bool.splits)
  have "snd (hd zs) = False" if "zs \<noteq> []" using False that by (cases zs) auto
  then show thesis
    by (intro that [OF m]) (auto simp: blocks_wf_def successively_Cons)
qed

lemma free_at_props:
  fixes a :: nat
  shows "span (free_at ys n zs) = span (ys @ (n, False) # zs)"
    and "used_bytes (free_at ys n zs) + n = used_bytes (ys @ (n, False) # zs)"
    and "allocs a (free_at ys n zs) = allocs a ys \<union> allocs (a + span ys + 16 + n) zs"
    and "blocks_wf (ys @ (n, False) # zs) \<Longrightarrow> blocks_wf (free_at ys n zs)"
proof -
  obtain m us where mr: "merge_right n zs = (m, True) # us" "16 + m + span us = 16 + n + span zs"
    "used_bytes us = used_bytes zs" "allocs (a + span ys + 16 + m) us = allocs (a + span ys + 16 + n) zs"
    "blocks_wf ((n, False) # zs) \<longrightarrow> blocks_wf ((m, True) # us)"
    by (rule merge_right_cases [of n zs "a + span ys"])
  have "span (free_at ys n zs) = span (ys @ (n, False) # zs) \<and>
    used_bytes (free_at ys n zs) + n = used_bytes (ys @ (n, False) # zs) \<and>
    allocs a (free_at ys n zs) = allocs a ys \<union> allocs (a + span ys + 16 + n) zs \<and>
    (blocks_wf (ys @ (n, False) # zs) \<longrightarrow> blocks_wf (free_at ys n zs))"
  proof (cases "ys \<noteq> [] \<and> snd (last ys)")
    case False
    then have fa: "free_at ys n zs = ys @ (m, True) # us" by (auto simp: free_at_def mr(1))
    have "blocks_wf (ys @ (m, True) # us)" if "blocks_wf (ys @ (n, False) # zs)"
    proof -
      from that have "blocks_wf ((m, True) # us)" "ys = [] \<or> blocks_wf ys"
        using mr(5) unfolding blocks_wf_append by blast+
      with False show ?thesis unfolding blocks_wf_append by auto
    qed
    with fa mr show ?thesis by (simp add: allocs_append add.assoc)
  next
    case True
    then obtain vs k where ys: "ys = vs @ [(k, True)]"
      by (metis append_butlast_last_id prod.collapse)
    have fa: "free_at ys n zs = vs @ (k + 16 + m, True) # us" by (simp add: free_at_def mr(1) ys)
    have "blocks_wf (vs @ (k + 16 + m, True) # us)" if "blocks_wf (ys @ (n, False) # zs)"
    proof -
      from that have m: "blocks_wf ((m, True) # us)" and y: "blocks_wf (vs @ [(k, True)])"
        using mr(5) unfolding blocks_wf_append ys by blast+
      from y have v: "vs = [] \<or> blocks_wf vs" "vs \<noteq> [] \<longrightarrow> \<not> snd (last vs)" and k: "k mod 8 = 0"
        unfolding blocks_wf_append by (simp_all add: blocks_wf_def)
      have "blocks_wf ((k + 16 + m, True) # us)"
        using m k by (auto simp: blocks_wf_def successively_Cons mod_add_eq [symmetric])
      with v show ?thesis unfolding blocks_wf_append by simp
    qed
    with fa mr show ?thesis by (simp add: allocs_append ys ac_simps)
  qed
  then show "span (free_at ys n zs) = span (ys @ (n, False) # zs)"
    and "used_bytes (free_at ys n zs) + n = used_bytes (ys @ (n, False) # zs)"
    and "allocs a (free_at ys n zs) = allocs a ys \<union> allocs (a + span ys + 16 + n) zs"
    and "blocks_wf (ys @ (n, False) # zs) \<Longrightarrow> blocks_wf (free_at ys n zs)"
    by simp_all
qed

section \<open>The heap invariant\<close>

abbreviation heap_base :: nat where
  "heap_base \<equiv> 3489660928"

text \<open>Every page of the heap is mapped in the active directory, nothing above its end is.\<close>

definition heap_mapped :: "nat \<Rightarrow> vm \<Rightarrow> bool" where
  "heap_mapped e v \<longleftrightarrow>
     (\<forall>x. heap_base \<le> unat x \<longrightarrow> (pte_at (vm_mem v) (paging_active_directory v) x \<noteq> None \<longleftrightarrow> unat x < e))"

definition heap_ok :: "u32 set \<Rightarrow> blk list \<Rightarrow> kmem \<Rightarrow> bool" where
  "heap_ok D xs s \<longleftrightarrow>
     vm_ok D (km_vm s) \<and> pg_is_enabled (vm_pg (km_vm s)) \<and> hp_ready (km_heap s) \<and>
     hp_head (km_heap s) = of_nat heap_base \<and> heap_seg (hp_blocks (km_heap s)) 0 heap_base xs 0 \<and>
     blocks_wf xs \<and> heap_base + span xs \<le> 4294967296 \<and> span xs mod 4096 = 0 \<and>
     hp_end (km_heap s) = of_nat (heap_base + span xs) \<and>
     unat (hp_total (km_heap s)) = span xs \<and> unat (hp_used (km_heap s)) = used_bytes xs \<and>
     heap_mapped (heap_base + span xs) (km_vm s) \<and>
     pte_at (vm_mem (km_vm s)) (paging_active_directory (km_vm s)) 0 \<noteq> None"

lemma heap_okD:
  assumes "heap_ok D xs s"
  shows "vm_ok D (km_vm s)" "pmm_ok (vm_pmm (km_vm s))" "pg_is_enabled (vm_pg (km_vm s))" "hp_ready (km_heap s)"
    "hp_head (km_heap s) = of_nat heap_base" "heap_seg (hp_blocks (km_heap s)) 0 heap_base xs 0"
    "blocks_wf xs" "xs \<noteq> []" "heap_base + span xs \<le> 4294967296" "span xs mod 4096 = 0"
    "hp_end (km_heap s) = of_nat (heap_base + span xs)"
    "unat (hp_total (km_heap s)) = span xs" "unat (hp_used (km_heap s)) = used_bytes xs"
    "heap_mapped (heap_base + span xs) (km_vm s)"
    "pte_at (vm_mem (km_vm s)) (paging_active_directory (km_vm s)) 0 \<noteq> None"
  using assms by (auto simp: heap_ok_def vm_ok_def blocks_wf_def)

lemma used_le_span: "used_bytes xs \<le> span xs"
  by (induction xs rule: span.induct) auto

lemma grow_page_props:
  assumes "blocks_wf xs"
  shows "blocks_wf (grow_page xs)" "span (grow_page xs) = span xs + 4096"
    "used_bytes (grow_page xs) = used_bytes xs" "allocs a (grow_page xs) = allocs a xs"
proof -
  have "xs \<noteq> []" using assms by (simp add: blocks_wf_def)
  then obtain ys n f where xs: "xs = ys @ [(n, f)]" by (metis prod.exhaust_sel rev_exhaust)
  show "blocks_wf (grow_page xs)"
    using assms by (auto simp: xs grow_page_def blocks_wf_def successively_append_iff mod_add_eq [symmetric])
  show "span (grow_page xs) = span xs + 4096" "used_bytes (grow_page xs) = used_bytes xs"
    "allocs a (grow_page xs) = allocs a xs"
    by (auto simp: xs grow_page_def allocs_append)
qed

lemma page_of_heap:
  assumes "e mod 4096 = 0" "e < 4294967296"
  shows "page_of x = page_of (of_nat e) \<longleftrightarrow> e \<le> unat x \<and> unat x < e + 4096"
proof -
  obtain q where q: "e = 4096 * q" using assms(1) by auto
  have "page_of (of_nat e) = q" using assms(2) q by (simp add: page_of_def unat_of_nat_u32 del: of_nat_mult)
  moreover have "page_of x = q \<longleftrightarrow> 4096 * q \<le> unat x \<and> unat x < 4096 * q + 4096"
    unfolding page_of_def by (auto simp: div_nat_eqI)
  ultimately show ?thesis using q by simp
qed

lemma vm_ok_alloc:
  assumes ok: "vm_ok D v" and al: "pmm_alloc_frame (vm_pmm v) = (f, p)"
  shows "vm_ok D (v\<lparr>vm_pmm := p\<rparr>)" and "pool_frames p = pool_frames (vm_pmm v)"
    and "f = 0 \<Longrightarrow> p = vm_pmm v \<and> avail_frames (vm_pmm v) = {}"
    and "f \<noteq> 0 \<Longrightarrow> page_addr f \<and> f \<in> avail_frames (vm_pmm v) \<and> avail_frames p = avail_frames (vm_pmm v) - {f}"
proof -
  have p: "pmm_ok (vm_pmm v)" using ok by (simp add: vm_ok_def)
  show e: "p = vm_pmm v \<and> avail_frames (vm_pmm v) = {}" if "f = 0"
    using that pmm_frames.alloc_zero_iff [OF p al] pmm_frames.alloc_empty [OF p] al by auto
  show n: "page_addr f \<and> f \<in> avail_frames (vm_pmm v) \<and> avail_frames p = avail_frames (vm_pmm v) - {f}"
    if "f \<noteq> 0" using pmm_frames.alloc_fresh [OF p al that] by blast
  have sub: "avail_frames p \<subseteq> avail_frames (vm_pmm v)" using e n by (cases "f = 0") auto
  have act: "paging_active_directory (v\<lparr>vm_pmm := p\<rparr>) = paging_active_directory v"
    by (rule active_dir_cong) simp
  have "pt_wf D (avail_frames p) (vm_mem v)"
    using ok sub by (auto simp: vm_ok_def intro: pt_wf_avail)
  then show "vm_ok D (v\<lparr>vm_pmm := p\<rparr>)"
    using ok pmm_frames.alloc_inv [OF p al] by (simp add: vm_ok_def act)
  show "pool_frames p = pool_frames (vm_pmm v)" using pmm_frames.alloc_inv [OF p al] by simp
qed

lemma finite_avail: "pmm_ok p \<Longrightarrow> finite (avail_frames p)"
  using pmm_frames.avail_pool [of p] pmm_frames.pool_finite [of p] by (rule finite_subset)

text \<open>One page: a free frame is mapped at \<open>virt\<close> with kernel rights.\<close>

lemma map_fresh_page:
  assumes ok: "vm_ok D v" and en: "pg_is_enabled (vm_pg v)"
    and al: "pmm_alloc_frame (vm_pmm v) = (f, p)" "f \<noteq> 0"
    and mp: "paging_map_page virt f 3 (v\<lparr>vm_pmm := p\<rparr>) = (r, v')" and va: "virt AND 0xFFF = 0"
  shows "vm_ok D v'" and "vm_pg v' = vm_pg v" and "card (avail_frames (vm_pmm v')) < card (avail_frames (vm_pmm v))"
    and "avail_frames (vm_pmm v') \<subseteq> avail_frames (vm_pmm v)"
    and "\<not> r \<Longrightarrow> pte_at (vm_mem v) (paging_active_directory v) virt = None \<Longrightarrow> avail_frames (vm_pmm v') = {}"
    and "r \<longrightarrow> pte_at (vm_mem v) (paging_active_directory v) virt = None"
    and "(pte_at (vm_mem v') (paging_active_directory v) x \<noteq> None) =
      (pte_at (vm_mem v) (paging_active_directory v) x \<noteq> None \<or> r \<and> page_of x = page_of virt)"
proof -
  let ?d = "paging_active_directory v" and ?v = "v\<lparr>vm_pmm := p\<rparr>"
  note va1 = vm_ok_alloc [OF ok al(1)]
  have act: "paging_active_directory ?v = ?d" by (rule active_dir_cong) simp
  note m = map_page [OF va1(1) mp, simplified act vm.simps vm.update_convs]
  have d: "?d \<in> D" using ok en by (simp add: vm_ok_def)
  have f: "page_addr f" "f \<in> avail_frames (vm_pmm v)" "avail_frames p = avail_frames (vm_pmm v) - {f}"
    using va1(4) al(2) by auto
  have fin: "finite (avail_frames (vm_pmm v))" using ok by (intro finite_avail) (simp add: vm_ok_def)
  show "vm_ok D v'" "vm_pg v' = vm_pg v" using m(1,2) by simp_all
  have sub: "avail_frames (vm_pmm v') \<subseteq> avail_frames (vm_pmm v) - {f}" using m(4) f(3) by simp
  then show "avail_frames (vm_pmm v') \<subseteq> avail_frames (vm_pmm v)" by blast
  show "card (avail_frames (vm_pmm v')) < card (avail_frames (vm_pmm v))"
    using sub f(2) fin by (intro psubset_card_mono) auto
  have res: "r \<longleftrightarrow> pte_at (vm_mem v) ?d virt = None \<and>
      (pres (entry_get (vm_mem v) ?d (pd_index virt)) \<or> avail_frames p \<noteq> {})"
    using m(5) en va f(1) by (simp add: page_addr_offset)
  show "r \<longrightarrow> pte_at (vm_mem v) ?d virt = None" using res by blast
  show "\<not> r \<Longrightarrow> pte_at (vm_mem v) ?d virt = None \<Longrightarrow> avail_frames (vm_pmm v') = {}"
    using res m(4) by auto
  show "(pte_at (vm_mem v') ?d x \<noteq> None) = (pte_at (vm_mem v) ?d x \<noteq> None \<or> r \<and> page_of x = page_of virt)"
    using m(6) [OF d, of x] by auto
qed

lemma heap_grow_one:
  assumes ok: "heap_ok D xs s"
  obtains (fail) s' where "heap_map_more (Suc n) s = Some (False, s')" "heap_ok D xs s'"
      "avail_frames (vm_pmm (km_vm s')) = {} \<or> heap_base + span xs = 4294967296"
      "vm_pg (km_vm s') = vm_pg (km_vm s)"
      "avail_frames (vm_pmm (km_vm s')) \<subseteq> avail_frames (vm_pmm (km_vm s))"
  | (grow) s1 where "heap_map_more (Suc n) s = heap_map_more n s1" "heap_ok D (grow_page xs) s1"
      "card (avail_frames (vm_pmm (km_vm s1))) < card (avail_frames (vm_pmm (km_vm s)))"
      "vm_pg (km_vm s1) = vm_pg (km_vm s)"
      "avail_frames (vm_pmm (km_vm s1)) \<subseteq> avail_frames (vm_pmm (km_vm s))"
proof -
  note k = heap_okD [OF ok]
  let ?v = "km_vm s" and ?h = "km_heap s"
  define e where "e = heap_base + span xs"
  let ?virt = "of_nat e :: u32"
  have em: "e mod 4096 = 0" "e \<le> 4294967296" using k(9,10) by (auto simp: e_def mod_add_eq [symmetric])
  obtain f p where al: "pmm_alloc_frame (vm_pmm ?v) = (f, p)" by fastforce
  note va = vm_ok_alloc [OF k(1) al]
  show thesis
  proof (cases "f = 0")
    case True
    then have "heap_map_more (Suc n) s = Some (False, s)" using al va(3) by simp
    with va(3) True ok show thesis by (intro fail) auto
  next
    case f: False
    obtain r v' where mp: "paging_map_page ?virt f 3 (?v\<lparr>vm_pmm := p\<rparr>) = (r, v')" by fastforce
    have off: "?virt AND 0xFFF = 0"
      unfolding page_offset_eq_0 unat_of_nat using em by (simp add: mod_mod_cancel)
    note m = map_fresh_page [OF k(1) k(3) al f mp off]
    have act: "paging_active_directory v' = paging_active_directory ?v" by (rule active_dir_cong [OF m(2)])
    have "(of_nat 4294967296 :: u32) = 0"
      by (subst unat_inj_u32 [symmetric]) (simp add: unat_of_nat del: of_nat_numeral)
    then have zero: "r \<Longrightarrow> e < 4294967296"
      using m(6) k(15) em(2) by (cases "e = 4294967296") (auto simp del: of_nat_numeral)
    have flags: "(1 OR 2 :: u32) = 3" by simp
    show thesis
    proof (cases r)
      case False
      let ?s = "s\<lparr>km_vm := v'\<rparr>"
      have run: "heap_map_more (Suc n) s = Some (False, ?s)"
        using al f mp False k(11) by (simp add: Let_def flags flip: e_def)
      have "heap_ok D xs ?s"
        using ok m(1,2,7) False by (simp add: heap_ok_def heap_mapped_def act)
      moreover have "avail_frames (vm_pmm v') = {} \<or> e = 4294967296"
      proof (cases "e = 4294967296")
        case ne: False
        then have u: "unat ?virt = e" using em(2) by (intro unat_of_nat_u32) simp
        have "heap_base \<le> unat ?virt" unfolding u by (simp add: e_def)
        then have "pte_at (vm_mem ?v) (paging_active_directory ?v) ?virt \<noteq> None \<longleftrightarrow> unat ?virt < e"
          using k(14) unfolding heap_mapped_def e_def [symmetric] by blast
        then have "pte_at (vm_mem ?v) (paging_active_directory ?v) ?virt = None" unfolding u by simp
        with m(5) False show ?thesis by simp
      qed simp
      ultimately show thesis using m(2,4) by (intro fail [OF run]) (auto simp: e_def)
    next
      case True
      with zero have e: "e < 4294967296" by simp
      let ?st = "hp_blocks ?h"
      let ?h1 = "?h\<lparr>hp_end := hp_end ?h + 4096, hp_total := hp_total ?h + 4096\<rparr>"
      let ?t = "of_nat (last_start 0 heap_base xs) :: u32"
      let ?s = "s\<lparr>km_vm := v', km_heap := ?h1\<lparr>hp_blocks := heap_append_page ?t ?st\<rparr>\<rparr>"
      have tail: "heap_tail ?st (hp_head ?h) = Some ?t"
        unfolding k(5) using heap_tail_rep [OF k(6)] k(8,9) by simp
      have lim: "heap_base + span xs + 4096 \<le> 4294967296"
        using e em(1) by (auto simp: e_def [symmetric] elim!: dvdE simp: mod_eq_0_iff_dvd)
      have run: "heap_map_more (Suc n) s = heap_map_more n ?s"
        using al f mp True k(11) tail by (simp add: Let_def flags flip: e_def)
      note g = grow_page_props [OF k(7)]
      have seg: "heap_seg (heap_append_page ?t ?st) 0 heap_base (grow_page xs) 0"
        using heap_append_page_rep [OF k(6,8)] lim by simp
      have tot: "unat (hp_total ?h + 4096) = span xs + 4096"
        using k(12) lim unat_plus_small [of "hp_total ?h" 4096] by simp
      have hm: "heap_mapped (e + 4096) v'"
        using k(14) m(7) True page_of_heap [OF em(1) e] unfolding heap_mapped_def act e_def [symmetric] by auto
      have "heap_ok D (grow_page xs) ?s"
        using ok m(1,2,7) g seg tot hm lim
        by (simp add: heap_ok_def act e_def add.assoc mod_add_eq [symmetric])
      then show thesis using m(2,3,4) by (intro grow [OF run]) auto
    qed
  qed
qed

text \<open>The bytes the heap has plus the bytes of the frames it could still take: growing never raises it.\<close>

definition footprint :: "blk list \<Rightarrow> kmem \<Rightarrow> nat" where
  "footprint xs s = span xs + 4096 * card (avail_frames (vm_pmm (km_vm s)))"

lemma heap_map_more_ok:
  assumes "heap_ok D xs s"
  obtains r s' xs' where "heap_map_more n s = Some (r, s')" "heap_ok D xs' s'"
    "\<And>a. allocs a xs' = allocs a xs" "used_bytes xs' = used_bytes xs" "vm_pg (km_vm s') = vm_pg (km_vm s)"
    "avail_frames (vm_pmm (km_vm s')) \<subseteq> avail_frames (vm_pmm (km_vm s))"
    "0 < n \<Longrightarrow> r \<Longrightarrow> card (avail_frames (vm_pmm (km_vm s'))) < card (avail_frames (vm_pmm (km_vm s)))"
    "\<not> r \<Longrightarrow> avail_frames (vm_pmm (km_vm s')) = {} \<or> heap_base + span xs' = 4294967296"
    "footprint xs' s' \<le> footprint xs s"
proof -
  have "\<exists>r s' xs'. heap_map_more n s = Some (r, s') \<and> heap_ok D xs' s' \<and>
    (\<forall>a. allocs a xs' = allocs a xs) \<and> used_bytes xs' = used_bytes xs \<and> vm_pg (km_vm s') = vm_pg (km_vm s) \<and>
    avail_frames (vm_pmm (km_vm s')) \<subseteq> avail_frames (vm_pmm (km_vm s)) \<and>
    (0 < n \<longrightarrow> r \<longrightarrow> card (avail_frames (vm_pmm (km_vm s'))) < card (avail_frames (vm_pmm (km_vm s)))) \<and>
    (\<not> r \<longrightarrow> avail_frames (vm_pmm (km_vm s')) = {} \<or> heap_base + span xs' = 4294967296) \<and>
    footprint xs' s' \<le> footprint xs s"
    using assms
  proof (induction n arbitrary: xs s)
    case 0
    then show ?case by auto
  next
    case (Suc n)
    show ?case
    proof (cases rule: heap_grow_one [OF Suc.prems, of n])
      case (1 s')
      have "footprint xs s' \<le> footprint xs s"
        using card_mono [OF finite_avail [OF heap_okD(2) [OF Suc.prems]] 1(5)] by (simp add: footprint_def)
      with 1 show ?thesis by blast
    next
      case (2 s1)
      from Suc.IH [OF 2(2)] obtain r s' xs' where IH: "heap_map_more n s1 = Some (r, s')" "heap_ok D xs' s'"
        "\<forall>a. allocs a xs' = allocs a (grow_page xs)" "used_bytes xs' = used_bytes (grow_page xs)"
        "vm_pg (km_vm s') = vm_pg (km_vm s1)"
        "avail_frames (vm_pmm (km_vm s')) \<subseteq> avail_frames (vm_pmm (km_vm s1))"
        "\<not> r \<longrightarrow> avail_frames (vm_pmm (km_vm s')) = {} \<or> heap_base + span xs' = 4294967296"
        "footprint xs' s' \<le> footprint (grow_page xs) s1" by blast
      have "finite (avail_frames (vm_pmm (km_vm s1)))" by (rule finite_avail) (rule heap_okD [OF 2(2)])
      then have "card (avail_frames (vm_pmm (km_vm s'))) \<le> card (avail_frames (vm_pmm (km_vm s1)))"
        using IH(6) by (rule card_mono)
      moreover have "footprint (grow_page xs) s1 \<le> footprint xs s"
        using 2(3) grow_page_props(2) [OF heap_okD(7) [OF Suc.prems]] by (simp add: footprint_def)
      ultimately show ?thesis
        using 2 IH grow_page_props(3,4) [OF heap_okD(7) [OF Suc.prems]]
        by (intro exI [of _ r] exI [of _ s'] exI [of _ xs']) auto
    qed
  qed
  then show thesis using that by blast
qed

lemma heap_set_free:
  assumes rep: "heap_seg st 0 a (ys @ (n, f) # zs) 0" and lim: "a + span (ys @ (n, f) # zs) \<le> 4294967296"
  defines "A \<equiv> of_nat (a + span ys)"
  shows "heap_seg (st(A := (st A)\<lparr>hb_free := c\<rparr>)) 0 a (ys @ (n, c \<noteq> 0) # zs) 0"
proof -
  have "heap_seg (st(A := h)) p a ys nx = heap_seg st p a ys nx" for h p nx
    unfolding A_def by (rule heap_seg_upd [OF starts_outside(2)]) (use lim in auto)
  moreover have "heap_seg (st(A := h)) p (a + span ys + 16 + n) zs nx =
      heap_seg st p (a + span ys + 16 + n) zs nx" for h p nx
    unfolding A_def by (rule heap_seg_upd [OF starts_outside(1)]) (use lim in auto)
  ultimately show ?thesis using rep by (simp add: heap_seg_at A_def)
qed

lemma heap_take_ok:
  assumes ok: "heap_ok D xs s" and xs: "xs = ys @ (n, True) # zs"
    and w: "w \<le> n" "0 < w" "w mod 8 = 0"
  defines "A \<equiv> of_nat (heap_base + span ys)"
  shows "heap_ok D (take_at w ys n zs) (s\<lparr>km_heap := heap_take A (of_nat w) (km_heap s)\<rparr>)"
proof -
  note k = heap_okD [OF ok]
  let ?h = "km_heap s"
  let ?m = "if n \<le> w + 24 then n else w"
  let ?st1 = "heap_split_block A (of_nat w) (hp_blocks ?h)"
  let ?st2 = "?st1(A := (?st1 A)\<lparr>hb_free := 0\<rparr>)"
  let ?rest = "(if n \<le> w + 24 then zs else (n - w - 16, True) # zs)"
  have lim: "heap_base + span (ys @ (n, True) # zs) \<le> 4294967296" using k(9) xs by simp
  have "heap_seg ?st1 0 heap_base (ys @ (if n \<le> w + 24 then [(n, True)] else [(w, True), (n - w - 16, True)]) @ zs) 0"
    unfolding A_def using k(6) lim w by (intro heap_split_rep) (auto simp: xs)
  then have seg1: "heap_seg ?st1 0 heap_base (ys @ (?m, True) # ?rest) 0" by (auto split: if_splits)
  have "heap_seg ?st2 0 heap_base (ys @ (?m, 0 \<noteq> (0 :: u32)) # ?rest) 0"
    unfolding A_def by (rule heap_set_free [OF seg1 [unfolded A_def]]) (use lim w in auto)
  then have seg: "heap_seg ?st2 0 heap_base (take_at w ys n zs) 0"
    by (auto simp: take_at_def split: if_splits)
  have sz: "unat (hb_size (?st2 A)) = ?m" using seg1 by (simp add: heap_seg_at A_def)
  have ub: "used_bytes (take_at w ys n zs) = used_bytes xs + ?m" using take_at_allocs(2) [OF w(1)] xs by simp
  have sp: "span (take_at w ys n zs) = span xs" using take_at_span [OF w(1)] xs by simp
  have "used_bytes xs + ?m < 4294967296" using used_le_span [of "take_at w ys n zs"] ub sp k(9) by simp
  then have "unat (hp_used ?h + hb_size (?st2 A)) = used_bytes xs + ?m"
    using k(13) sz unat_plus_small [of "hp_used ?h" "hb_size (?st2 A)"] by simp
  then show ?thesis
    using ok seg ub sp take_at_wf [of ys n zs w] k(7) xs w
    by (simp add: heap_ok_def heap_take_def Let_def)
qed

lemma span_pos: "xs \<noteq> [] \<Longrightarrow> 16 \<le> span xs"
  by (cases xs rule: span.cases) auto

lemma span_prefix_unique:
  assumes "ys @ b # zs = ys' @ b' # zs'" and "span ys = span ys'"
  shows "ys = ys' \<and> b = b' \<and> zs = zs'"
proof -
  from assms(1) consider us where "ys = ys' @ us" "us @ b # zs = b' # zs'"
    | us where "ys @ us = ys'" "b # zs = us @ b' # zs'"
    by (auto simp: append_eq_append_conv2)
  then show ?thesis
  proof cases
    case (1 us)
    with assms(2) span_pos [of us] have "us = []" by fastforce
    with 1 show ?thesis by simp
  next
    case (2 us)
    with assms(2) span_pos [of us] have "us = []" by fastforce
    with 2 show ?thesis by simp
  qed
qed

lemma span_mod8: "\<forall>b \<in> set xs. fst b mod 8 = 0 \<Longrightarrow> span xs mod 8 = 0"
  by (induction xs rule: span.induct) (auto simp: mod_add_eq [symmetric])

text \<open>What a run of the allocator does to the abstract heap: it either hands out a new block of at least
  \<open>w\<close> bytes, or fails with nothing allocated because no frame or no heap address is left.\<close>

definition alloc_fails :: "blk list \<Rightarrow> blk list \<Rightarrow> kmem \<Rightarrow> bool" where
  "alloc_fails xs xs' s' \<longleftrightarrow> allocs heap_base xs' = allocs heap_base xs \<and> used_bytes xs' = used_bytes xs \<and>
     (avail_frames (vm_pmm (km_vm s')) = {} \<or> heap_base + span xs' = 4294967296)"

definition alloc_grants :: "nat \<Rightarrow> blk list \<Rightarrow> blk list \<Rightarrow> nat \<Rightarrow> bool" where
  "alloc_grants w xs xs' p \<longleftrightarrow> (\<exists>n. w \<le> n \<and> n \<le> w + 24 \<and> p mod 8 = 0 \<and> (\<forall>m. (p, m) \<notin> allocs heap_base xs) \<and>
     allocs heap_base xs' = insert (p, n) (allocs heap_base xs) \<and> used_bytes xs' = used_bytes xs + n)"

definition alloc_step :: "u32 set \<Rightarrow> nat \<Rightarrow> blk list \<Rightarrow> kmem \<Rightarrow> u32 \<Rightarrow> blk list \<Rightarrow> kmem \<Rightarrow> bool" where
  "alloc_step D w xs s ptr xs' s' \<longleftrightarrow> heap_ok D xs' s' \<and> vm_pg (km_vm s') = vm_pg (km_vm s) \<and>
     avail_frames (vm_pmm (km_vm s')) \<subseteq> avail_frames (vm_pmm (km_vm s)) \<and>
     footprint xs' s' \<le> footprint xs s \<and>
     (if ptr = 0 then alloc_fails xs xs' s' else alloc_grants w xs xs' (unat ptr))"

lemma alloc_step_grow:
  assumes "alloc_step D w xs1 s1 ptr xs' s'" "\<And>a. allocs a xs1 = allocs a xs" "used_bytes xs1 = used_bytes xs"
    "vm_pg (km_vm s1) = vm_pg (km_vm s)"
    "avail_frames (vm_pmm (km_vm s1)) \<subseteq> avail_frames (vm_pmm (km_vm s))" "footprint xs1 s1 \<le> footprint xs s"
  shows "alloc_step D w xs s ptr xs' s'"
  using assms unfolding alloc_step_def alloc_fails_def alloc_grants_def by (auto split: if_splits)

lemma alloc_step_take:
  assumes ok: "heap_ok D xs s" and xs: "xs = ys @ (n, True) # zs" and w: "0 < w" "w mod 8 = 0" "w \<le> n"
  defines "A \<equiv> of_nat (heap_base + span ys)"
  shows "alloc_step D w xs s (A + 16) (take_at w ys n zs)
    (s\<lparr>km_heap := heap_take A (of_nat w) (km_heap s)\<rparr>)"
proof -
  note k = heap_okD [OF ok]
  let ?a = "heap_base + span ys"
  have lim: "?a + 16 < 4294967296" using k(9) w by (simp add: xs)
  have "A + 16 = of_nat (?a + 16)" by (simp add: A_def)
  then have up: "unat (A + 16) = ?a + 16" using unat_of_nat_u32 [OF lim] by simp
  have ok': "heap_ok D (take_at w ys n zs) (s\<lparr>km_heap := heap_take A (of_nat w) (km_heap s)\<rparr>)"
    unfolding A_def using heap_take_ok [OF ok xs w(3,1,2)] .
  have "\<forall>b \<in> set ys. fst b mod 8 = 0" using k(7) by (auto simp: blocks_wf_def xs)
  then have al: "(?a + 16) mod 8 = 0" using span_mod8 [of ys] by (simp add: mod_add_eq [symmetric])
  have fresh: "(?a + 16, m) \<notin> allocs heap_base xs" for m
  proof
    assume "(?a + 16, m) \<in> allocs heap_base xs"
    then obtain ys' zs' where "xs = ys' @ (m, False) # zs'" "span ys = span ys'"
      unfolding allocs_split by auto
    with span_prefix_unique [of ys "(n, True)" zs ys' "(m, False)" zs'] xs show False by simp
  qed
  have "alloc_grants w xs (take_at w ys n zs) (?a + 16)"
    unfolding alloc_grants_def using al fresh take_at_allocs(1) [OF w(3), of heap_base ys zs, folded xs] w(3)
      take_at_allocs(2) [OF w(3), of ys zs, folded xs]
    by (intro exI [of _ "if n \<le> w + 24 then n else w"]) auto
  moreover have "A + 16 \<noteq> 0" using up by auto
  moreover have "span (take_at w ys n zs) = span xs" unfolding xs using w(3) by (rule take_at_span)
  ultimately show ?thesis using ok' up by (simp add: alloc_step_def footprint_def)
qed

lemma kmalloc_loop_ok:
  assumes "heap_ok D xs s" and w: "0 < w" "w mod 8 = 0" "w \<le> 2147483648"
  shows "\<exists>ptr s' xs'. kmalloc_loop (of_nat w) s = Some (ptr, s') \<and> alloc_step D w xs s ptr xs' s'"
  using assms(1)
proof (induction "card (avail_frames (vm_pmm (km_vm s)))" arbitrary: s xs rule: less_induct)
  case less
  note k = heap_okD [OF less.prems]
  have uw: "unat (of_nat w :: u32) = w" using w by (intro unat_of_nat_u32) simp
  have find: "heap_find (hp_blocks (km_heap s)) (of_nat w) (hp_head (km_heap s)) =
      Some (case first_idx (fits w) xs of None \<Rightarrow> 0 | Some i \<Rightarrow> of_nat (heap_base + span (take i xs)))"
    unfolding k(5) using heap_find_rep [OF k(6), of "of_nat w"] k(8,9) uw by simp
  show ?case
  proof (cases "first_idx (fits w) xs")
    case None
    obtain r s1 xs1 where g: "heap_map_more 8 s = Some (r, s1)" "heap_ok D xs1 s1"
      "\<And>a. allocs a xs1 = allocs a xs" "used_bytes xs1 = used_bytes xs" "vm_pg (km_vm s1) = vm_pg (km_vm s)"
      "avail_frames (vm_pmm (km_vm s1)) \<subseteq> avail_frames (vm_pmm (km_vm s))"
      "r \<longrightarrow> card (avail_frames (vm_pmm (km_vm s1))) < card (avail_frames (vm_pmm (km_vm s)))"
      "\<not> r \<longrightarrow> avail_frames (vm_pmm (km_vm s1)) = {} \<or> heap_base + span xs1 = 4294967296"
      "footprint xs1 s1 \<le> footprint xs s"
      by (rule heap_map_more_ok [OF less.prems, where n = 8], rule that, assumption+) auto
    have run: "kmalloc_loop (of_nat w) s = (if r then kmalloc_loop (of_nat w) s1 else Some (0, s1))"
      using None find g(1) by (subst kmalloc_loop.simps) simp
    show ?thesis
    proof (cases r)
      case False
      with run g(2-6,8,9) show ?thesis
        by (intro exI [of _ 0] exI [of _ s1] exI [of _ xs1]) (simp add: alloc_step_def alloc_fails_def)
    next
      case True
      with less.hyps [OF _ g(2)] g(7) obtain ptr s' xs'
        where "kmalloc_loop (of_nat w) s1 = Some (ptr, s')" "alloc_step D w xs1 s1 ptr xs' s'" by auto
      moreover from this(2) have "alloc_step D w xs s ptr xs' s'" by (rule alloc_step_grow [OF _ g(3-6,9)])
      ultimately show ?thesis using True run by auto
    qed
  next
    case (Some i)
    obtain n where i: "i < length xs" "xs ! i = (n, True)" "w \<le> n"
      using Some by (cases "xs ! i") (auto simp: first_idx_Some fits_def)
    have xs: "xs = take i xs @ (n, True) # drop (Suc i) xs"
      unfolding i(2) [symmetric] by (rule id_take_nth_drop [OF i(1)])
    let ?A = "of_nat (heap_base + span (take i xs)) :: u32"
    have "heap_base + span (take i xs) < 4294967296" using k(9) arg_cong [OF xs, of span] by simp
    then have "?A \<noteq> 0" using of_nat_u32_eq_0 [of "heap_base + span (take i xs)"] by simp
    then have "kmalloc_loop (of_nat w) s = Some (?A + 16, s\<lparr>km_heap := heap_take ?A (of_nat w) (km_heap s)\<rparr>)"
      using Some find by (subst kmalloc_loop.simps) simp
    with alloc_step_take [OF less.prems xs w(1,2) i(3)] show ?thesis by blast
  qed
qed

lemma unat_align_up_8:
  assumes "unat sz \<le> 2147483647"
  shows "align_up_8 sz = of_nat ((unat sz + 7) div 8 * 8)"
proof -
  have "unat (sz + 7) = unat sz + 7" using assms unat_plus_small [of sz 7] by simp
  moreover have "mask 3 = (7 :: u32)" by (simp add: mask_eq_exp_minus_1)
  then have "unat (align_up_8 sz) = unat (sz + 7) div 8 * 8"
    unfolding align_up_8_def using unat_and_not_mask [of "sz + 7" 3] by (simp only: power_numeral_even) simp
  ultimately show ?thesis by (metis of_nat_unat ucast_id)
qed

lemma kmalloc_ok:
  assumes ok: "heap_ok D xs s" and sz: "0 < unat sz" "unat sz \<le> 2147483647"
  obtains ptr s' xs' where "kmalloc sz s = Some (ptr, s')"
    "alloc_step D ((unat sz + 7) div 8 * 8) xs s ptr xs' s'"
proof -
  let ?w = "(unat sz + 7) div 8 * 8"
  have w: "0 < ?w" "?w mod 8 = 0" "?w \<le> 2147483648" using sz div_le_mono [of "unat sz + 7" 2147483654 8] by simp_all
  have "sz \<noteq> 0" "\<not> 0x7FFFFFFF < sz" using sz by (auto simp: word_less_nat_alt)
  then have "kmalloc sz s = kmalloc_loop (of_nat ?w) s"
    using heap_okD(4) [OF ok] unat_align_up_8 [OF sz(2)] by (simp add: kmalloc_def)
  with kmalloc_loop_ok [OF ok w] that show thesis by auto
qed

lemma heap_coalesce_rep:
  assumes rep: "heap_seg st 0 a (ys @ (n, True) # zs) 0"
    and lim: "a + span (ys @ (n, True) # zs) \<le> 4294967296" and a: "0 < a"
  shows "heap_seg (heap_coalesce (of_nat (a + span ys)) st) 0 a (free_at ys n zs) 0"
proof -
  let ?A = "of_nat (a + span ys) :: u32"
  have st1: "heap_seg (heap_merge_next ?A st) 0 a (ys @ merge_right n zs) 0"
  proof (cases zs)
    case Nil
    with rep heap_merge_next_last [of st a ys n True] show ?thesis by (simp add: merge_right_def)
  next
    case (Cons z us)
    obtain k g where z: "z = (k, g)" by (cases z)
    show ?thesis
      using heap_merge_next_rep [of st a ys n True k g us] rep lim a
      by (cases g) (simp_all add: Cons z merge_right_def)
  qed
  obtain m us where mr: "merge_right n zs = (m, True) # us" "16 + m + span us = 16 + n + span zs"
    by (rule merge_right_cases [of n zs a])
  show ?thesis
  proof (cases ys rule: rev_cases)
    case Nil
    with st1 heap_merge_prev_first [of "heap_merge_next ?A st" a m True us] mr
    show ?thesis by (simp add: heap_coalesce_def free_at_def)
  next
    case (snoc vs y)
    obtain k g where y: "y = (k, g)" by (cases y)
    show ?thesis
      using heap_merge_prev_rep [of "heap_merge_next ?A st" a vs k g m True us] st1 lim a mr
      by (cases g) (simp_all add: snoc y heap_coalesce_def free_at_def add.assoc)
  qed
qed

lemma kfree_ok:
  assumes ok: "heap_ok D xs s" and al: "(unat ptr, n) \<in> allocs heap_base xs"
    and room: "heap_base + span xs < 4294967296"
  obtains xs' where "heap_ok D xs' (kfree ptr s)" "allocs heap_base xs' = allocs heap_base xs - {(unat ptr, n)}"
    "used_bytes xs' + n = used_bytes xs" "km_vm (kfree ptr s) = km_vm s"
proof -
  note k = heap_okD [OF ok]
  from al obtain ys zs where xs: "xs = ys @ (n, False) # zs" and up: "unat ptr = heap_base + span ys + 16"
    unfolding allocs_split by auto
  define A where "A = (of_nat (heap_base + span ys) :: u32)"
  have lim: "heap_base + span ys + 16 + n + span zs \<le> 4294967296" using k(9) by (simp add: xs)
  have n: "0 < n" using k(7) by (simp add: xs blocks_wf_def)
  have uA: "unat A = heap_base + span ys" unfolding A_def using lim n by (intro unat_of_nat_u32) simp
  have "unat (A + 16) = unat ptr" using uA up lim n unat_plus_small [of A 16] by simp
  then have ptr: "ptr = A + 16" by (simp only: unat_inj_u32)
  have st: "hb_free (hp_blocks (km_heap s) A) = 0" "unat (hb_size (hp_blocks (km_heap s) A)) = n"
    using k(6) by (simp_all add: xs heap_seg_at A_def)
  have used: "n \<le> unat (hp_used (km_heap s))" using k(13) by (simp add: xs)
  define st1 where "st1 = (hp_blocks (km_heap s))(A := (hp_blocks (km_heap s) A)\<lparr>hb_free := 1\<rparr>)"
  define s' where "s' = s\<lparr>km_heap := (km_heap s)\<lparr>hp_used := hp_used (km_heap s) - hb_size (st1 A),
    hp_blocks := heap_coalesce A st1\<rparr>\<rparr>"
  have "unat (hp_end (km_heap s)) = heap_base + span xs" unfolding k(11) using room by (rule unat_of_nat_u32)
  then have "unat ptr < unat (hp_end (km_heap s))" using up n by (simp add: xs)
  then have guard: "\<not> (ptr < KHEAP_START + HB_BYTES \<or> hp_end (km_heap s) \<le> ptr)" "ptr \<noteq> 0"
    using up by (auto simp: word_less_nat_alt word_le_nat_alt)
  have run: "kfree ptr s = s'"
    using guard st used k(4) by (simp add: kfree_def Let_def s'_def st1_def ptr word_le_nat_alt)
  have seg: "heap_seg (heap_coalesce A st1) 0 heap_base (free_at ys n zs) 0"
    unfolding A_def
  proof (rule heap_coalesce_rep)
    show "heap_seg st1 0 heap_base (ys @ (n, True) # zs) 0"
      using heap_set_free [of "hp_blocks (km_heap s)" heap_base ys n False zs 1] k(6) lim
      by (simp add: st1_def A_def xs)
  qed (use lim in simp_all)
  note f = free_at_props [where ys = ys and n = n and zs = zs, folded xs]
  have "unat (hp_used (km_heap s) - hb_size (st1 A)) + n = used_bytes xs"
    using used st k(13) by (simp add: st1_def unat_sub word_le_nat_alt)
  then have ok': "heap_ok D (free_at ys n zs) s'"
    using ok seg f(1,2,4) by (simp add: heap_ok_def s'_def)
  have "allocs heap_base (free_at ys n zs) = allocs heap_base xs - {(unat ptr, n)}"
    using allocs_bounds [of "unat ptr" n heap_base ys]
      allocs_bounds [of "unat ptr" n "heap_base + span ys + 16 + n" zs] n
    unfolding f(3) by (auto simp: xs up allocs_append)
  with ok' run f(2) show thesis by (intro that [of "free_at ys n zs"]) (simp_all add: s'_def)
qed

section \<open>Set-up\<close>

lemma kheap_map_initial_ok:
  assumes "vm_ok D v" "pg_is_enabled (vm_pg v)" "heap_mapped (heap_base + i * 4096) v" "i \<le> n"
    "heap_base + n * 4096 < 4294967296"
    and "kheap_map_initial [i..<n] v = (r, v')"
  shows "vm_ok D v' \<and> vm_pg v' = vm_pg v \<and> avail_frames (vm_pmm v') \<subseteq> avail_frames (vm_pmm v) \<and>
    (pte_at (vm_mem v) (paging_active_directory v) 0 \<noteq> None \<longrightarrow>
      pte_at (vm_mem v') (paging_active_directory v) 0 \<noteq> None) \<and>
    (if r then heap_mapped (heap_base + n * 4096) v' else avail_frames (vm_pmm v') = {})"
  using assms
proof (induction "n - i" arbitrary: i v)
  case 0
  then show ?case by simp
next
  case (Suc k)
  then have i: "i < n" "[i..<n] = i # [Suc i..<n]" by (simp_all add: upt_conv_Cons)
  define e where "e = heap_base + i * 4096"
  define virt where "virt = (KHEAP_START + of_nat i * 4096 :: u32)"
  have virt: "virt = of_nat e" by (simp add: virt_def e_def)
  have e: "e < 4294967296" "e mod 4096 = 0" using Suc.prems(5) i(1) by (simp_all add: e_def mod_add_eq [symmetric])
  have off: "virt AND 0xFFF = 0"
    unfolding virt page_offset_eq_0 unat_of_nat using e(2) by (simp add: mod_mod_cancel)
  obtain f p where al: "pmm_alloc_frame (vm_pmm v) = (f, p)" by fastforce
  note va = vm_ok_alloc [OF Suc.prems(1) al]
  obtain r1 v1 where mp: "paging_map_page virt f 3 (v\<lparr>vm_pmm := p\<rparr>) = (r1, v1)" by fastforce
  have flags: "(1 OR 2 :: u32) = 3" by simp
  have run: "kheap_map_initial (i # js) v = (if f = 0 then (False, v\<lparr>vm_pmm := p\<rparr>)
      else if \<not> r1 then (False, v1) else kheap_map_initial js v1)" for js
    using al mp by (simp add: Let_def flags virt_def)
  show ?case
  proof (cases "f = 0")
    case True
    with va(3) al Suc.prems run i(2) show ?thesis by auto
  next
    case False
    note m = map_fresh_page [OF Suc.prems(1,2) al False mp off]
    have act: "paging_active_directory v1 = paging_active_directory v" by (rule active_dir_cong [OF m(2)])
    have u: "unat virt = e" unfolding virt using e(1) by (rule unat_of_nat_u32)
    then have "heap_base \<le> unat virt" by (simp add: e_def)
    then have un: "pte_at (vm_mem v) (paging_active_directory v) virt = None"
      using Suc.prems(3) u unfolding heap_mapped_def e_def [symmetric] by (metis less_irrefl)
    show ?thesis
    proof (cases r1)
      case r1: False
      with m(1,2,4,5,7) un Suc.prems(6) False show ?thesis unfolding i(2) run by auto
    next
      case r1: True
      have hm: "heap_mapped (heap_base + Suc i * 4096) v1"
        using Suc.prems(3) m(7) r1 page_of_heap [OF e(2,1)] unfolding heap_mapped_def act e_def virt
        by (auto simp: add.commute)
      have "kheap_map_initial [Suc i..<n] v1 = (r, v')" using Suc.prems(6) r1 False unfolding i(2) run by simp
      note IH = Suc.hyps(1) [OF _ m(1) _ hm _ Suc.prems(5) this, unfolded act m(2)]
      have "k = n - Suc i" "Suc i \<le> n" using Suc.hyps(2) i(1) by simp_all
      from IH [OF this(1) Suc.prems(2) this(2)] m(4) m(7) [where x = 0] show ?thesis by (intro conjI) auto
    qed
  qed
qed

lemma kheap_init_ok:
  assumes ok: "vm_ok D (km_vm s)" "pg_is_enabled (vm_pg (km_vm s))" and un: "heap_mapped heap_base (km_vm s)"
    and z: "pte_at (vm_mem (km_vm s)) (paging_active_directory (km_vm s)) 0 \<noteq> None"
    and run: "kheap_init s = (r, s')"
  shows "if r then heap_ok D [(KHEAP_INITIAL_PAGES * 4096 - 16, True)] s'
    else avail_frames (vm_pmm (km_vm s')) = {} \<and> km_heap s' = km_heap s"
proof -
  obtain r1 v where mi: "kheap_map_initial [0..<KHEAP_INITIAL_PAGES] (km_vm s) = (r1, v)" by fastforce
  have init: "vm_ok D v \<and> vm_pg v = vm_pg (km_vm s) \<and> avail_frames (vm_pmm v) \<subseteq> avail_frames (vm_pmm (km_vm s)) \<and>
    (pte_at (vm_mem (km_vm s)) (paging_active_directory (km_vm s)) 0 \<noteq> None \<longrightarrow>
      pte_at (vm_mem v) (paging_active_directory (km_vm s)) 0 \<noteq> None) \<and>
    (if r1 then heap_mapped (heap_base + KHEAP_INITIAL_PAGES * 4096) v else avail_frames (vm_pmm v) = {})"
    by (rule kheap_map_initial_ok [OF ok _ _ _ mi]) (use un in simp_all)
  then have act: "paging_active_directory v = paging_active_directory (km_vm s)" by (intro active_dir_cong) simp
  show ?thesis
  proof (cases r1)
    case False
    with run mi init show ?thesis by (auto simp: kheap_init_def)
  next
    case True
    with run mi have r: "r" by (simp add: kheap_init_def Let_def)
    have s': "s' = snd (kheap_init s)" using run by simp
    show ?thesis
      using True mi init ok(2) z unfolding s'
      by (simp add: r kheap_init_def Let_def heap_ok_def act blocks_wf_def)
  qed
qed

section \<open>The allocator interface\<close>

text \<open>The block list is a function of the headers: a second list that represents the same heap is the same.\<close>

lemma heap_seg_unique:
  assumes "heap_seg st p a xs 0" "heap_seg st p a ys 0" "xs \<noteq> []" "ys \<noteq> []" "0 < a"
    "a + span xs \<le> 4294967296" "a + span ys \<le> 4294967296"
  shows "xs = ys"
  using assms
proof (induction xs arbitrary: p a ys)
  case (Cons x xs)
  obtain n f where x: "x = (n, f)" by (cases x)
  obtain m g zs where ys: "ys = (m, g) # zs" using Cons.prems(4) by (cases ys) auto
  have eq: "n = m" "f = g" using Cons.prems(1,2) by (auto simp: x ys)
  let ?b = "a + 16 + n"
  have nx: "(of_nat (if xs = [] then 0 else ?b) :: u32) = of_nat (if zs = [] then 0 else ?b)"
    using Cons.prems(1,2) by (auto simp: x ys eq)
  have "us \<noteq> [] \<Longrightarrow> ?b + span us \<le> 4294967296 \<Longrightarrow> (of_nat ?b :: u32) \<noteq> 0" for us
    using of_nat_u32_eq_0 [of ?b] span_pos [of us] by (auto simp del: of_nat_add)
  from this [of xs] this [of zs] nx Cons.prems(6,7) have "xs = [] \<longleftrightarrow> zs = []"
    by (auto simp: x ys eq simp del: of_nat_add split: if_splits)
  with Cons.IH [of a ?b zs] Cons.prems show ?case by (cases "xs = []") (auto simp: x ys eq)
qed simp

text \<open>The allocator's invariant for its clients: the heap is well formed and the machine has fewer frames
  than would fill the address space above the heap base.\<close>

definition heap_inv :: "kmem \<Rightarrow> bool" where
  "heap_inv s \<longleftrightarrow> (\<exists>D xs. heap_ok D xs s \<and> heap_base + footprint xs s < 4294967296)"

definition live :: "kmem \<Rightarrow> (nat \<times> nat) set" where
  "live s = {b. \<exists>D xs. heap_ok D xs s \<and> b \<in> allocs heap_base xs}"

lemma live_allocs:
  assumes "heap_ok D xs s"
  shows "live s = allocs heap_base xs"
proof -
  have "ys = xs" if "heap_ok E ys s" for E ys
    by (rule heap_seg_unique [OF heap_okD(6) [OF that] heap_okD(6) [OF assms] heap_okD(8) [OF that]
      heap_okD(8) [OF assms] _ heap_okD(9) [OF that] heap_okD(9) [OF assms]]) simp
  with assms show ?thesis unfolding live_def by blast
qed

lemma heap_invE:
  assumes "heap_inv s"
  obtains D xs where "heap_ok D xs s" "heap_base + footprint xs s < 4294967296" "live s = allocs heap_base xs"
    "heap_base + span xs < 4294967296"
proof -
  from assms obtain D xs where h: "heap_ok D xs s" "heap_base + footprint xs s < 4294967296"
    by (auto simp: heap_inv_def)
  moreover from h(2) have "heap_base + span xs < 4294967296" by (simp add: footprint_def)
  ultimately show thesis using that live_allocs by blast
qed

text \<open>What a client of \<open>kmalloc\<close> and \<open>kfree\<close> relies on.\<close>

locale block_allocator =
  fixes malloc :: "u32 \<Rightarrow> 's \<Rightarrow> (u32 \<times> 's) option"
    and release :: "u32 \<Rightarrow> 's \<Rightarrow> 's"
    and inv :: "'s \<Rightarrow> bool"
    and blocks :: "'s \<Rightarrow> (nat \<times> nat) set"
  assumes malloc_total: "inv s \<Longrightarrow> \<exists>p s'. malloc n s = Some (p, s')"
    and malloc_inv: "inv s \<Longrightarrow> malloc n s = Some (p, s') \<Longrightarrow> inv s'"
    and malloc_fail: "inv s \<Longrightarrow> malloc n s = Some (0, s') \<Longrightarrow> blocks s' = blocks s"
    and malloc_new: "inv s \<Longrightarrow> malloc n s = Some (p, s') \<Longrightarrow> p \<noteq> 0 \<Longrightarrow>
      \<exists>m. unat n \<le> m \<and> 0 < m \<and> blocks s' = insert (unat p, m) (blocks s) \<and> (\<forall>k. (unat p, k) \<notin> blocks s)"
    and blocks_apart: "inv s \<Longrightarrow> (a, k) \<in> blocks s \<Longrightarrow> (b, l) \<in> blocks s \<Longrightarrow>
      (a = b \<and> k = l) \<or> a + k \<le> b \<or> b + l \<le> a"
    and blocks_bound: "inv s \<Longrightarrow> (a, k) \<in> blocks s \<Longrightarrow> 0 < a \<and> 0 < k \<and> a + k < 4294967296"
    and release_inv: "inv s \<Longrightarrow> (unat p, k) \<in> blocks s \<Longrightarrow> inv (release p s)"
    and release_blocks: "inv s \<Longrightarrow> (unat p, k) \<in> blocks s \<Longrightarrow> blocks (release p s) = blocks s - {(unat p, k)}"
    and release_null: "release 0 s = s"
begin

lemma malloc_release:
  assumes "inv s" "malloc n s = Some (p, s')"
  shows "inv (release p s') \<and> blocks (release p s') = blocks s"
proof (cases "p = 0")
  case True
  with assms malloc_inv malloc_fail release_null show ?thesis by metis
next
  case False
  from malloc_new [OF assms False] obtain m
    where m: "blocks s' = insert (unat p, m) (blocks s)" "\<forall>k. (unat p, k) \<notin> blocks s" by auto
  have s': "inv s'" by (rule malloc_inv [OF assms])
  have "(unat p, m) \<in> blocks s'" using m by simp
  from release_inv [OF s' this] release_blocks [OF s' this] m show ?thesis by auto
qed

lemma malloc_apart:
  assumes "inv s" "malloc n s = Some (p, s')" "p \<noteq> 0" "(q, m) \<in> blocks s"
  shows "unat p + unat n \<le> q \<or> q + m \<le> unat p"
proof -
  from malloc_new [OF assms(1-3)] obtain k where k: "unat n \<le> k" "blocks s' = insert (unat p, k) (blocks s)"
    "\<forall>k. (unat p, k) \<notin> blocks s" by auto
  with blocks_apart [OF malloc_inv [OF assms(1,2)], of "unat p" k q m] assms(4) show ?thesis by auto
qed

lemma malloc_keeps:
  assumes "inv s" "malloc n s = Some (p, s')"
  shows "blocks s \<subseteq> blocks s'"
  using malloc_fail [OF assms(1)] malloc_new [OF assms] assms(2) by (cases "p = 0") auto

lemma release_keeps:
  assumes "inv s" "(unat p, n) \<in> blocks s" "(q, m) \<in> blocks s" "q \<noteq> unat p"
  shows "(q, m) \<in> blocks (release p s)"
  using assms release_blocks [OF assms(1,2)] by auto

end

lemma kmalloc_live:
  assumes "heap_inv s" "kmalloc sz s = Some (ptr, s')"
  shows "heap_inv s' \<and> (ptr = 0 \<longrightarrow> live s' = live s) \<and>
    (ptr \<noteq> 0 \<longrightarrow> (\<exists>m. unat sz \<le> m \<and> 0 < m \<and> live s' = insert (unat ptr, m) (live s) \<and>
      (\<forall>k. (unat ptr, k) \<notin> live s)))"
proof (cases "0 < unat sz \<and> unat sz \<le> 2147483647")
  case True
  obtain D xs where h: "heap_ok D xs s" "heap_base + footprint xs s < 4294967296" "live s = allocs heap_base xs"
    using assms(1) by (rule heap_invE)
  obtain xs' where st: "alloc_step D ((unat sz + 7) div 8 * 8) xs s ptr xs' s'"
  proof (rule kmalloc_ok [OF h(1), of sz])
    fix q t ys
    assume "kmalloc sz s = Some (q, t)" "alloc_step D ((unat sz + 7) div 8 * 8) xs s q ys t"
    with assms(2) that show thesis by simp
  qed (use True in simp_all)
  then have ok': "heap_ok D xs' s'" "footprint xs' s' \<le> footprint xs s" by (simp_all add: alloc_step_def)
  then have inv: "heap_inv s'" using h(2) unfolding heap_inv_def by (intro exI [of _ D] exI [of _ xs']) simp
  let ?w = "(unat sz + 7) div 8 * 8"
  have w: "unat sz \<le> ?w" by linarith
  have live': "live s' = allocs heap_base xs'" by (rule live_allocs [OF ok'(1)])
  show ?thesis
  proof (cases "ptr = 0")
    case True
    with st inv live' h(3) show ?thesis by (simp add: alloc_step_def alloc_fails_def)
  next
    case False
    with st obtain m where m: "?w \<le> m" "\<forall>k. (unat ptr, k) \<notin> live s" "live s' = insert (unat ptr, m) (live s)"
      unfolding live' h(3) alloc_step_def alloc_grants_def by auto
    then show ?thesis using inv False True w by (intro conjI impI exI [of _ m]) simp_all
  qed
next
  case False
  then have "sz = 0 \<or> 0x7FFFFFFF < sz" by (auto simp: word_less_nat_alt unat_eq_0)
  then have "ptr = 0 \<and> s' = s" using assms(2) by (auto simp: kmalloc_def split: if_splits)
  with assms(1) show ?thesis by simp
qed

lemma kmalloc_total: "heap_inv s \<Longrightarrow> \<exists>ptr s'. kmalloc sz s = Some (ptr, s')"
proof (cases "0 < unat sz \<and> unat sz \<le> 2147483647")
  case True
  assume "heap_inv s"
  then obtain D xs where "heap_ok D xs s" by (rule heap_invE)
  with True show ?thesis by (metis kmalloc_ok)
next
  case False
  then have "sz = 0 \<or> 0x7FFFFFFF < sz" by (auto simp: word_less_nat_alt unat_eq_0)
  then show ?thesis by (auto simp: kmalloc_def)
qed

lemma kfree_live:
  assumes "heap_inv s" "(unat ptr, n) \<in> live s"
  shows "heap_inv (kfree ptr s) \<and> live (kfree ptr s) = live s - {(unat ptr, n)} \<and>
    km_vm (kfree ptr s) = km_vm s"
proof -
  obtain D xs where h: "heap_ok D xs s" "heap_base + footprint xs s < 4294967296" "live s = allocs heap_base xs"
    "heap_base + span xs < 4294967296" using assms(1) by (rule heap_invE)
  have "(unat ptr, n) \<in> allocs heap_base xs" using assms(2) h(3) by simp
  from kfree_ok [OF h(1) this h(4)] obtain xs' where f: "heap_ok D xs' (kfree ptr s)"
    "allocs heap_base xs' = allocs heap_base xs - {(unat ptr, n)}" "km_vm (kfree ptr s) = km_vm s" by metis
  have "hp_total (km_heap (kfree ptr s)) = hp_total (km_heap s)" by (simp add: kfree_def Let_def)
  then have "span xs' = span xs" using heap_okD(12) [OF f(1)] heap_okD(12) [OF h(1)] by simp
  then have "heap_inv (kfree ptr s)" using f(1,3) h(2) unfolding heap_inv_def footprint_def by metis
  with f h(3) live_allocs [OF f(1)] show ?thesis by simp
qed

lemma live_bounds:
  assumes "heap_inv s" "(a, k) \<in> live s"
  shows "0 < a \<and> 0 < k \<and> a + k < 4294967296"
proof -
  obtain D xs where h: "heap_ok D xs s" "live s = allocs heap_base xs" "heap_base + span xs < 4294967296"
    using assms(1) by (rule heap_invE)
  from assms(2) have al: "(a, k) \<in> allocs heap_base xs" using h(2) by simp
  then have "(k, False) \<in> set xs" by (auto simp: allocs_split)
  then have "0 < k" using heap_okD(7) [OF h(1)] by (auto simp: blocks_wf_def)
  with allocs_bounds [OF al] h(3) show ?thesis by simp
qed

interpretation kheap_alloc: block_allocator kmalloc kfree heap_inv live
proof unfold_locales
  fix s :: kmem and n p :: u32 and s' and a k b l :: nat
  show "heap_inv s \<Longrightarrow> \<exists>p s'. kmalloc n s = Some (p, s')" by (rule kmalloc_total)
  show "heap_inv s \<Longrightarrow> kmalloc n s = Some (p, s') \<Longrightarrow> heap_inv s'" using kmalloc_live by blast
  show "heap_inv s \<Longrightarrow> kmalloc n s = Some (0, s') \<Longrightarrow> live s' = live s" using kmalloc_live by blast
  show "heap_inv s \<Longrightarrow> kmalloc n s = Some (p, s') \<Longrightarrow> p \<noteq> 0 \<Longrightarrow>
      \<exists>m. unat n \<le> m \<and> 0 < m \<and> live s' = insert (unat p, m) (live s) \<and> (\<forall>k. (unat p, k) \<notin> live s)"
    using kmalloc_live by blast
  show "heap_inv s \<Longrightarrow> (a, k) \<in> live s \<Longrightarrow> (b, l) \<in> live s \<Longrightarrow> a = b \<and> k = l \<or> a + k \<le> b \<or> b + l \<le> a"
    using allocs_disjoint [of a k heap_base _ b l] by (elim heap_invE) fastforce
  show "heap_inv s \<Longrightarrow> (a, k) \<in> live s \<Longrightarrow> 0 < a \<and> 0 < k \<and> a + k < 4294967296" by (rule live_bounds)
  show "heap_inv s \<Longrightarrow> (unat p, k) \<in> live s \<Longrightarrow> heap_inv (kfree p s)" using kfree_live by blast
  show "heap_inv s \<Longrightarrow> (unat p, k) \<in> live s \<Longrightarrow> live (kfree p s) = live s - {(unat p, k)}"
    using kfree_live by blast
  show "kfree 0 s = s" by (simp add: kfree_def Let_def)
qed

section \<open>Correctness of the heap\<close>

text \<open>A machine with a four-page heap for the instances.\<close>

definition demo_heap :: "pmm \<Rightarrow> kmem" where
  "demo_heap p =
     \<lparr>km_vm = (demo_vm p)\<lparr>vm_mem := fold (\<lambda>i m. entry_set m 0x300000 i (0x302003 + 4096 * of_nat i)) [0..<4]
        (entry_set (entry_set (entry_set (\<lambda>_. 0) 0x100000 832 0x300003) 0x100000 0 0x301003) 0x301000 0 3)\<rparr>,
      km_heap = \<lparr>hp_blocks = (\<lambda>_. \<lparr>hb_size = 16368, hb_free = 1, hb_next = 0, hb_prev = 0\<rparr>),
        hp_head = KHEAP_START, hp_end = KHEAP_START + 16384, hp_total = 16384, hp_used = 0, hp_ready = True\<rparr>\<rparr>"

lemma demo_heap_ok:
  assumes "pmm_ok p" "avail_frames p = {0x200000}"
  shows "heap_ok {0x100000} [(16368, True)] (demo_heap p)"
proof -
  let ?m = "vm_mem (km_vm (demo_heap p))"
  have pa: "page_addr 0x100000" "page_addr 0x300000" "page_addr 0x301000" by (simp_all add: page_addr_def)
  have z: "entry_get (\<lambda>_. 0) t i = 0" for t i by (simp add: entry_get_def load32_def)
  have up: "[0..<4] = [0, 1, 2, 3 :: nat]" by (simp add: upt_rec)
  have d: "entry_get ?m 0x100000 i = (if i = 832 then 0x300003 else if i = 0 then 0x301003 else 0)"
    if "i < 1024" for i using pa that by (simp add: demo_heap_def entry_get_set z up)
  have "entry_get ?m 0x300000 i = (if i = 0 then 0x302003 else if i = 1 then 0x303003 else if i = 2 then 0x304003
      else if i = 3 then 0x305003 else 0)" if "i < 1024" for i
    using pa that by (simp add: demo_heap_def entry_get_set z up)
  then have t: "pres (entry_get ?m 0x300000 i) \<longleftrightarrow> i < 4" if "i < 1024" for i using that by auto
  have t0: "entry_get ?m 0x301000 0 = 3" using pa by (simp add: demo_heap_def entry_get_set z up)
  have act: "paging_active_directory (km_vm (demo_heap p)) = 0x100000"
    by (simp add: demo_heap_def demo_vm_def paging_active_directory_def)
  have vm: "vm_ok {0x100000} (km_vm (demo_heap p))"
    using assms pa d act by (simp add: vm_ok_def pt_wf_def) (simp add: demo_heap_def demo_vm_def)
  have "pte_at ?m 0x100000 x \<noteq> None \<longleftrightarrow> unat x < heap_base + 16384" if "heap_base \<le> unat x" for x
  proof -
    have pd: "832 \<le> pd_index x" using that unfolding pd_index_eq by simp
    have "pte_at ?m 0x100000 x \<noteq> None \<longleftrightarrow> pd_index x = 832 \<and> pt_index x < 4"
      using pd by (cases "pd_index x = 832") (auto simp: pte_at_def Let_def d t)
    also have "\<dots> \<longleftrightarrow> page_of x < 832 * 1024 + 4"
    proof
      assume "page_of x < 832 * 1024 + 4"
      then show "pd_index x = 832 \<and> pt_index x < 4" using pd page_of_indices [of x] by linarith
    qed (use page_of_indices [of x] in simp)
    also have "\<dots> \<longleftrightarrow> unat x < heap_base + 16384" unfolding page_of_def by (simp add: div_less_iff_less_mult)
    finally show ?thesis .
  qed
  then have "heap_mapped (heap_base + 16384) (km_vm (demo_heap p))" unfolding heap_mapped_def act by blast
  moreover have "pte_at ?m 0x100000 0 \<noteq> None" by (simp add: pte_at_def Let_def d t0 pd_index_eq pt_index_eq)
  ultimately show ?thesis
    using vm unfolding heap_ok_def act by (simp add: demo_heap_def demo_vm_def blocks_wf_def)
qed

lemma kmalloc_fail_reason:
  assumes "heap_inv s" "kmalloc sz s = Some (0, s')"
  shows "sz = 0 \<or> 0x7FFFFFFF < sz \<or> avail_frames (vm_pmm (km_vm s')) = {}"
proof (rule ccontr)
  assume c: "\<not> ?thesis"
  then have sz: "0 < unat sz" "unat sz \<le> 2147483647" by (simp_all add: unat_gt_0 word_less_nat_alt)
  obtain D xs where h: "heap_ok D xs s" "heap_base + footprint xs s < 4294967296" using assms(1) by (rule heap_invE)
  obtain xs' where st: "alloc_step D ((unat sz + 7) div 8 * 8) xs s 0 xs' s'"
    using kmalloc_ok [OF h(1) sz] assms(2) by (metis option.inject prod.inject)
  then have "footprint xs' s' \<le> footprint xs s" by (simp add: alloc_step_def)
  then have "heap_base + span xs' < 4294967296" using h(2) by (simp add: footprint_def)
  with st c show False by (simp add: alloc_step_def alloc_fails_def)
qed

lemma live_size_sum: "heap_ok D xs s \<Longrightarrow> finite (live s) \<and> (\<Sum>b\<in>live s. snd b) = used_bytes xs"
proof -
  assume "heap_ok D xs s"
  moreover have "finite (allocs a xs) \<and> (\<Sum>b\<in>allocs a xs. snd b) = used_bytes xs" for a
  proof (induction xs arbitrary: a)
    case (Cons x xs)
    obtain n f where x: "x = (n, f)" by (cases x)
    have "(a + 16, n) \<notin> allocs (a + 16 + n) xs" using allocs_bounds [of "a + 16" n "a + 16 + n" xs] by auto
    with Cons.IH [of "a + 16 + n"] show ?case by (simp add: x)
  qed simp
  ultimately show ?thesis using live_allocs by simp
qed

text \<open>
  From any machine state with paging on, page 0 mapped and nothing mapped from 0xD0000000 up,
  \<open>kheap_init\<close> either fails because the frame allocator is exhausted, leaving the heap's own state as it
  was, or sets up a heap that is one free block of 16 pages less a header.
\<close>

theorem kheap_init_establishes:
  assumes "vm_ok D (km_vm s)" and "paging_enabled (km_vm s)" and "heap_mapped heap_base (km_vm s)"
    and "paging_translate 0 (km_vm s) \<noteq> None" and "kheap_init s = (r, s')"
  shows "if r then heap_ok D [(65520, True)] s' \<and> live s' = {} \<and> kheap_used_bytes s' = 0 \<and>
      kheap_total_bytes s' = 65536
    else avail_frames (vm_pmm (km_vm s')) = {} \<and> km_heap s' = km_heap s"
proof -
  have en: "pg_is_enabled (vm_pg (km_vm s))" using assms(2) by (simp add: paging_enabled_def)
  have "pte_at (vm_mem (km_vm s)) (paging_active_directory (km_vm s)) 0 \<noteq> None"
    using assms(4) en by (auto simp: translate_pte split: option.splits if_splits)
  note i = kheap_init_ok [OF assms(1) en assms(3) this assms(5)]
  show ?thesis
  proof (cases r)
    case True
    with i have ok: "heap_ok D [(65520, True)] s'" by simp
    from True assms(5) have "kheap_used_bytes s' = 0 \<and> kheap_total_bytes s' = 65536"
      by (auto simp: kheap_init_def kheap_used_bytes_def kheap_total_bytes_def Let_def split: prod.splits if_splits)
    with True ok live_allocs [OF ok] show ?thesis by simp
  qed (use i in simp)
qed


lemma demo_heap_inv:
  obtains p where "heap_ok {0x100000} [(16368, True)] (demo_heap p)" "heap_inv (demo_heap p)" "live (demo_heap p) = {}"
    "avail_frames p = {0x200000}"
proof -
  obtain p where p: "pmm_ok p" "avail_frames p = {0x200000}" by (rule demo_init)
  note ok = demo_heap_ok [OF p]
  have "footprint [(16368, True)] (demo_heap p) = 20480" using p(2) by (simp add: footprint_def demo_heap_def demo_vm_def)
  then have "heap_inv (demo_heap p)"
    unfolding heap_inv_def using ok by (intro exI [of _ "{0x100000}"] exI [of _ "[(16368, True)]"]) simp
  with that ok live_allocs [OF ok] p(2) show thesis by simp
qed

text \<open>The demo heap has a block large enough, so its first allocation succeeds at the first block.\<close>

lemma demo_heap_first:
  assumes "heap_ok {0x100000} [(16368, True)] (demo_heap p)" "0 < unat sz" "unat sz \<le> 16000"
  obtains s' where "kmalloc sz (demo_heap p) = Some (0xD0000010, s')"
proof -
  have "(unat sz + 7) div 8 * 8 \<le> 16368" using assms(3) by linarith
  then have "unat (align_up_8 sz) \<le> 16368"
    using unat_align_up_8 [of sz] unat_of_nat_u32 [of "(unat sz + 7) div 8 * 8"] assms(3) by simp
  then have le: "align_up_8 sz \<le> 16368" by (simp add: word_le_nat_alt)
  have "heap_find (hp_blocks (km_heap (demo_heap p))) (align_up_8 sz) (hp_head (km_heap (demo_heap p))) = Some KHEAP_START"
    using le by (subst heap_find.simps) (simp add: demo_heap_def)
  moreover have "sz \<noteq> 0" "\<not> 0x7FFFFFFF < sz" using assms(2,3) by (auto simp: word_less_nat_alt)
  ultimately have "kmalloc sz (demo_heap p) = Some (KHEAP_START + HB_BYTES,
      (demo_heap p)\<lparr>km_heap := heap_take KHEAP_START (align_up_8 sz) (km_heap (demo_heap p))\<rparr>)"
    using heap_okD(4) [OF assms(1)] by (simp add: kmalloc_def kmalloc_loop.simps)
  with that show thesis by simp
qed


text \<open>A machine with paging on and page 0 mapped, on which no heap exists yet.\<close>

definition demo_bare :: "pmm \<Rightarrow> kmem" where
  "demo_bare p = (demo_heap p)\<lparr>km_vm := (demo_vm p)\<lparr>vm_mem :=
     entry_set (entry_set (\<lambda>_. 0) 0x100000 0 0x301003) 0x301000 0 3\<rparr>\<rparr>"

theorem kheap_init_establishes_witness:
  "\<exists>s r s'. kheap_init s = (r, s') \<and> (if r then live s' = {} else avail_frames (vm_pmm (km_vm s')) = {})"
proof -
  obtain p where p: "pmm_ok p" "avail_frames p = {0x200000}" by (rule demo_init)
  let ?v = "km_vm (demo_bare p)"
  have pa: "page_addr 0x100000" "page_addr 0x301000" by (simp_all add: page_addr_def)
  have z: "entry_get (\<lambda>_. 0) t i = 0" for t i by (simp add: entry_get_def load32_def)
  have d: "entry_get (vm_mem ?v) 0x100000 i = (if i = 0 then 0x301003 else 0)" if "i < 1024" for i
    using pa that by (simp add: demo_bare_def entry_get_set z)
  have t: "entry_get (vm_mem ?v) 0x301000 i = (if i = 0 then 3 else 0)" if "i < 1024" for i
    using pa that by (simp add: demo_bare_def entry_get_set z)
  have act: "paging_active_directory ?v = 0x100000" and en: "pg_is_enabled (vm_pg ?v)"
    by (simp_all add: demo_bare_def demo_vm_def paging_active_directory_def)
  have vm: "vm_ok {0x100000} ?v"
    using p pa d act by (simp add: vm_ok_def pt_wf_def) (simp add: demo_bare_def demo_vm_def)
  have "pte_at (vm_mem ?v) 0x100000 x = None" if "heap_base \<le> unat x" for x
  proof -
    have "pd_index x \<noteq> 0" using that unfolding pd_index_eq by simp
    then show ?thesis by (simp add: pte_at_def Let_def d)
  qed
  then have hm: "heap_mapped heap_base ?v" unfolding heap_mapped_def act by auto
  have "pte_at (vm_mem ?v) 0x100000 0 = Some 3" by (simp add: pte_at_def Let_def d t pd_index_eq pt_index_eq)
  then have tr: "paging_translate 0 ?v \<noteq> None" using en by (simp add: translate_pte act)
  obtain r s' where run: "kheap_init (demo_bare p) = (r, s')" by fastforce
  from kheap_init_establishes [OF vm _ hm tr run] en run show ?thesis
    by (intro exI [of _ "demo_bare p"] exI [of _ r] exI [of _ s']) (simp add: paging_enabled_def split: if_splits)
qed

lemma kfree_twice: "kfree ptr (kfree ptr s) = kfree ptr s"
proof -
  have "hb_free (heap_merge_next b st c) = hb_free (st c)" "hb_free (heap_merge_prev b st c) = hb_free (st c)"
    for b c st by (simp_all add: heap_merge_prev_def heap_merge_next_def Let_def)
  then have "hb_free (heap_coalesce b st b) = hb_free (st b)" for b st by (simp add: heap_coalesce_def)
  then show ?thesis by (simp add: kfree_def Let_def)
qed

lemma kheap_used_live:
  assumes "heap_inv s"
  shows "unat (kheap_used_bytes s) = (\<Sum>b\<in>live s. snd b) \<and> kheap_used_bytes s \<le> kheap_total_bytes s"
proof -
  obtain D xs where h: "heap_ok D xs s" using assms by (rule heap_invE)
  show ?thesis
    using live_size_sum [OF h] heap_okD(12,13) [OF h] used_le_span [of xs]
    by (simp add: kheap_used_bytes_def kheap_total_bytes_def word_le_nat_alt)
qed


text \<open>
  Freeing what \<open>kmalloc\<close> just returned, be it a block or the null pointer of a failed call, gives back
  a well-formed heap with the very set of live blocks and the used-byte count from before; the counter is
  always the sum of the sizes of the live blocks and never exceeds the heap's extent.
\<close>

theorem kmalloc_kfree_roundtrip:
  assumes "heap_inv s" and "kmalloc sz s = Some (ptr, s')"
  shows "heap_inv (kfree ptr s') \<and> live (kfree ptr s') = live s \<and>
    kheap_used_bytes (kfree ptr s') = kheap_used_bytes s \<and>
    unat (kheap_used_bytes s') = (\<Sum>b\<in>live s'. snd b) \<and> kheap_used_bytes s' \<le> kheap_total_bytes s'"
proof -
  note r = kheap_alloc.malloc_release [OF assms]
  from r kheap_used_live [OF assms(1)] kheap_used_live [of "kfree ptr s'"]
  have "unat (kheap_used_bytes (kfree ptr s')) = unat (kheap_used_bytes s)" by simp
  then have "kheap_used_bytes (kfree ptr s') = kheap_used_bytes s" by (simp only: unat_inj_u32)
  with r kheap_used_live [OF kheap_alloc.malloc_inv [OF assms]] show ?thesis by simp
qed

theorem kmalloc_kfree_roundtrip_witness:
  "\<exists>s ptr s'. heap_inv s \<and> kmalloc 64 s = Some (ptr, s') \<and> live (kfree ptr s') = live s"
proof -
  obtain p where p: "heap_inv (demo_heap p)" by (rule demo_heap_inv)
  from kmalloc_total [OF p, of 64] obtain ptr s' where "kmalloc 64 (demo_heap p) = Some (ptr, s')" by blast
  with kmalloc_kfree_roundtrip [OF p this] p show ?thesis by blast
qed


end
