(* ===== verification/Vfs.thy ===== *)
theory Vfs
  imports Kheap Slot_Table
begin

text \<open>
  The RAM file system of \<open>vfs.c\<close>: 64 slots with a name, a pointer to a heap block with the
  NUL-terminated contents, a length and an in-use flag.  The contents live in the bytes of the kernel
  heap, here a store of characters indexed by virtual address, apart from the block headers of
  \<open>Kheap\<close>.  The abstract state is a map from names to contents; a write is a map update, and every
  block of the heap that is not a file's stays as it was, so that no block is leaked.
\<close>

section \<open>State and operations\<close>

abbreviation VFS_MAX_FILES :: nat where "VFS_MAX_FILES \<equiv> 64"
abbreviation VFS_NAME_MAX :: u32 where "VFS_NAME_MAX \<equiv> 32"

record vfs_file =
  vf_name :: string
  vf_data :: u32
  vf_len :: u32
  vf_used :: u8

record kfs =
  fs_km :: kmem
  fs_bytes :: "u32 \<Rightarrow> char"
  fs_files :: "vfs_file list"
  fs_ready :: bool

definition vfs_str_len :: "string \<Rightarrow> u32" where
  "vfs_str_len s = of_nat (str_len_loop s 0)"

definition vfs_name_valid :: "string option \<Rightarrow> bool" where
  "vfs_name_valid name =
     (case name of None \<Rightarrow> False | Some n \<Rightarrow> if c_at n 0 = NUL then False else vfs_str_len n < VFS_NAME_MAX)"

definition vfs_str_copy :: "string \<Rightarrow> u32 \<Rightarrow> string \<Rightarrow> string" where
  "vfs_str_copy dst max_len src = (if max_len = 0 then dst else fst (str_copy_loop dst src (unat max_len) 0))"

definition vfs_find_file :: "string \<Rightarrow> vfs_file list \<Rightarrow> nat option" where
  "vfs_find_file name = first_idx (\<lambda>e. vf_used e \<noteq> 0 \<and> str_eq_loop (vf_name e) name 0)"

definition vfs_find_free_slot :: "vfs_file list \<Rightarrow> nat option" where
  "vfs_find_free_slot = first_idx (\<lambda>e. vf_used e = 0)"

text \<open>\<open>for (i = 0; i < len; i++) buf[i] = data[i]; buf[len] = '\0';\<close>\<close>

definition vfs_put_text :: "u32 \<Rightarrow> string \<Rightarrow> u32 \<Rightarrow> (u32 \<Rightarrow> char) \<Rightarrow> (u32 \<Rightarrow> char)" where
  "vfs_put_text buf data len b =
     (fold (\<lambda>i b. b(buf + of_nat i := c_at data i)) [0..<unat len] b)(buf + len := NUL)"

definition vfs_write_file :: "string option \<Rightarrow> string option \<Rightarrow> kfs \<Rightarrow> (bool \<times> kfs) option" where
  "vfs_write_file name data s =
     (if \<not> fs_ready s \<or> data = None then Some (False, s)
      else if \<not> vfs_name_valid name then Some (False, s)
      else
        let len = vfs_str_len (the data) in
        case kmalloc (len + 1) (fs_km s) of
          None \<Rightarrow> None
        | Some (buf, km) \<Rightarrow>
            if buf = 0 then Some (False, s\<lparr>fs_km := km\<rparr>)
            else
              let s1 = s\<lparr>fs_km := km, fs_bytes := vfs_put_text buf (the data) len (fs_bytes s)\<rparr> in
              case vfs_find_file (the name) (fs_files s1) of
                None \<Rightarrow>
                  (case vfs_find_free_slot (fs_files s1) of
                     None \<Rightarrow> Some (False, s1\<lparr>fs_km := kfree buf (fs_km s1)\<rparr>)
                   | Some idx \<Rightarrow>
                       let e = fs_files s1 ! idx;
                           e1 = e\<lparr>vf_used := 1, vf_name := vfs_str_copy (vf_name e) VFS_NAME_MAX (the name)\<rparr>
                       in Some (True, s1\<lparr>fs_files := (fs_files s1)[idx := e1\<lparr>vf_data := buf, vf_len := len\<rparr>]\<rparr>))
              | Some idx \<Rightarrow>
                  let e = fs_files s1 ! idx;
                      s2 = (if vf_data e \<noteq> 0 then s1\<lparr>fs_km := kfree (vf_data e) (fs_km s1)\<rparr> else s1)
                  in Some (True, s2\<lparr>fs_files := (fs_files s2)[idx := e\<lparr>vf_data := buf, vf_len := len\<rparr>]\<rparr>))"

definition vfs_clear :: "vfs_file \<Rightarrow> vfs_file" where
  "vfs_clear e = e\<lparr>vf_name := (vf_name e)[0 := NUL], vf_data := 0, vf_len := 0, vf_used := 0\<rparr>"

text \<open>The text of the user program is generated by the build; it is an argument here.\<close>

definition vfs_init :: "string \<Rightarrow> kfs \<Rightarrow> (bool \<times> kfs) option" where
  "vfs_init app_hello_ping_marshex s =
     (let s0 = s\<lparr>fs_files := map vfs_clear (fs_files s), fs_ready := True\<rparr> in
      case vfs_write_file (Some ''welcome.txt'') (Some ''Welcome to Mars OS ramfs.'') s0 of
        None \<Rightarrow> None
      | Some (ok1, s1) \<Rightarrow>
          if \<not> ok1 then Some (False, s1)
          else case vfs_write_file (Some ''app.hello_ping'') (Some app_hello_ping_marshex) s1 of
            None \<Rightarrow> None
          | Some (ok2, s2) \<Rightarrow>
              if \<not> ok2 then Some (False, s2)
              else case vfs_write_file (Some ''app.helloapp'') (Some app_hello_ping_marshex) s2 of
                None \<Rightarrow> None
              | Some (ok3, s3) \<Rightarrow> if \<not> ok3 then Some (False, s3) else Some (True, s3))"

definition vfs_read_file :: "string option \<Rightarrow> kfs \<Rightarrow> u32" where
  "vfs_read_file name s =
     (if \<not> fs_ready s \<or> \<not> vfs_name_valid name then 0
      else case vfs_find_file (the name) (fs_files s) of None \<Rightarrow> 0 | Some idx \<Rightarrow> vf_data (fs_files s ! idx))"

text \<open>\<open>while (i + 1u < out_size && data[i] != '\0') { out[i] = data[i]; i++; } out[i] = '\0'; return i;\<close>\<close>

function vfs_read_loop :: "(u32 \<Rightarrow> char) \<Rightarrow> u32 \<Rightarrow> string \<Rightarrow> nat \<Rightarrow> nat \<Rightarrow> int \<times> string" where
  "vfs_read_loop b data out n i =
     (if i + 1 < n \<and> b (data + of_nat i) \<noteq> NUL then vfs_read_loop b data (out[i := b (data + of_nat i)]) n (i + 1)
      else (int i, out[i := NUL]))"
  by pat_completeness auto
termination
  by (relation "measure (\<lambda>(b, data, out, n, i). n - i)") auto

declare vfs_read_loop.simps [simp del]

definition vfs_read_file_into :: "string option \<Rightarrow> string option \<Rightarrow> u32 \<Rightarrow> kfs \<Rightarrow> int \<times> string option" where
  "vfs_read_file_into name out out_size s =
     (if \<not> fs_ready s \<or> \<not> vfs_name_valid name \<or> out = None \<or> out_size = 0 then (-1, out)
      else case vfs_find_file (the name) (fs_files s) of
        None \<Rightarrow> (-1, out)
      | Some idx \<Rightarrow>
          if vf_data (fs_files s ! idx) = 0 then (0, Some ((the out)[0 := NUL]))
          else let (i, o') = vfs_read_loop (fs_bytes s) (vf_data (fs_files s ! idx)) (the out) (unat out_size) 0
               in (i, Some o'))"

definition vfs_file_count :: "kfs \<Rightarrow> u32" where
  "vfs_file_count s = (if \<not> fs_ready s then 0 else count_loop (\<lambda>e. vf_used e \<noteq> 0) (fs_files s) 0)"

definition vfs_file_name_at :: "u32 \<Rightarrow> kfs \<Rightarrow> string option" where
  "vfs_file_name_at index s =
     (if \<not> fs_ready s then None
      else map_option vf_name (nth_loop (\<lambda>e. vf_used e \<noteq> 0) (fs_files s) 0 index))"

section \<open>Invariant and abstraction\<close>

interpretation vfs_slots: slot_table "\<lambda>e. vf_used e \<noteq> 0" "\<lambda>e. cstr (vf_name e)" vfs_clear
  by unfold_locales (simp add: vfs_clear_def)

text \<open>The same table keyed by the heap block: no two files share one.\<close>

interpretation vfs_bufs: slot_table "\<lambda>e. vf_used e \<noteq> 0" vf_data vfs_clear
  by unfold_locales (simp add: vfs_clear_def)

interpretation vfs_copy: bounded_copy vfs_str_copy
proof
  fix n :: u32 and dst src :: string
  assume "0 < n" "unat n \<le> length dst"
  moreover from this have "0 < unat n" by (simp add: unat_gt_0 word_gt_0)
  ultimately show "cstr (vfs_str_copy dst n src) = take (unat n - 1) (cstr src)"
    using cstr_str_copy [of "unat n" dst src] by (auto simp: vfs_str_copy_def)
next
  fix n :: u32 and dst src :: string
  assume "unat n \<le> length dst"
  then show "length (vfs_str_copy dst n src) = length dst"
    using cstr_str_copy(3) [of "unat n" dst src] by (auto simp: vfs_str_copy_def unat_gt_0)
qed

definition text_in :: "(u32 \<Rightarrow> char) \<Rightarrow> u32 \<Rightarrow> u32 \<Rightarrow> string" where
  "text_in b a len = map (\<lambda>i. b (a + of_nat i)) [0..<unat len]"

definition block_of :: "kfs \<Rightarrow> vfs_file \<Rightarrow> nat \<Rightarrow> bool" where
  "block_of s e n \<longleftrightarrow> (unat (vf_data e), n) \<in> live (fs_km s) \<and> unat (vf_len e) < n"

definition file_ok :: "kfs \<Rightarrow> vfs_file \<Rightarrow> bool" where
  "file_ok s e \<longleftrightarrow> length (vf_name e) = 32 \<and>
     (vf_used e \<noteq> 0 \<longrightarrow> cstr (vf_name e) \<noteq> [] \<and> length (cstr (vf_name e)) < 32 \<and> (\<exists>n. block_of s e n) \<and>
       NUL \<notin> set (text_in (fs_bytes s) (vf_data e) (vf_len e)) \<and> fs_bytes s (vf_data e + vf_len e) = NUL)"

definition vfs_inv :: "kfs \<Rightarrow> bool" where
  "vfs_inv s \<longleftrightarrow> heap_inv (fs_km s) \<and> length (fs_files s) = VFS_MAX_FILES \<and>
     (\<forall>e \<in> set (fs_files s). file_ok s e) \<and>
     vfs_slots.keys_distinct (fs_files s) \<and> vfs_bufs.keys_distinct (fs_files s)"

definition vfs_map :: "kfs \<Rightarrow> string \<rightharpoonup> string" where
  "vfs_map s k = map_option (\<lambda>e. text_in (fs_bytes s) (vf_data e) (vf_len e)) (vfs_slots.table_map (fs_files s) k)"

text \<open>The heap addresses that belong to files, and the live blocks of the heap that belong to none.\<close>

definition file_addrs :: "vfs_file list \<Rightarrow> nat set" where
  "file_addrs t = {unat (vf_data e) |e. e \<in> set t \<and> vf_used e \<noteq> 0}"

definition foreign_blocks :: "kfs \<Rightarrow> (nat \<times> nat) set" where
  "foreign_blocks s = {b \<in> live (fs_km s). fst b \<notin> file_addrs (fs_files s)}"

section \<open>Contents\<close>

lemma put_text_fold:
  fixes buf :: u32
  assumes "unat buf + n < 4294967296"
  shows "fold (\<lambda>i b. b(buf + of_nat i := c_at data i)) [0..<n] b a =
     (if unat buf \<le> unat a \<and> unat a < unat buf + n then c_at data (unat a - unat buf) else b a)"
  using assms
proof (induction n)
  case (Suc n)
  have "unat (of_nat n :: u32) = n" using Suc.prems by (intro unat_of_nat_u32) simp
  then have "unat (buf + of_nat n) = unat buf + n" using Suc.prems unat_plus_small [of buf "of_nat n"] by simp
  then have "a = buf + of_nat n \<longleftrightarrow> unat a = unat buf + n" by (metis unat_inj_u32)
  with Suc show ?case by auto
qed auto

lemma put_text_other:
  assumes "unat buf + unat len < 4294967296" and "unat a < unat buf \<or> unat buf + unat len < unat a"
  shows "vfs_put_text buf data len b a = b a"
proof -
  have "unat (buf + len) = unat buf + unat len" using assms(1) by (rule unat_plus_small)
  then have "a \<noteq> buf + len" using assms(2) by auto
  moreover have "\<not> (unat buf \<le> unat a \<and> unat a < unat buf + unat len)" using assms(2) by linarith
  ultimately show ?thesis by (simp only: vfs_put_text_def put_text_fold [OF assms(1)] fun_upd_apply if_False)
qed

lemma map_c_at: "map (c_at s) [0..<length (cstr s)] = cstr s"
proof (rule nth_equalityI)
  fix i
  assume "i < length (map (c_at s) [0..<length (cstr s)])"
  then have i: "i < length (cstr s)" by simp
  then have "c_at s i = cstr s ! i" using c_at_cstr [of i s] by (simp add: c_at_def [of "cstr s"])
  with i show "map (c_at s) [0..<length (cstr s)] ! i = cstr s ! i" by simp
qed simp

lemma put_text_same:
  assumes "unat buf + unat len < 4294967296" and "unat len = length (cstr data)"
  shows "text_in (vfs_put_text buf data len b) buf len = cstr data"
    and "vfs_put_text buf data len b (buf + len) = NUL"
proof -
  have "vfs_put_text buf data len b (buf + of_nat i) = c_at data i" if "i < unat len" for i
  proof -
    have "unat (of_nat i :: u32) = i" using that unat_u32_less [of len] by (intro unat_of_nat_u32) simp
    then have "unat (buf + of_nat i) = unat buf + i" using that assms(1) unat_plus_small [of buf "of_nat i"] by simp
    moreover have "unat (buf + len) = unat buf + unat len" using assms(1) by (rule unat_plus_small)
    ultimately have "buf + of_nat i \<noteq> buf + len" "unat (buf + of_nat i) = unat buf + i" using that by auto
    then show ?thesis
      using assms(1) that put_text_fold [of buf "unat len" data b "buf + of_nat i"] by (simp add: vfs_put_text_def)
  qed
  then have "text_in (vfs_put_text buf data len b) buf len = map (c_at data) [0..<unat len]"
    by (simp add: text_in_def)
  then show "text_in (vfs_put_text buf data len b) buf len = cstr data" unfolding assms(2) map_c_at .
qed (simp add: vfs_put_text_def)

lemma text_in_cong:
  "(\<And>i. i < unat len \<Longrightarrow> b (a + of_nat i) = b' (a + of_nat i)) \<Longrightarrow> text_in b a len = text_in b' a len"
  by (simp add: text_in_def)

section \<open>Steps that keep or change one file\<close>

lemma file_ok_files [simp]: "file_ok (s\<lparr>fs_files := t\<rparr>) e = file_ok s e" "file_ok (s\<lparr>fs_ready := r\<rparr>) e = file_ok s e"
  by (simp_all add: file_ok_def block_of_def)

text \<open>The heap and the bytes change, but no file's block and no file's bytes.\<close>

definition keeps_files :: "kfs \<Rightarrow> kmem \<Rightarrow> (u32 \<Rightarrow> char) \<Rightarrow> bool" where
  "keeps_files s km b \<longleftrightarrow> heap_inv km \<and> (\<forall>e \<in> set (fs_files s). vf_used e \<noteq> 0 \<longrightarrow>
     (\<forall>n. (unat (vf_data e), n) \<in> live (fs_km s) \<longrightarrow> (unat (vf_data e), n) \<in> live km) \<and>
     (\<forall>i \<le> unat (vf_len e). b (vf_data e + of_nat i) = fs_bytes s (vf_data e + of_nat i)))"

lemma keeps_files_text:
  assumes "keeps_files s km b" "e \<in> set (fs_files s)" "vf_used e \<noteq> 0"
  shows "text_in b (vf_data e) (vf_len e) = text_in (fs_bytes s) (vf_data e) (vf_len e)"
  using assms by (intro text_in_cong) (auto simp: keeps_files_def)

lemma keeps_files_inv:
  assumes inv: "vfs_inv s" and k: "keeps_files s km b"
  shows "vfs_inv (s\<lparr>fs_km := km, fs_bytes := b\<rparr>)" and "vfs_map (s\<lparr>fs_km := km, fs_bytes := b\<rparr>) = vfs_map s"
proof -
  let ?s = "s\<lparr>fs_km := km, fs_bytes := b\<rparr>"
  have "file_ok ?s e" if e: "e \<in> set (fs_files s)" for e
  proof (cases "vf_used e = 0")
    case True
    with inv e show ?thesis by (auto simp: vfs_inv_def file_ok_def)
  next
    case False
    have "b (vf_data e + of_nat (unat (vf_len e))) = fs_bytes s (vf_data e + of_nat (unat (vf_len e)))"
      using e k False unfolding keeps_files_def by blast
    then have n: "b (vf_data e + vf_len e) = fs_bytes s (vf_data e + vf_len e)" by simp
    have ok: "file_ok s e" using inv e by (simp add: vfs_inv_def)
    then obtain n where "block_of s e n" using False by (auto simp: file_ok_def)
    then have "block_of ?s e n" using e k False by (auto simp: block_of_def keeps_files_def)
    with ok n keeps_files_text [OF k e False] show ?thesis by (auto simp: file_ok_def)
  qed
  then show "vfs_inv ?s" using inv k by (simp add: vfs_inv_def keeps_files_def)
  show "vfs_map ?s = vfs_map s"
  proof
    fix n
    show "vfs_map ?s n = vfs_map s n"
    proof (cases "vfs_slots.table_map (fs_files s) n")
      case (Some e)
      then have "e \<in> set (fs_files s)" "vf_used e \<noteq> 0" by (auto dest!: vfs_slots.table_map_SomeD)
      from keeps_files_text [OF k this] Some show ?thesis by (simp add: vfs_map_def)
    qed (simp add: vfs_map_def)
  qed
qed

lemma set_slot_inv:
  assumes inv: "vfs_inv s" and i: "i < VFS_MAX_FILES" and e: "vf_used e \<noteq> 0" "file_ok s e"
    and name: "\<And>j. j < VFS_MAX_FILES \<Longrightarrow> j \<noteq> i \<Longrightarrow> vf_used (fs_files s ! j) \<noteq> 0 \<Longrightarrow>
      cstr (vf_name (fs_files s ! j)) \<noteq> cstr (vf_name e)"
    and buf: "unat (vf_data e) \<notin> file_addrs (fs_files s)"
    and old: "vf_used (fs_files s ! i) \<noteq> 0 \<Longrightarrow> cstr (vf_name (fs_files s ! i)) = cstr (vf_name e)"
  defines "s' \<equiv> s\<lparr>fs_files := (fs_files s)[i := e]\<rparr>"
  shows "vfs_inv s'" and "vfs_map s' = (vfs_map s)(cstr (vf_name e) \<mapsto> text_in (fs_bytes s) (vf_data e) (vf_len e))"
proof -
  have len: "length (fs_files s) = VFS_MAX_FILES" and d: "vfs_slots.keys_distinct (fs_files s)"
    "vfs_bufs.keys_distinct (fs_files s)" using inv by (simp_all add: vfs_inv_def)
  have "vf_data (fs_files s ! j) \<noteq> vf_data e"
    if "j < length (fs_files s)" "vf_used (fs_files s ! j) \<noteq> 0" for j
    using buf that by (auto simp: file_addrs_def)
  then have "vfs_bufs.keys_distinct ((fs_files s)[i := e])" by (intro vfs_bufs.keys_distinct_update [OF d(2)]) auto
  moreover have "vfs_slots.keys_distinct ((fs_files s)[i := e])"
    using name len by (intro vfs_slots.keys_distinct_update [OF d(1)]) auto
  moreover have "x \<in> set ((fs_files s)[i := e]) \<Longrightarrow> file_ok s x" for x
    using inv e(2) set_update_subset_insert [of "fs_files s" i e] by (auto simp: vfs_inv_def)
  ultimately show "vfs_inv s'" using inv by (simp add: vfs_inv_def s'_def)
  have "vfs_slots.table_map ((fs_files s)[i := e]) = (vfs_slots.table_map (fs_files s))(cstr (vf_name e) \<mapsto> e)"
    using name len i e old by (intro vfs_slots.table_map_update [OF d(1)]) auto
  then show "vfs_map s' = (vfs_map s)(cstr (vf_name e) \<mapsto> text_in (fs_bytes s) (vf_data e) (vf_len e))"
    by (auto simp: vfs_map_def s'_def)
qed

lemma file_addrs_update:
  assumes "i < length t" "vf_used e \<noteq> 0" "vfs_bufs.keys_distinct t"
  shows "file_addrs (t[i := e]) = insert (unat (vf_data e))
    (if vf_used (t ! i) = 0 then file_addrs t else file_addrs t - {unat (vf_data (t ! i))})"
proof -
  have idx: "file_addrs u = {unat (vf_data (u ! j)) |j. j < length u \<and> vf_used (u ! j) \<noteq> 0}" for u
    by (auto simp: file_addrs_def in_set_conv_nth)
  have inj: "j = i" if "j < length t" "vf_used (t ! j) \<noteq> 0" "vf_used (t ! i) \<noteq> 0"
    "unat (vf_data (t ! j)) = unat (vf_data (t ! i))" for j
    using assms(1,3) that by (auto simp: vfs_bufs.keys_distinct_def unat_inj_u32)
  show ?thesis
  proof (intro set_eqI iffI)
    fix a
    assume "a \<in> file_addrs (t[i := e])"
    then obtain j where j: "j < length t" "vf_used (t[i := e] ! j) \<noteq> 0" "a = unat (vf_data (t[i := e] ! j))"
      unfolding idx by auto
    then have "a \<in> file_addrs t \<and> (vf_used (t ! i) \<noteq> 0 \<longrightarrow> a \<noteq> unat (vf_data (t ! i)))" if "j \<noteq> i"
      using that inj [of j] unfolding idx by auto
    then show "a \<in> insert (unat (vf_data e))
        (if vf_used (t ! i) = 0 then file_addrs t else file_addrs t - {unat (vf_data (t ! i))})"
      using j by (cases "j = i") auto
  next
    fix a
    assume "a \<in> insert (unat (vf_data e))
        (if vf_used (t ! i) = 0 then file_addrs t else file_addrs t - {unat (vf_data (t ! i))})"
    then consider "a = unat (vf_data e)"
      | j where "j < length t" "vf_used (t ! j) \<noteq> 0" "a = unat (vf_data (t ! j))" "j \<noteq> i"
      unfolding idx by (auto split: if_splits)
    then show "a \<in> file_addrs (t[i := e])"
    proof cases
      case 1
      with assms(1,2) show ?thesis unfolding idx by (auto intro!: exI [of _ i])
    next
      case (2 j)
      then show ?thesis unfolding idx by (auto intro!: exI [of _ j])
    qed
  qed
qed


section \<open>Writing and reading\<close>

lemma find_file_lookup: "vfs_find_file name t = vfs_slots.lookup t (cstr name)"
  by (simp add: vfs_find_file_def vfs_slots.lookup_def str_eq_loop_cstr)

lemma unat_str_len: "length (cstr d) < 4294967296 \<Longrightarrow> unat (vfs_str_len d) = length (cstr d)"
  unfolding vfs_str_len_def str_len_loop_cstr by (rule unat_of_nat_u32)

lemma name_valid_iff:
  assumes "length (cstr n) < 4294967296"
  shows "vfs_name_valid (Some n) \<longleftrightarrow> cstr n \<noteq> [] \<and> length (cstr n) < 32"
  using unat_str_len [OF assms] c_at_NUL_iff [of 0 n] by (simp add: vfs_name_valid_def word_less_nat_alt)

text \<open>A block taken from the heap and filled keeps all files.\<close>

lemma take_buffer:
  assumes inv: "vfs_inv s" and al: "kmalloc (len + 1) (fs_km s) = Some (buf, km)" "buf \<noteq> 0"
  obtains m where "unat len < m" "live km = insert (unat buf, m) (live (fs_km s))"
    "keeps_files s km (vfs_put_text buf d len (fs_bytes s))" "unat buf \<notin> file_addrs (fs_files s)"
    "unat buf + unat len < 4294967296" "\<And>k. (unat buf, k) \<notin> live (fs_km s)"
proof -
  have h: "heap_inv (fs_km s)" using inv by (simp add: vfs_inv_def)
  have h': "heap_inv km" by (rule kheap_alloc.malloc_inv [OF h al(1)])
  have "len + 1 \<noteq> 0" using al by (auto simp: kmalloc_def)
  then have len: "unat (len + 1) = unat len + 1" by (simp add: unat_word_ariths word_unat_eq_iff mod_Suc mod_less [OF unat_u32_less] split: if_splits)
  from kheap_alloc.malloc_new [OF h al] obtain m where "unat (len + 1) \<le> m"
    and m2: "live km = insert (unat buf, m) (live (fs_km s))" "\<forall>k. (unat buf, k) \<notin> live (fs_km s)" by blast
  with len have m: "unat len < m" "live km = insert (unat buf, m) (live (fs_km s))"
    "\<And>k. (unat buf, k) \<notin> live (fs_km s)" by auto
  have bb: "unat buf + m < 4294967296" using kheap_alloc.blocks_bound [OF h', of "unat buf" m] m(2) by simp
  have used: "\<exists>n. (unat (vf_data e), n) \<in> live (fs_km s) \<and> unat (vf_len e) < n"
    if "e \<in> set (fs_files s)" "vf_used e \<noteq> 0" for e
    using inv that by (auto simp: vfs_inv_def file_ok_def block_of_def)
  have "vfs_put_text buf d len (fs_bytes s) (vf_data e + of_nat i) = fs_bytes s (vf_data e + of_nat i)"
    if e: "e \<in> set (fs_files s)" "vf_used e \<noteq> 0" and i: "i \<le> unat (vf_len e)" for e i
  proof -
    obtain n where n: "(unat (vf_data e), n) \<in> live (fs_km s)" "unat (vf_len e) < n" using used [OF e] by blast
    have b: "unat (vf_data e) + n < 4294967296" using kheap_alloc.blocks_bound [OF h n(1)] by simp
    have "unat (of_nat i :: u32) = i" using i unat_u32_less [of "vf_len e"] by (intro unat_of_nat_u32) simp
    then have a: "unat (vf_data e + of_nat i) = unat (vf_data e) + i"
      using b n(2) i unat_plus_small [of "vf_data e" "of_nat i"] by simp
    show ?thesis
      using kheap_alloc.malloc_apart [OF h al n(1)] a i n(2) bb m(1) len by (intro put_text_other) auto
  qed
  then have "keeps_files s km (vfs_put_text buf d len (fs_bytes s))" using h' m(2) by (simp add: keeps_files_def)
  moreover have "unat buf \<notin> file_addrs (fs_files s)" using used m(3) by (auto simp: file_addrs_def) metis
  ultimately show thesis using m bb that by simp
qed


text \<open>What a write of \<open>d\<close> under the name \<open>k\<close> may do.\<close>

definition write_step :: "string \<Rightarrow> string \<Rightarrow> kfs \<Rightarrow> bool \<Rightarrow> kfs \<Rightarrow> bool" where
  "write_step k d s ok s' \<longleftrightarrow> vfs_inv s' \<and> fs_ready s' = fs_ready s \<and> foreign_blocks s' = foreign_blocks s \<and>
     vfs_map s' = (if ok then (vfs_map s)(k \<mapsto> d) else vfs_map s)"

lemma foreign_blocks_live:
  assumes "live km = live (fs_km s)"
  shows "foreign_blocks (s\<lparr>fs_km := km\<rparr>) = foreign_blocks s"
  using assms by (simp add: foreign_blocks_def)

lemma foreign_swap:
  assumes "old \<in> A" "\<And>k. (old, k) \<in> L \<Longrightarrow> k = n" "\<And>k. (buf, k) \<notin> L"
  shows "{b \<in> insert (buf, m) L - {(old, n)}. fst b \<notin> insert buf (A - {old})} = {b \<in> L. fst b \<notin> A}"
proof (rule set_eqI)
  fix b :: "'a \<times> 'b"
  obtain p k where b: "b = (p, k)" by (cases b)
  show "b \<in> {b \<in> insert (buf, m) L - {(old, n)}. fst b \<notin> insert buf (A - {old})} \<longleftrightarrow> b \<in> {b \<in> L. fst b \<notin> A}"
    using assms(1) assms(2) [of k] assms(3) [of k] unfolding b by auto
qed

lemma write_new_file:
  assumes inv: "vfs_inv s" and al: "kmalloc (len + 1) (fs_km s) = Some (buf, km)" "buf \<noteq> 0"
    and d: "unat len = length (cstr d)" and n: "vfs_name_valid (Some name)" "length (cstr name) < 4294967296"
    and none: "vfs_find_file name (fs_files s) = None" and i: "vfs_find_free_slot (fs_files s) = Some i"
  defines "e \<equiv> (fs_files s ! i)\<lparr>vf_used := 1, vf_name := vfs_str_copy (vf_name (fs_files s ! i)) VFS_NAME_MAX name,
    vf_data := buf, vf_len := len\<rparr>"
  shows "write_step (cstr name) (cstr d) s True
    (s\<lparr>fs_km := km, fs_bytes := vfs_put_text buf d len (fs_bytes s), fs_files := (fs_files s)[i := e]\<rparr>)"
proof -
  let ?b = "vfs_put_text buf d len (fs_bytes s)"
  let ?s1 = "s\<lparr>fs_km := km, fs_bytes := ?b\<rparr>"
  obtain m where m: "unat len < m" "live km = insert (unat buf, m) (live (fs_km s))" "keeps_files s km ?b"
    "unat buf \<notin> file_addrs (fs_files s)" "unat buf + unat len < 4294967296" "\<And>k. (unat buf, k) \<notin> live (fs_km s)"
    using take_buffer [OF inv al] by blast
  note s1 = keeps_files_inv [OF inv m(3)]
  have il: "i < VFS_MAX_FILES" "i < length (fs_files s)" "vf_used (fs_files s ! i) = 0"
    using i inv by (auto simp: vfs_find_free_slot_def first_idx_Some vfs_inv_def)
  have l32: "length (vf_name (fs_files s ! i)) = 32" using inv il by (simp add: vfs_inv_def file_ok_def)
  have nm: "cstr name \<noteq> []" "length (cstr name) < 32" using n name_valid_iff by auto
  then have cn: "cstr (vf_name e) = cstr name" "length (vf_name e) = 32"
    using vfs_copy.copy_exact [of name 32 "vf_name (fs_files s ! i)"]
      vfs_copy.copy_size [of 32 "vf_name (fs_files s ! i)" name] l32 by (simp_all add: e_def)
  note pt = put_text_same [OF m(5) d, of "fs_bytes s"]
  have eok: "file_ok ?s1 e"
    using cn nm m(1,2) pt cstr_no_NUL [of d] by (auto simp: file_ok_def block_of_def e_def)
  have free: "cstr (vf_name (fs_files s ! j)) \<noteq> cstr (vf_name e)"
    if "j < VFS_MAX_FILES" "vf_used (fs_files s ! j) \<noteq> 0" for j
    using none that inv unfolding find_file_lookup vfs_slots.lookup_None cn by (auto simp: vfs_inv_def)
  note set = set_slot_inv [OF s1(1) il(1) _ eok, simplified, OF _ free]
  have s': "vfs_inv (?s1\<lparr>fs_files := (fs_files s)[i := e]\<rparr>)"
    "vfs_map (?s1\<lparr>fs_files := (fs_files s)[i := e]\<rparr>) = (vfs_map s)(cstr name \<mapsto> cstr d)"
    using set m(4) il(3) s1(2) pt(1) cn(1) by (simp_all add: e_def)
  have "file_addrs ((fs_files s)[i := e]) = insert (unat buf) (file_addrs (fs_files s))"
    using file_addrs_update [OF il(2), of e] il(3) inv by (simp add: e_def vfs_inv_def)
  then have "foreign_blocks (?s1\<lparr>fs_files := (fs_files s)[i := e]\<rparr>) = foreign_blocks s"
    using m(2,6) by (auto simp: foreign_blocks_def)
  with s' show ?thesis by (simp add: write_step_def)
qed

lemma write_old_file:
  assumes inv: "vfs_inv s" and al: "kmalloc (len + 1) (fs_km s) = Some (buf, km)" "buf \<noteq> 0"
    and d: "unat len = length (cstr d)" and i: "vfs_find_file name (fs_files s) = Some i"
  defines "old \<equiv> fs_files s ! i"
  shows "vf_data old \<noteq> 0" and "write_step (cstr name) (cstr d) s True
    (s\<lparr>fs_km := kfree (vf_data old) km, fs_bytes := vfs_put_text buf d len (fs_bytes s),
       fs_files := (fs_files s)[i := old\<lparr>vf_data := buf, vf_len := len\<rparr>]\<rparr>)"
proof -
  let ?b = "vfs_put_text buf d len (fs_bytes s)" and ?e = "old\<lparr>vf_data := buf, vf_len := len\<rparr>"
  let ?s1 = "s\<lparr>fs_km := km, fs_bytes := ?b\<rparr>"
  let ?s2 = "?s1\<lparr>fs_files := (fs_files s)[i := ?e]\<rparr>"
  obtain m where m: "unat len < m" "live km = insert (unat buf, m) (live (fs_km s))" "keeps_files s km ?b"
    "unat buf \<notin> file_addrs (fs_files s)" "unat buf + unat len < 4294967296" "\<And>k. (unat buf, k) \<notin> live (fs_km s)"
    using take_buffer [OF inv al] by blast
  note s1 = keeps_files_inv [OF inv m(3)]
  have h: "heap_inv (fs_km s)" and len64: "length (fs_files s) = VFS_MAX_FILES"
    and dist: "vfs_slots.keys_distinct (fs_files s)" "vfs_bufs.keys_distinct (fs_files s)"
    using inv by (simp_all add: vfs_inv_def)
  have il: "i < length (fs_files s)" "vf_used old \<noteq> 0" "cstr (vf_name old) = cstr name"
    using i vfs_slots.lookup_SomeD [of "fs_files s" "cstr name" i] by (auto simp: find_file_lookup old_def)
  have ok: "file_ok s old" using inv il(1) by (simp add: vfs_inv_def old_def)
  then obtain n where n: "(unat (vf_data old), n) \<in> live (fs_km s)" using il(2) by (auto simp: file_ok_def block_of_def)
  show "vf_data old \<noteq> 0" using kheap_alloc.blocks_bound [OF h n] by auto
  note pt = put_text_same [OF m(5) d, of "fs_bytes s"]
  have eok: "file_ok ?s1 ?e" using ok il(2) m(1,2) pt cstr_no_NUL [of d] by (auto simp: file_ok_def block_of_def)
  have other: "cstr (vf_name (fs_files s ! j)) \<noteq> cstr (vf_name ?e)"
    if "j < VFS_MAX_FILES" "j \<noteq> i" "vf_used (fs_files s ! j) \<noteq> 0" for j
    using dist(1) that il len64 unfolding vfs_slots.keys_distinct_def by (auto simp: old_def)
  have s2: "vfs_inv ?s2" "vfs_map ?s2 = (vfs_map s)(cstr name \<mapsto> cstr d)"
    using set_slot_inv [of ?s1 i ?e] s1 eok other m(4) il pt(1) len64 by (simp_all add: old_def)
  have addrs: "file_addrs (fs_files ?s2) = insert (unat buf) (file_addrs (fs_files s) - {unat (vf_data old)})"
    using file_addrs_update [OF il(1) _ dist(2), of ?e] il(2) by (simp add: old_def)
  have h2: "heap_inv km" using s2(1) by (simp add: vfs_inv_def)
  have live_old: "(unat (vf_data old), n) \<in> live km" using m(2) n by simp
  note fr = kfree_live [OF h2 live_old]
  have ne: "unat buf \<noteq> unat (vf_data old)" using m(6) n by auto
  then have "unat (vf_data old) \<notin> file_addrs (fs_files ?s2)" unfolding addrs by simp
  then have "keeps_files ?s2 (kfree (vf_data old) km) ?b"
    using fr by (auto simp: keeps_files_def file_addrs_def)
  note s3 = keeps_files_inv [OF s2(1) this]
  have old_in: "unat (vf_data old) \<in> file_addrs (fs_files s)" using il by (auto simp: file_addrs_def old_def)
  have uniq: "k = n" if "(unat (vf_data old), k) \<in> live (fs_km s)" for k
    using kheap_alloc.blocks_apart [OF h that n] kheap_alloc.blocks_bound [OF h that]
      kheap_alloc.blocks_bound [OF h n] by linarith
  have "foreign_blocks (?s2\<lparr>fs_km := kfree (vf_data old) km\<rparr>) = foreign_blocks s"
    using foreign_swap [OF old_in uniq m(6), of m] fr m(2) addrs by (simp add: foreign_blocks_def)
  moreover have "?s2\<lparr>fs_km := kfree (vf_data old) km\<rparr> = s\<lparr>fs_km := kfree (vf_data old) km, fs_bytes := ?b,
      fs_files := (fs_files s)[i := ?e]\<rparr>"
    "?s2\<lparr>fs_km := kfree (vf_data old) km, fs_bytes := ?b\<rparr> = s\<lparr>fs_km := kfree (vf_data old) km, fs_bytes := ?b,
      fs_files := (fs_files s)[i := ?e]\<rparr>" by (cases s; simp)+
  ultimately show "write_step (cstr name) (cstr d) s True (s\<lparr>fs_km := kfree (vf_data old) km, fs_bytes := ?b,
      fs_files := (fs_files s)[i := ?e]\<rparr>)" using s3 s2(2) by (simp only: write_step_def if_True) simp
qed


lemma vfs_write_ok:
  assumes inv: "vfs_inv s" and rdy: "fs_ready s" and n: "length (cstr name) < 4294967296"
    and d: "length (cstr d) < 4294967296"
  obtains ok s' where "vfs_write_file (Some name) (Some d) s = Some (ok, s')"
    "write_step (cstr name) (cstr d) s ok s'"
    "ok \<longrightarrow> vfs_name_valid (Some name)"
    "vfs_name_valid (Some name) \<and> \<not> ok \<longrightarrow>
      kmalloc (vfs_str_len d + 1) (fs_km s) = Some (0, fs_km s') \<or>
      cstr name \<notin> dom (vfs_map s) \<and> length (filter (\<lambda>e. vf_used e \<noteq> 0) (fs_files s)) = VFS_MAX_FILES"
proof (cases "vfs_name_valid (Some name)")
  case False
  with rdy that [of False s] inv show thesis by (simp add: vfs_write_file_def write_step_def)
next
  case valid: True
  define len where "len = vfs_str_len d"
  have len: "unat len = length (cstr d)" unfolding len_def by (rule unat_str_len [OF d])
  have h: "heap_inv (fs_km s)" and l64: "length (fs_files s) = VFS_MAX_FILES" using inv by (simp_all add: vfs_inv_def)
  obtain buf km where al: "kmalloc (len + 1) (fs_km s) = Some (buf, km)" using kheap_alloc.malloc_total [OF h] by blast
  show thesis
  proof (cases "buf = 0")
    case True
    have lv: "live km = live (fs_km s)" using kheap_alloc.malloc_fail [OF h] al True by simp
    have "keeps_files s km (fs_bytes s)"
      using kheap_alloc.malloc_inv [OF h al] lv by (simp add: keeps_files_def)
    from keeps_files_inv [OF inv this] have "write_step (cstr name) (cstr d) s False (s\<lparr>fs_km := km\<rparr>)"
      using foreign_blocks_live [OF lv] by (simp add: write_step_def)
    with True al valid rdy show thesis
      by (intro that [of False "s\<lparr>fs_km := km\<rparr>"]) (simp_all add: vfs_write_file_def len_def Let_def)
  next
    case buf: False
    note run = vfs_write_file_def [of "Some name" "Some d" s]
    show thesis
    proof (cases "vfs_find_file name (fs_files s)")
      case (Some i)
      note w = write_old_file [OF inv al buf len Some]
      have "vfs_write_file (Some name) (Some d) s = Some (True, s\<lparr>fs_km := kfree (vf_data (fs_files s ! i)) km,
          fs_bytes := vfs_put_text buf d len (fs_bytes s),
          fs_files := (fs_files s)[i := (fs_files s ! i)\<lparr>vf_data := buf, vf_len := len\<rparr>]\<rparr>)"
        using valid rdy al buf Some w(1) by (simp add: run len_def Let_def)
      from that [OF this w(2)] valid show thesis by simp
    next
      case None
      show thesis
      proof (cases "vfs_find_free_slot (fs_files s)")
        case (Some i)
        note w = write_new_file [OF inv al buf len valid n None Some]
        show thesis
          by (rule that [OF _ w]) (use valid rdy al buf None Some in \<open>simp_all add: run len_def Let_def\<close>)
      next
        case full: None
        obtain m where m: "live km = insert (unat buf, m) (live (fs_km s))" "\<And>k. (unat buf, k) \<notin> live (fs_km s)"
          "keeps_files s km (vfs_put_text buf d len (fs_bytes s))" using take_buffer [OF inv al buf] by blast
        have hk: "heap_inv (kfree buf km)" "live (kfree buf km) = live (fs_km s)"
          using kheap_alloc.malloc_release [OF h al] by simp_all
        let ?s = "s\<lparr>fs_km := kfree buf km, fs_bytes := vfs_put_text buf d len (fs_bytes s)\<rparr>"
        have "keeps_files s (kfree buf km) (vfs_put_text buf d len (fs_bytes s))"
          using m(3) hk by (simp add: keeps_files_def)
        from keeps_files_inv [OF inv this] hk(2) have w: "write_step (cstr name) (cstr d) s False ?s"
          by (simp add: write_step_def foreign_blocks_def)
        have "cstr name \<notin> dom (vfs_map s)"
          using None by (auto simp: find_file_lookup vfs_map_def vfs_slots.table_map_def)
        moreover have "length (filter (\<lambda>e. vf_used e \<noteq> 0) (fs_files s)) = VFS_MAX_FILES"
          using full vfs_slots.full_iff [of "fs_files s"] l64 by (simp add: vfs_find_free_slot_def)
        ultimately show thesis
          by (intro that [OF _ w]) (use valid rdy al buf None full in \<open>simp_all add: run len_def Let_def\<close>)
      qed
    qed
  qed
qed

lemma vfs_write_ex:
  assumes "vfs_inv s" "fs_ready s" "length (cstr name) < 4294967296" "length (cstr d) < 4294967296"
  shows "\<exists>ok s'. vfs_write_file (Some name) (Some d) s = Some (ok, s') \<and> write_step (cstr name) (cstr d) s ok s' \<and>
    (ok \<longrightarrow> vfs_name_valid (Some name))"
  by (rule vfs_write_ok [OF assms]) blast

text \<open>A write stores only into the block it has just been given, so that every block handed out before keeps its bytes.\<close>

lemma write_keeps_blocks:
  assumes inv: "vfs_inv s" and d: "length (cstr d) < 4294967296"
    and run: "vfs_write_file (Some name) (Some d) s = Some (ok, s')" and b: "(p, n) \<in> live (fs_km s)" "i < n"
  shows "fs_bytes s' (of_nat (p + i)) = fs_bytes s (of_nat (p + i))"
proof -
  let ?len = "vfs_str_len d"
  have h: "heap_inv (fs_km s)" using inv by (simp add: vfs_inv_def)
  have "p + n < 4294967296" using kheap_alloc.blocks_bound [OF h b(1)] by simp
  then have a: "unat (of_nat (p + i) :: u32) = p + i" using b(2) by (intro unat_of_nat_u32) simp
  consider "fs_bytes s' = fs_bytes s"
    | buf km where "kmalloc (?len + 1) (fs_km s) = Some (buf, km)" "buf \<noteq> 0" "fs_bytes s' = vfs_put_text buf d ?len (fs_bytes s)"
    using run by (auto simp: vfs_write_file_def Let_def split: if_splits option.splits prod.splits)
  then show ?thesis
  proof cases
    case 2
    obtain m where m: "unat ?len < m" "live km = insert (unat buf, m) (live (fs_km s))" "unat buf + unat ?len < 4294967296"
      "\<And>k. (unat buf, k) \<notin> live (fs_km s)"
      using take_buffer [OF inv 2(1,2)] by blast
    have "heap_inv km" by (rule kheap_alloc.malloc_inv [OF h 2(1)])
    then have "unat buf + m \<le> p \<or> p + n \<le> unat buf"
      using kheap_alloc.blocks_apart [of km "unat buf" m p n] m(2,4) b(1) by auto
    then show ?thesis unfolding 2(3) using a m(1,3) b(2) by (intro put_text_other) auto
  qed simp
qed

lemma read_loop_eq:
  assumes "i \<le> unat len" "i < n" "n \<le> length out"
    and cs: "\<And>j. j < unat len \<Longrightarrow> b (data + of_nat j) \<noteq> NUL" "b (data + len) = NUL"
  shows "fst (vfs_read_loop b data out n i) = int (min (n - 1) (unat len)) \<and>
    take (min (n - 1) (unat len)) (snd (vfs_read_loop b data out n i)) =
      take i out @ drop i (take (n - 1) (text_in b data len)) \<and>
    c_at (snd (vfs_read_loop b data out n i)) (min (n - 1) (unat len)) = NUL \<and>
    length (snd (vfs_read_loop b data out n i)) = length out"
  using assms(1-3)
proof (induction "n - i" arbitrary: i out)
  case (Suc k)
  show ?case
  proof (cases "i + 1 < n \<and> i < unat len")
    case True
    let ?o = "out[i := b (data + of_nat i)]"
    have "vfs_read_loop b data out n i = vfs_read_loop b data ?o n (i + 1)"
      using True cs(1) by (subst vfs_read_loop.simps) simp
    moreover have "take (i + 1) ?o = take i out @ [text_in b data len ! i]"
      using True Suc.prems by (simp add: text_in_def take_Suc_conv_app_nth)
    moreover have "drop i (take (n - 1) (text_in b data len)) =
        text_in b data len ! i # drop (i + 1) (take (n - 1) (text_in b data len))"
      using True less_diff_conv [of i n 1] Cons_nth_drop_Suc [of i "take (n - 1) (text_in b data len)"]
      by (simp add: text_in_def)
    ultimately show ?thesis
      using Suc.hyps(1) [of "i + 1" ?o] Suc.hyps(2) Suc.prems True by simp
  next
    case False
    have stop: "\<not> (i + 1 < n \<and> b (data + of_nat i) \<noteq> NUL)"
      using False Suc.prems cs(2) by (cases "i = unat len") auto
    then have "vfs_read_loop b data out n i = (int i, out[i := NUL])"
      by (subst vfs_read_loop.simps, subst if_not_P [OF stop]) (rule refl)
    moreover have "min (n - 1) (unat len) = i" using False Suc.prems by auto
    ultimately show ?thesis using Suc.prems by (simp add: c_at_def text_in_def)
  qed
qed simp


lemma cstr_take:
  assumes "NUL \<notin> set (take k s)" "c_at s k = NUL" "k \<le> length s"
  shows "cstr s = take k s"
proof (cases "k < length s")
  case True
  then have "s = take k s @ NUL # drop (Suc k) s" using assms(2) id_take_nth_drop [of k s] by (simp add: c_at_def)
  with cstr_append_NUL [OF assms(1)] show ?thesis by metis
qed (use assms in \<open>simp add: cstr_id\<close>)

lemma vfs_read_ok:
  assumes inv: "vfs_inv s" and rdy: "fs_ready s" and n: "vfs_name_valid (Some name)"
    and sz: "0 < unat sz" "unat sz \<le> length out"
  obtains out' where "vfs_read_file_into (Some name) (Some out) sz s =
      (case vfs_map s (cstr name) of None \<Rightarrow> -1 | Some t \<Rightarrow> int (min (unat sz - 1) (length t)), Some out')"
    "case vfs_map s (cstr name) of None \<Rightarrow> out' = out | Some t \<Rightarrow> cstr out' = take (unat sz - 1) t"
    "length out' = length out"
proof (cases "vfs_find_file name (fs_files s)")
  case None
  then have "vfs_map s (cstr name) = None" by (simp add: find_file_lookup vfs_map_def vfs_slots.table_map_def)
  with None that [of out] rdy n sz show thesis by (simp add: vfs_read_file_into_def)
next
  case (Some i)
  define e where "e = fs_files s ! i"
  have i: "i < length (fs_files s)" "vf_used e \<noteq> 0"
    using Some vfs_slots.lookup_SomeD by (auto simp: find_file_lookup e_def)
  have h: "heap_inv (fs_km s)" and ok: "file_ok s e" using inv i(1) by (simp_all add: vfs_inv_def e_def)
  obtain k where k: "(unat (vf_data e), k) \<in> live (fs_km s)" using ok i(2) by (auto simp: file_ok_def block_of_def)
  have nz: "vf_data e \<noteq> 0" using kheap_alloc.blocks_bound [OF h k] by auto
  let ?t = "text_in (fs_bytes s) (vf_data e) (vf_len e)"
  have mp: "vfs_map s (cstr name) = Some ?t"
    using Some by (simp add: find_file_lookup vfs_map_def vfs_slots.table_map_def e_def)
  have lt: "length ?t = unat (vf_len e)" by (simp add: text_in_def)
  have no: "NUL \<notin> set ?t" "fs_bytes s (vf_data e + vf_len e) = NUL" using ok i(2) by (simp_all add: file_ok_def)
  have nn: "fs_bytes s (vf_data e + of_nat j) \<noteq> NUL" if "j < unat (vf_len e)" for j
  proof -
    have "?t ! j \<in> set ?t" using that lt by (intro nth_mem) simp
    moreover have "?t ! j = fs_bytes s (vf_data e + of_nat j)" using that by (simp add: text_in_def)
    ultimately show ?thesis using no(1) by metis
  qed
  obtain r out' where rl: "vfs_read_loop (fs_bytes s) (vf_data e) out (unat sz) 0 = (r, out')" by fastforce
  let ?m = "min (unat sz - 1) (unat (vf_len e))"
  have eq: "r = int ?m" "take ?m out' = take (unat sz - 1) ?t" "c_at out' ?m = NUL" "length out' = length out"
    using read_loop_eq [of 0 "vf_len e" "unat sz" out "fs_bytes s" "vf_data e", OF _ sz(1,2) nn no(2)] rl by simp_all
  have "cstr out' = take ?m out'"
    using eq no(1) sz by (intro cstr_take) (auto dest: in_set_takeD)
  then have "cstr out' = take (unat sz - 1) ?t" using eq(2) by simp
  moreover have "vfs_read_file_into (Some name) (Some out) sz s = (r, Some out')"
    using Some rdy n sz rl nz by (auto simp: vfs_read_file_into_def e_def)
  ultimately show thesis using that [of out'] mp eq(1,4) lt by simp
qed

section \<open>Set-up and listing\<close>

text \<open>Set-up empties the table and writes three files; when it reports success it has exactly these.\<close>

lemma vfs_init_ok:
  assumes "heap_inv (fs_km s)" "length (fs_files s) = VFS_MAX_FILES" "\<forall>e \<in> set (fs_files s). length (vf_name e) = 32"
    and app: "length (cstr app) < 4294967296"
  obtains ok s' where "vfs_init app s = Some (ok, s')" "vfs_inv s'" "fs_ready s'"
    "ok \<longrightarrow> vfs_map s' = [''welcome.txt'' \<mapsto> ''Welcome to Mars OS ramfs.'', ''app.hello_ping'' \<mapsto> cstr app,
      ''app.helloapp'' \<mapsto> cstr app]"
proof -
  let ?s0 = "s\<lparr>fs_files := map vfs_clear (fs_files s), fs_ready := True\<rparr>"
  have c: "cstr ''welcome.txt'' = ''welcome.txt''" "cstr ''app.hello_ping'' = ''app.hello_ping''"
    "cstr ''app.helloapp'' = ''app.helloapp''" "cstr ''Welcome to Mars OS ramfs.'' = ''Welcome to Mars OS ramfs.''"
    by (simp_all add: cstr_def)
  have inv0: "vfs_inv ?s0" "fs_ready ?s0"
    using assms by (auto simp: vfs_inv_def file_ok_def vfs_clear_def vfs_slots.keys_distinct_def vfs_bufs.keys_distinct_def)
  have m0: "vfs_map ?s0 = Map.empty"
  proof
    fix k
    have "vfs_slots.table_map (map vfs_clear (fs_files s)) k = None"
      unfolding vfs_slots.table_map_None by (simp add: vfs_clear_def)
    then show "vfs_map ?s0 k = None" by (simp add: vfs_map_def)
  qed
  obtain ok1 s1 where w1: "vfs_write_file (Some ''welcome.txt'') (Some ''Welcome to Mars OS ramfs.'') ?s0 = Some (ok1, s1)"
    "write_step ''welcome.txt'' ''Welcome to Mars OS ramfs.'' ?s0 ok1 s1"
    using vfs_write_ex [OF inv0, of "''welcome.txt''" "''Welcome to Mars OS ramfs.''", unfolded c] by auto
  then have s1: "vfs_inv s1" "fs_ready s1" by (simp_all add: write_step_def)
  obtain ok2 s2 where w2: "vfs_write_file (Some ''app.hello_ping'') (Some app) s1 = Some (ok2, s2)"
    "write_step ''app.hello_ping'' (cstr app) s1 ok2 s2"
    using vfs_write_ex [OF s1 _ app, of "''app.hello_ping''", unfolded c] by auto
  then have s2: "vfs_inv s2" "fs_ready s2" using s1 by (simp_all add: write_step_def)
  obtain ok3 s3 where w3: "vfs_write_file (Some ''app.helloapp'') (Some app) s2 = Some (ok3, s3)"
    "write_step ''app.helloapp'' (cstr app) s2 ok3 s3"
    using vfs_write_ex [OF s2 _ app, of "''app.helloapp''", unfolded c] by auto
  then have s3: "vfs_inv s3" "fs_ready s3" using s2 by (simp_all add: write_step_def)
  note run = vfs_init_def [of app s, unfolded Let_def w1(1) option.case prod.case]
  consider "\<not> ok1" | "ok1" "\<not> ok2" | "ok1" "ok2" by blast
  then show thesis
  proof cases
    case 1
    with s1 show thesis by (intro that [of False s1]) (simp_all add: run)
  next
    case 2
    with s2 show thesis by (intro that [of False s2]) (simp_all add: run w2(1))
  next
    case 3
    with w1(2) w2(2) w3(2) m0 have "ok3 \<longrightarrow> vfs_map s3 = [''welcome.txt'' \<mapsto> ''Welcome to Mars OS ramfs.'',
        ''app.hello_ping'' \<mapsto> cstr app, ''app.helloapp'' \<mapsto> cstr app]" by (simp add: write_step_def)
    with 3 s3 show thesis by (intro that [of ok3 s3]) (simp_all add: run w2(1) w3(1))
  qed
qed

definition file_list :: "kfs \<Rightarrow> string list" where
  "file_list s = map (\<lambda>e. cstr (vf_name e)) (filter (\<lambda>e. vf_used e \<noteq> 0) (fs_files s))"

lemma file_list_ok:
  assumes "vfs_inv s"
  shows "distinct (file_list s)" "set (file_list s) = dom (vfs_map s)" "length (file_list s) \<le> 64"
proof -
  have "dom (vfs_map s) = dom (vfs_slots.table_map (fs_files s))" by (auto simp: vfs_map_def)
  then show "set (file_list s) = dom (vfs_map s)" by (simp add: vfs_slots.dom_table_map file_list_def)
  show "distinct (file_list s)" using assms vfs_slots.distinct_keys by (simp add: vfs_inv_def file_list_def)
  show "length (file_list s) \<le> 64"
    using assms length_filter_le [of "\<lambda>e. vf_used e \<noteq> 0" "fs_files s"] by (simp add: vfs_inv_def file_list_def)
qed

section \<open>Correctness of the file system\<close>

text \<open>
  C5.  \<open>vfs_write_file\<close> refines a map update.  It always returns; on success the file has exactly the new
  contents and every other file is as before; on failure every file is as before, and the reason is an
  empty or overlong name, contents of 2 GiB or more, exhausted memory, or a full table that lacks the name.  The
  heap blocks that belong to no file are the same either way, so a replaced file's block is given back, and every
  byte of them is kept.
\<close>

theorem vfs_write_refines_update:
  assumes "vfs_inv s" and "fs_ready s" and "length (cstr name) < 4294967296" and "length (cstr d) < 4294967296"
  shows "\<exists>ok s'. vfs_write_file (Some name) (Some d) s = Some (ok, s') \<and> vfs_inv s' \<and> fs_ready s' \<and>
    foreign_blocks s' = foreign_blocks s \<and>
    (\<forall>(p, n) \<in> foreign_blocks s. \<forall>i < n. fs_bytes s' (of_nat (p + i)) = fs_bytes s (of_nat (p + i))) \<and>
    vfs_map s' = (if ok then (vfs_map s)(cstr name \<mapsto> cstr d) else vfs_map s) \<and>
    (ok \<or> cstr name = [] \<or> 32 \<le> length (cstr name) \<or> 0x7FFFFFFF \<le> length (cstr d) \<or>
      avail_frames (vm_pmm (km_vm (fs_km s'))) = {} \<or>
      cstr name \<notin> dom (vfs_map s) \<and> card (dom (vfs_map s)) = 64)"
proof -
  obtain ok s' where w: "vfs_write_file (Some name) (Some d) s = Some (ok, s')"
    "write_step (cstr name) (cstr d) s ok s'"
    "vfs_name_valid (Some name) \<and> \<not> ok \<longrightarrow> kmalloc (vfs_str_len d + 1) (fs_km s) = Some (0, fs_km s') \<or>
      cstr name \<notin> dom (vfs_map s) \<and> length (filter (\<lambda>e. vf_used e \<noteq> 0) (fs_files s)) = VFS_MAX_FILES"
    using vfs_write_ok [OF assms] by metis
  have h: "heap_inv (fs_km s)" and dist: "vfs_slots.keys_distinct (fs_files s)"
    using assms(1) by (simp_all add: vfs_inv_def)
  have "dom (vfs_map s) = dom (vfs_slots.table_map (fs_files s))" by (auto simp: vfs_map_def)
  then have card: "card (dom (vfs_map s)) = length (filter (\<lambda>e. vf_used e \<noteq> 0) (fs_files s))"
    using vfs_slots.card_table_map [OF dist] by simp
  have big: "0x7FFFFFFF \<le> length (cstr d)"
    if "vfs_str_len d + 1 = 0 \<or> 0x7FFFFFFF < vfs_str_len d + 1"
  proof (rule ccontr)
    assume "\<not> 0x7FFFFFFF \<le> length (cstr d)"
    then have "unat (vfs_str_len d + 1) = length (cstr d) + 1" "length (cstr d) + 1 \<le> 2147483647"
      using unat_str_len [OF assms(4)] unat_plus_small [of "vfs_str_len d" 1] by simp_all
    with that show False by (auto simp: word_less_nat_alt)
  qed
  have "ok \<or> cstr name = [] \<or> 32 \<le> length (cstr name) \<or> 0x7FFFFFFF \<le> length (cstr d) \<or>
      avail_frames (vm_pmm (km_vm (fs_km s'))) = {} \<or> cstr name \<notin> dom (vfs_map s) \<and> card (dom (vfs_map s)) = 64"
    (is ?reason)
  proof (cases "vfs_name_valid (Some name) \<and> \<not> ok")
    case True
    with w(3) have "kmalloc (vfs_str_len d + 1) (fs_km s) = Some (0, fs_km s') \<or>
      cstr name \<notin> dom (vfs_map s) \<and> card (dom (vfs_map s)) = 64" using card by simp
    then show ?reason
    proof
      assume "kmalloc (vfs_str_len d + 1) (fs_km s) = Some (0, fs_km s')"
      from kmalloc_fail_reason [OF h this] big show ?reason by blast
    qed blast
  next
    case False
    then show ?reason using name_valid_iff [OF assms(3)] by auto
  qed
  moreover have "\<forall>(p, n) \<in> foreign_blocks s. \<forall>i < n. fs_bytes s' (of_nat (p + i)) = fs_bytes s (of_nat (p + i))"
    using write_keeps_blocks [OF assms(1,4) w(1)] by (auto simp: foreign_blocks_def)
  ultimately show ?thesis using w(1,2) assms(2) unfolding write_step_def by (intro exI [of _ ok] exI [of _ s'] conjI) simp_all
qed

text \<open>
  What was written is read back: after a successful write under a name, \<open>vfs_read_file_into\<close> with a
  buffer of \<open>sz\<close> bytes returns the contents cut to \<open>sz - 1\<close> characters and their number.
\<close>

theorem vfs_write_read_roundtrip:
  assumes "vfs_inv s" and "fs_ready s" and "length (cstr name) < 4294967296" and "length (cstr d) < 4294967296"
    and "vfs_write_file (Some name) (Some d) s = Some (True, s')" and "0 < unat sz" and "unat sz \<le> length out"
  shows "\<exists>out'. vfs_read_file_into (Some name) (Some out) sz s' =
      (int (min (unat sz - 1) (length (cstr d))), Some out') \<and>
    cstr out' = take (unat sz - 1) (cstr d) \<and> length out' = length out"
proof -
  obtain ok t where w: "vfs_write_file (Some name) (Some d) s = Some (ok, t)"
    "write_step (cstr name) (cstr d) s ok t" "ok \<longrightarrow> vfs_name_valid (Some name)"
    using vfs_write_ex [OF assms(1-4)] by blast
  with assms(2,5) have s': "vfs_inv s'" "fs_ready s'" "vfs_name_valid (Some name)"
    "vfs_map s' (cstr name) = Some (cstr d)" by (simp_all add: write_step_def)
  show ?thesis
  proof (rule vfs_read_ok [OF s'(1-3) assms(6,7)], unfold s'(4) option.case)
    fix out'
    assume "vfs_read_file_into (Some name) (Some out) sz s' = (int (min (unat sz - 1) (length (cstr d))), Some out')"
      "cstr out' = take (unat sz - 1) (cstr d)" "length out' = length out"
    then show ?thesis by blast
  qed
qed

text \<open>
  Listing is exact: \<open>vfs_file_count\<close> is the number of files, and the names at the indices below it are
  the names of the files, each once; every index from the count on gives the null pointer.
\<close>

theorem vfs_listing_exact:
  assumes "vfs_inv s" and "fs_ready s"
  shows "unat (vfs_file_count s) = card (dom (vfs_map s)) \<and>
    (\<exists>ns. distinct ns \<and> set ns = dom (vfs_map s) \<and>
      (\<forall>i. map_option cstr (vfs_file_name_at i s) = (if i < vfs_file_count s then Some (ns ! unat i) else None)))"
proof -
  note l = file_list_ok [OF assms(1)]
  have l64: "length (fs_files s) = VFS_MAX_FILES" using assms(1) by (simp add: vfs_inv_def)
  have card: "card (dom (vfs_map s)) = length (file_list s)" using distinct_card [OF l(1)] l(2) by simp
  have "vfs_file_count s = of_nat (length (file_list s))"
    using assms(2) by (simp add: vfs_file_count_def count_loop_eq file_list_def)
  then have cnt: "unat (vfs_file_count s) = length (file_list s)" using l(3) unat_of_nat_u32 [of "length (file_list s)"] by simp
  have "map_option cstr (vfs_file_name_at i s) = (if i < vfs_file_count s then Some (file_list s ! unat i) else None)" for i
    using assms(2) nth_loop_eq [of 0 "fs_files s" i "\<lambda>e. vf_used e \<noteq> 0"] l64 cnt
    by (simp add: vfs_file_name_at_def Let_def file_list_def word_less_nat_alt)
  with card cnt l(1,2) show ?thesis by auto
qed

text \<open>A file system with no files on the demo heap.\<close>

definition demo_fs :: "pmm \<Rightarrow> kfs" where
  "demo_fs p = \<lparr>fs_km = demo_heap p, fs_bytes = (\<lambda>_. NUL), fs_files = replicate 64
     \<lparr>vf_name = replicate 32 NUL, vf_data = 0, vf_len = 0, vf_used = 0\<rparr>, fs_ready = True\<rparr>"

lemma demo_fs_write:
  obtains p where "vfs_inv (demo_fs p)" "fs_ready (demo_fs p)" "vfs_map (demo_fs p) = Map.empty"
    "\<forall>n. vfs_name_valid (Some n) \<longrightarrow> (\<exists>s'. vfs_write_file (Some n) (Some (replicate 63 CHR ''b'')) (demo_fs p) = Some (True, s'))"
proof -
  obtain p where p: "heap_ok {0x100000} [(16368, True)] (demo_heap p)" "heap_inv (demo_heap p)" by (rule demo_heap_inv)
  have inv: "vfs_inv (demo_fs p)"
    using p(2) by (simp add: vfs_inv_def demo_fs_def file_ok_def vfs_slots.keys_distinct_def vfs_bufs.keys_distinct_def)
  obtain km where k: "kmalloc 64 (demo_heap p) = Some (0xD0000010, km)" by (rule demo_heap_first [OF p(1), of 64]) simp_all
  have c: "cstr (replicate 63 CHR ''b'') = replicate 63 CHR ''b''" by (simp add: cstr_id)
  have l: "vfs_str_len (replicate 63 CHR ''b'') + 1 = 64" by (simp add: vfs_str_len_def str_len_loop_cstr c)
  have f: "vfs_find_file n (fs_files (demo_fs p)) = None" "vfs_find_free_slot (fs_files (demo_fs p)) = Some 0" for n
    by (simp_all add: vfs_find_file_def vfs_find_free_slot_def demo_fs_def first_idx_None first_idx_Some)
  have r: "fs_ready (demo_fs p)" "fs_km (demo_fs p) = demo_heap p" by (simp_all add: demo_fs_def)
  have "\<exists>s'. vfs_write_file (Some n) (Some (replicate 63 CHR ''b'')) (demo_fs p) = Some (True, s')" if "vfs_name_valid (Some n)" for n
    using that k l f r by (simp add: vfs_write_file_def Let_def)
  moreover have "vfs_slots.lookup (fs_files (demo_fs p)) n = None" for n
    by (simp add: vfs_slots.lookup_def demo_fs_def first_idx_None)
  then have "vfs_map (demo_fs p) = Map.empty" by (simp add: fun_eq_iff vfs_map_def vfs_slots.table_map_def)
  ultimately show thesis using inv r(1) that by blast
qed

lemma demo_fs:
  obtains p where "vfs_inv (demo_fs p)" "fs_ready (demo_fs p)"
    "\<exists>s'. vfs_write_file (Some ''a'') (Some (replicate 63 CHR ''b'')) (demo_fs p) = Some (True, s')"
proof -
  obtain p where p: "vfs_inv (demo_fs p)" "fs_ready (demo_fs p)" "vfs_map (demo_fs p) = Map.empty"
    "\<forall>n. vfs_name_valid (Some n) \<longrightarrow> (\<exists>s'. vfs_write_file (Some n) (Some (replicate 63 CHR ''b'')) (demo_fs p) = Some (True, s'))"
    by (rule demo_fs_write)
  have "vfs_name_valid (Some ''a'')" using name_valid_iff [of "''a''"] by (simp add: cstr_id)
  with p that show thesis by blast
qed

theorem vfs_write_refines_update_witness:
  "\<exists>s s'. vfs_inv s \<and> vfs_write_file (Some ''a'') (Some (replicate 63 CHR ''b'')) s = Some (True, s') \<and>
     vfs_map s' = (vfs_map s)(''a'' \<mapsto> replicate 63 CHR ''b'') \<and> foreign_blocks s' = foreign_blocks s"
proof -
  obtain p s' where p: "vfs_inv (demo_fs p)" "fs_ready (demo_fs p)"
    "vfs_write_file (Some ''a'') (Some (replicate 63 CHR ''b'')) (demo_fs p) = Some (True, s')" by (metis demo_fs)
  have c: "cstr ''a'' = ''a''" "cstr (replicate 63 CHR ''b'') = replicate 63 CHR ''b''" by (simp_all add: cstr_id)
  from vfs_write_refines_update [OF p(1,2), of "''a''" "replicate 63 CHR ''b''"] p(1,3) c show ?thesis by auto
qed

theorem vfs_write_read_roundtrip_witness:
  "\<exists>s s' out'. vfs_inv s \<and> vfs_write_file (Some ''a'') (Some (replicate 63 CHR ''b'')) s = Some (True, s') \<and>
     vfs_read_file_into (Some ''a'') (Some (replicate 8 NUL)) 8 s' = (7, Some out') \<and> cstr out' = ''bbbbbbb''"
proof -
  obtain p s' where p: "vfs_inv (demo_fs p)" "fs_ready (demo_fs p)"
    "vfs_write_file (Some ''a'') (Some (replicate 63 CHR ''b'')) (demo_fs p) = Some (True, s')" by (metis demo_fs)
  have c: "cstr ''a'' = ''a''" "cstr (replicate 63 CHR ''b'') = replicate 63 CHR ''b''" by (simp_all add: cstr_id)
  have "take 7 (replicate 63 CHR ''b'') = ''bbbbbbb''" by (simp add: numeral_eq_Suc)
  with vfs_write_read_roundtrip [OF p(1,2) _ _ p(3), of 8 "replicate 8 NUL"] p(1,3) c show ?thesis by auto
qed

theorem vfs_listing_exact_witness:
  "\<exists>s. vfs_inv s \<and> fs_ready s \<and> unat (vfs_file_count s) = card (dom (vfs_map s))"
proof -
  obtain p where p: "vfs_inv (demo_fs p)" "fs_ready (demo_fs p)" by (rule demo_fs)
  from vfs_listing_exact [OF this] p show ?thesis by blast
qed

end
