(* ===== verification/Process_Table.thy ===== *)
theory Process_Table
  imports Paging Slot_Table
begin

text \<open>
  The process table of \<open>process.c\<close>: 32 entries with an identifier, the scheduler task, the page
  directory, the user frames and the system call mask, with the lookups, the allocation of
  identifiers and the switch of the address space that the scheduler asks for.
\<close>

section \<open>State and operations\<close>

abbreviation PROCESS_MAX :: nat where "PROCESS_MAX \<equiv> 32"

record process_entry =
  pe_pid :: u32
  pe_tid :: u32
  pe_cr3 :: u32
  pe_user_code_frame :: u32
  pe_user_stack_frame :: u32
  pe_user_entry :: u32
  pe_syscall_mask_low :: u32
  pe_is_kernel :: u8
  pe_active :: u8
  pe_name :: string

record proctab =
  pt_table :: "process_entry list"
  pt_next_pid :: u32
  pt_ready :: bool

definition SYSCALL_BIT :: "nat \<Rightarrow> u32" where
  "SYSCALL_BIT x = push_bit x 1"

definition PROCESS_SYSCALL_MASK_KERNEL :: u32 where
  "PROCESS_SYSCALL_MASK_KERNEL = 0xFFFFFFFF"

definition PROCESS_SYSCALL_MASK_USER :: u32 where
  "PROCESS_SYSCALL_MASK_USER = SYSCALL_BIT 0 OR SYSCALL_BIT 1 OR SYSCALL_BIT 2 OR SYSCALL_BIT 3 OR SYSCALL_BIT 4 OR
     SYSCALL_BIT 5 OR SYSCALL_BIT 6 OR SYSCALL_BIT 7 OR SYSCALL_BIT 9 OR SYSCALL_BIT 10 OR SYSCALL_BIT 11 OR
     SYSCALL_BIT 13 OR SYSCALL_BIT 14 OR SYSCALL_BIT 15 OR SYSCALL_BIT 16 OR SYSCALL_BIT 17 OR SYSCALL_BIT 18 OR
     SYSCALL_BIT 19"

text \<open>\<open>while (i + 1u < n && src != 0 && src[i] != '\0')\<close>: a null source copies the empty text.\<close>

definition proc_str_copy :: "string \<Rightarrow> u32 \<Rightarrow> string option \<Rightarrow> string" where
  "proc_str_copy dst n src =
     (if n = 0 then dst
      else case src of None \<Rightarrow> dst[0 := NUL] | Some t \<Rightarrow> fst (str_copy_loop dst t (unat n) 0))"

definition process_find_free_slot :: "proctab \<Rightarrow> nat option" where
  "process_find_free_slot s = first_idx (\<lambda>e. pe_active e = 0) (pt_table s)"

definition process_pid_in_use :: "u32 \<Rightarrow> proctab \<Rightarrow> bool" where
  "process_pid_in_use pid s = (first_idx (\<lambda>e. pe_active e \<noteq> 0 \<and> pe_pid e = pid) (pt_table s) \<noteq> None)"

text \<open>The loop over \<open>tries\<close>; the argument counts the tries that are left.\<close>

fun process_alloc_pid_loop :: "nat \<Rightarrow> proctab \<Rightarrow> u32 \<times> proctab" where
  "process_alloc_pid_loop 0 s = (2, s)"
| "process_alloc_pid_loop (Suc tries) s =
     (let pid = (if pt_next_pid s < 2 then 2 else pt_next_pid s);
          nx = (if pid + 1 < 2 then 2 else pid + 1);
          s1 = s\<lparr>pt_next_pid := nx\<rparr>
      in if \<not> process_pid_in_use pid s1 then (pid, s1) else process_alloc_pid_loop tries s1)"

definition process_alloc_pid :: "proctab \<Rightarrow> u32 \<times> proctab" where
  "process_alloc_pid s = process_alloc_pid_loop (PROCESS_MAX + 1) s"

definition process_find_by_tid :: "u32 \<Rightarrow> proctab \<Rightarrow> nat option" where
  "process_find_by_tid tid s = first_idx (\<lambda>e. pe_active e \<noteq> 0 \<and> pe_tid e = tid) (pt_table s)"

definition process_clear :: "process_entry \<Rightarrow> process_entry" where
  "process_clear e = e\<lparr>pe_pid := 0, pe_tid := 0, pe_cr3 := 0, pe_user_code_frame := 0, pe_user_stack_frame := 0,
     pe_user_entry := 0, pe_syscall_mask_low := 0, pe_is_kernel := 0, pe_active := 0,
     pe_name := (pe_name e)[0 := NUL]\<rparr>"

text \<open>The kernel's directory is an argument; \<open>process_init\<close> of the C code reads it from the paging state.\<close>

definition process_init :: "u32 \<Rightarrow> proctab \<Rightarrow> bool \<times> proctab" where
  "process_init kernel_dir s =
     (let t = map process_clear (pt_table s); e = t ! 0;
          e1 = e\<lparr>pe_pid := 1, pe_tid := 0, pe_cr3 := kernel_dir, pe_user_code_frame := 0, pe_user_stack_frame := 0,
            pe_user_entry := 0, pe_syscall_mask_low := PROCESS_SYSCALL_MASK_KERNEL, pe_is_kernel := 1, pe_active := 1,
            pe_name := proc_str_copy (pe_name e) 16 (Some ''kernel'')\<rparr>
      in (True, s\<lparr>pt_table := t[0 := e1], pt_next_pid := 2, pt_ready := True\<rparr>))"

definition process_count :: "proctab \<Rightarrow> u32" where
  "process_count s = (if \<not> pt_ready s then 0 else count_loop (\<lambda>e. pe_active e \<noteq> 0) (pt_table s) 0)"

definition process_current_pid :: "u32 \<Rightarrow> proctab \<Rightarrow> u32" where
  "process_current_pid tid s =
     (if \<not> pt_ready s then 0
      else case process_find_by_tid tid s of None \<Rightarrow> 0 | Some idx \<Rightarrow> pe_pid (pt_table s ! idx))"

text \<open>A pointer to a result is an option, \<open>None\<close> the null pointer; the result is what it points to after the call.\<close>

definition process_pid_at :: "u32 \<Rightarrow> u32 option \<Rightarrow> string option \<Rightarrow> proctab \<Rightarrow> bool \<times> u32 option \<times> string option" where
  "process_pid_at index pid_out name_out s =
     (if \<not> pt_ready s \<or> pid_out = None \<or> name_out = None then (False, pid_out, name_out)
      else case nth_loop (\<lambda>e. pe_active e \<noteq> 0) (pt_table s) 0 index of
        None \<Rightarrow> (False, pid_out, name_out)
      | Some e \<Rightarrow> (True, Some (pe_pid e), Some (pe_name e)))"

record process_info =
  pi_pid :: u32
  pi_tid :: u32
  pi_cr3 :: u32
  pi_user_code_frame :: u32
  pi_user_stack_frame :: u32
  pi_user_entry :: u32
  pi_syscall_mask_low :: u32
  pi_is_kernel :: u8

definition process_info_at :: "u32 \<Rightarrow> process_info option \<Rightarrow> proctab \<Rightarrow> bool \<times> process_info option" where
  "process_info_at index info_out s =
     (if \<not> pt_ready s \<or> info_out = None then (False, info_out)
      else case nth_loop (\<lambda>e. pe_active e \<noteq> 0) (pt_table s) 0 index of
        None \<Rightarrow> (False, info_out)
      | Some e \<Rightarrow> (True, Some \<lparr>pi_pid = pe_pid e, pi_tid = pe_tid e, pi_cr3 = pe_cr3 e,
          pi_user_code_frame = pe_user_code_frame e, pi_user_stack_frame = pe_user_stack_frame e,
          pi_user_entry = pe_user_entry e, pi_syscall_mask_low = pe_syscall_mask_low e, pi_is_kernel = pe_is_kernel e\<rparr>))"

definition process_syscall_allowed :: "u32 \<Rightarrow> u32 \<Rightarrow> proctab \<Rightarrow> bool" where
  "process_syscall_allowed syscall_no tid s =
     (if \<not> pt_ready s then False
      else if syscall_no \<ge> 32 then False
      else case process_find_by_tid tid s of None \<Rightarrow> False
        | Some idx \<Rightarrow> (pe_syscall_mask_low (pt_table s ! idx) AND push_bit (unat syscall_no) 1) \<noteq> 0)"

definition process_current_is_kernel :: "u32 \<Rightarrow> proctab \<Rightarrow> bool" where
  "process_current_is_kernel tid s =
     (if \<not> pt_ready s then True
      else case process_find_by_tid tid s of None \<Rightarrow> True | Some idx \<Rightarrow> pe_is_kernel (pt_table s ! idx) \<noteq> 0)"

definition process_activate_tid :: "u32 \<Rightarrow> proctab \<Rightarrow> vm \<Rightarrow> vm" where
  "process_activate_tid tid s v =
     (case process_find_by_tid tid s of
        Some idx \<Rightarrow>
          if pe_cr3 (pt_table s ! idx) \<noteq> 0 then paging_switch_directory (pe_cr3 (pt_table s ! idx)) v
          else paging_switch_directory (paging_kernel_directory_phys v) v
      | None \<Rightarrow> paging_switch_directory (paging_kernel_directory_phys v) v)"

section \<open>Identifiers\<close>

interpretation proc_slots: slot_table "\<lambda>e. pe_active e \<noteq> 0" pe_pid process_clear
  by unfold_locales (simp add: process_clear_def)

text \<open>The same table keyed by the scheduler task.\<close>

interpretation proc_tids: slot_table "\<lambda>e. pe_active e \<noteq> 0" pe_tid process_clear
  by unfold_locales (simp add: process_clear_def)

interpretation proc_copy: bounded_copy "\<lambda>dst n src. proc_str_copy dst n (Some src)"
proof
  fix n :: u32 and dst src :: string
  assume "0 < n" "unat n \<le> length dst"
  moreover from this have "0 < unat n" by (simp add: unat_gt_0 word_gt_0)
  ultimately show "cstr (proc_str_copy dst n (Some src)) = take (unat n - 1) (cstr src)"
    using cstr_str_copy [of "unat n" dst src] by (auto simp: proc_str_copy_def)
next
  fix n :: u32 and dst src :: string
  assume "unat n \<le> length dst"
  then show "length (proc_str_copy dst n (Some src)) = length dst"
    using cstr_str_copy(3) [of "unat n" dst src] by (auto simp: proc_str_copy_def unat_gt_0)
qed

definition proc_ok :: "process_entry \<Rightarrow> bool" where
  "proc_ok e \<longleftrightarrow> length (pe_name e) = 16 \<and> (pe_active e \<noteq> 0 \<longrightarrow> 1 \<le> pe_pid e \<and> (pe_pid e = 1 \<longleftrightarrow> pe_tid e = 0))"

definition proctab_inv :: "proctab \<Rightarrow> bool" where
  "proctab_inv s \<longleftrightarrow> length (pt_table s) = PROCESS_MAX \<and> (\<forall>e \<in> set (pt_table s). proc_ok e) \<and>
     proc_slots.keys_distinct (pt_table s)"

definition pids :: "proctab \<Rightarrow> u32 set" where
  "pids s = {pe_pid e |e. e \<in> set (pt_table s) \<and> pe_active e \<noteq> 0}"

lemma pids_card: "length (pt_table s) = PROCESS_MAX \<Longrightarrow> finite (pids s) \<and> card (pids s) \<le> PROCESS_MAX"
proof -
  assume l: "length (pt_table s) = PROCESS_MAX"
  have "pids s \<subseteq> pe_pid ` set (pt_table s)" by (auto simp: pids_def)
  moreover have "card (pe_pid ` set (pt_table s)) \<le> length (pt_table s)"
    by (metis card_image_le card_length finite_set order_trans)
  ultimately show ?thesis using l card_mono [of "pe_pid ` set (pt_table s)" "pids s"]
    by (auto intro: finite_subset)
qed

lemma pid_in_use_iff: "process_pid_in_use pid s \<longleftrightarrow> pid \<in> pids s"
  by (auto simp: process_pid_in_use_def first_idx_ex pids_def)

lemma pids_next [simp]: "pids (s\<lparr>pt_next_pid := n\<rparr>) = pids s"
  by (simp add: pids_def)

text \<open>The identifiers the loop tries, one after the other: the words from 2 up, then around again to 2.\<close>

definition pid_first :: "u32 \<Rightarrow> u32" where
  "pid_first p = (if p < 2 then 2 else p)"

definition pid_seq :: "u32 \<Rightarrow> nat \<Rightarrow> u32" where
  "pid_seq p k = of_nat (2 + (unat (pid_first p) - 2 + k) mod 4294967294)"

lemma pid_first_bounds: "2 \<le> unat (pid_first p)" "unat (pid_first p) < 4294967296"
  by (auto simp: pid_first_def word_less_nat_alt unat_u32_less split: if_splits)

lemma unat_pid_seq: "unat (pid_seq p k) = 2 + (unat (pid_first p) - 2 + k) mod 4294967294"
proof -
  have "2 + (unat (pid_first p) - 2 + k) mod 4294967294 < 4294967296"
    using mod_less_divisor [of 4294967294 "unat (pid_first p) - 2 + k"] by linarith
  then show ?thesis unfolding pid_seq_def unat_of_nat by simp
qed

lemma pid_seq_0: "pid_seq p 0 = pid_first p"
  using pid_first_bounds [of p] by (subst unat_inj_u32 [symmetric]) (simp add: unat_pid_seq)

lemma pid_seq_Suc:
  defines "nx p \<equiv> (if pid_first p + 1 < 2 then 2 else pid_first p + 1)"
  shows "pid_seq (nx p) k = pid_seq p (Suc k)"
proof -
  note b = pid_first_bounds [of p]
  have "unat (pid_first (nx p)) = 2 + (unat (pid_first p) - 2 + 1) mod 4294967294"
  proof (cases "unat (pid_first p) = 4294967295")
    case True
    then have "pid_first p + 1 = 0" by (subst unat_inj_u32 [symmetric]) (simp add: unat_word_ariths)
    with True show ?thesis by (simp add: nx_def pid_first_def)
  next
    case False
    then have u: "unat (pid_first p + 1) = unat (pid_first p) + 1" using b by (intro unat_plus_small [THEN trans]) simp_all
    then have "\<not> pid_first p + 1 < 2" using b by (simp add: word_less_nat_alt)
    with u b False show ?thesis by (simp add: nx_def pid_first_def)
  qed
  then show ?thesis by (subst unat_inj_u32 [symmetric]) (simp add: unat_pid_seq mod_simps)
qed

lemma pid_seq_inj:
  assumes "i < 33" "j < 33" "pid_seq p i = pid_seq p j"
  shows "i = j"
proof -
  let ?a = "unat (pid_first p) - 2"
  have "(?a + i) mod 4294967294 = (?a + j) mod 4294967294"
    using assms(3) unat_pid_seq [of p i] unat_pid_seq [of p j] by simp
  then have "i mod 4294967294 = j mod 4294967294" by (simp add: nat_mod_eq_iff)
  with assms(1,2) show ?thesis by simp
qed

lemma alloc_pid_loop:
  assumes "process_alloc_pid_loop n s = (pid, s')"
  shows "pt_table s' = pt_table s \<and> pt_ready s' = pt_ready s \<and>
    ((\<exists>k < n. pid = pid_seq (pt_next_pid s) k \<and> pid \<notin> pids s) \<or> (\<forall>k < n. pid_seq (pt_next_pid s) k \<in> pids s))"
  using assms
proof (induction n arbitrary: s)
  case (Suc n)
  define p where "p = pt_next_pid s"
  define nx where "nx = (if pid_first p + 1 < 2 then 2 else pid_first p + 1)"
  have step: "process_alloc_pid_loop (Suc n) s = (if pid_first p \<notin> pids s then (pid_first p, s\<lparr>pt_next_pid := nx\<rparr>)
      else process_alloc_pid_loop n (s\<lparr>pt_next_pid := nx\<rparr>))"
    by (simp add: Let_def pid_in_use_iff p_def nx_def pid_first_def)
  show ?case
  proof (cases "pid_first p \<in> pids s")
    case False
    with Suc.prems step show ?thesis by (auto simp: pid_seq_0 p_def intro!: exI [of _ 0])
  next
    case True
    with Suc.prems step have "process_alloc_pid_loop n (s\<lparr>pt_next_pid := nx\<rparr>) = (pid, s')" by simp
    from Suc.IH [OF this] have IH: "pt_table s' = pt_table s \<and> pt_ready s' = pt_ready s \<and>
      ((\<exists>k < n. pid = pid_seq p (Suc k) \<and> pid \<notin> pids s) \<or> (\<forall>k < n. pid_seq p (Suc k) \<in> pids s))"
      by (simp add: nx_def pid_seq_Suc)
    have "\<forall>k < Suc n. pid_seq p k \<in> pids s" if "\<forall>k < n. pid_seq p (Suc k) \<in> pids s"
      using that True by (auto simp: less_Suc_eq_0_disj pid_seq_0)
    with IH show ?thesis unfolding p_def [symmetric] by auto
  qed
qed simp

lemma alloc_pid_fresh:
  assumes "length (pt_table s) = PROCESS_MAX" "process_alloc_pid s = (pid, s')"
  shows "pid \<notin> pids s \<and> 2 \<le> unat pid \<and> pt_table s' = pt_table s \<and> pt_ready s' = pt_ready s"
proof -
  have "\<not> (\<forall>k < 33. pid_seq (pt_next_pid s) k \<in> pids s)"
  proof
    assume all: "\<forall>k < 33. pid_seq (pt_next_pid s) k \<in> pids s"
    have "inj_on (pid_seq (pt_next_pid s)) {..<33}" by (intro inj_onI pid_seq_inj) auto
    then have "card (pid_seq (pt_next_pid s) ` {..<33}) = 33" by (simp add: card_image)
    moreover have "card (pid_seq (pt_next_pid s) ` {..<33}) \<le> card (pids s)"
      using all pids_card [OF assms(1)] by (intro card_mono) auto
    ultimately show False using pids_card [OF assms(1)] by simp
  qed
  with alloc_pid_loop [of 33 s pid s'] assms(2) unat_pid_seq show ?thesis by (auto simp: process_alloc_pid_def)
qed

section \<open>Correctness of the table\<close>

lemma process_init_inv:
  assumes "length (pt_table s) = PROCESS_MAX" "\<forall>e \<in> set (pt_table s). length (pe_name e) = 16"
  shows "proctab_inv (snd (process_init d s))" and "pids (snd (process_init d s)) = {1}"
proof -
  let ?s = "snd (process_init d s)" and ?e = "process_clear (pt_table s ! 0)"
  have nm: "length (pe_name (pt_table s ! i)) = 16" if "i < PROCESS_MAX" for i using assms that by simp
  have len: "length (pt_table ?s) = PROCESS_MAX" using assms(1) by (simp add: process_init_def Let_def)
  have nth: "pt_table ?s ! i = (if i = 0 then ?e\<lparr>pe_pid := 1, pe_cr3 := d, pe_syscall_mask_low :=
      PROCESS_SYSCALL_MASK_KERNEL, pe_is_kernel := 1, pe_active := 1, pe_name := proc_str_copy (pe_name ?e) 16
      (Some ''kernel'')\<rparr> else process_clear (pt_table s ! i))" if "i < PROCESS_MAX" for i
    using assms(1) that by (cases "i = 0") (simp_all add: process_init_def Let_def process_clear_def)
  have act: "pe_active (pt_table ?s ! i) \<noteq> 0 \<longleftrightarrow> i = 0" if "i < PROCESS_MAX" for i
    using nth [OF that] by (simp add: process_clear_def)
  have "proc_ok (pt_table ?s ! i)" if "i < PROCESS_MAX" for i
    using nth [OF that] nm [OF that] nm [of 0] proc_copy.copy_size [of 16 "pe_name ?e" "''kernel''"]
    by (auto simp: proc_ok_def process_clear_def)
  then show "proctab_inv ?s"
    using len act by (auto simp: proctab_inv_def all_set_conv_all_nth proc_slots.keys_distinct_def)
  have only0: "i < PROCESS_MAX \<and> pe_active (pt_table ?s ! i) \<noteq> 0 \<longleftrightarrow> i = 0" for i
    using act [of i] by (cases "i < PROCESS_MAX") simp_all
  have "pids ?s = {pe_pid (pt_table ?s ! i) |i. i < PROCESS_MAX \<and> pe_active (pt_table ?s ! i) \<noteq> 0}"
    using len by (auto simp: pids_def in_set_conv_nth)
  also have "\<dots> = {1}" unfolding only0 using nth [of 0] by simp
  finally show "pids ?s = {1}" .
qed

text \<open>An empty table for the instances.\<close>

definition demo_procs :: proctab where
  "demo_procs = \<lparr>pt_table = replicate 32 \<lparr>pe_pid = 0, pe_tid = 0, pe_cr3 = 0, pe_user_code_frame = 0,
     pe_user_stack_frame = 0, pe_user_entry = 0, pe_syscall_mask_low = 0, pe_is_kernel = 0, pe_active = 0,
     pe_name = replicate 16 NUL\<rparr>, pt_next_pid = 0, pt_ready = False\<rparr>"

text \<open>
  C29.  \<open>process_alloc_pid\<close> never repeats an identifier in use and never gives out 0 or 1, even when the
  32-bit counter wraps around: its 33 tries are distinct and at most 32 processes are active, so the
  fall-back value is never returned.  The table itself is left alone.
\<close>

theorem process_alloc_pid_unique:
  assumes "length (pt_table s) = 32" and "process_alloc_pid s = (pid, s')"
  shows "\<not> process_pid_in_use pid s \<and> 2 \<le> pid \<and> pt_table s' = pt_table s"
  using alloc_pid_fresh [OF assms] by (simp add: pid_in_use_iff word_le_nat_alt)

theorem process_alloc_pid_unique_witness:
  "\<exists>pid s'. process_alloc_pid (snd (process_init 0 demo_procs)\<lparr>pt_next_pid := 0xFFFFFFFF\<rparr>) = (pid, s') \<and>
     \<not> process_pid_in_use pid (snd (process_init 0 demo_procs)) \<and> 2 \<le> pid"
proof -
  let ?s = "snd (process_init 0 demo_procs)\<lparr>pt_next_pid := 0xFFFFFFFF\<rparr>"
  obtain pid s' where a: "process_alloc_pid ?s = (pid, s')" by fastforce
  have "length (pt_table ?s) = 32" by (simp add: process_init_def demo_procs_def Let_def)
  from process_alloc_pid_unique [OF this a] a show ?thesis by (auto simp: process_pid_in_use_def)
qed

text \<open>The system calls of the mask that \<open>process_spawn_common\<close> gives to user processes.\<close>

lemma user_mask_bits:
  "bit PROCESS_SYSCALL_MASK_USER n \<longleftrightarrow> n \<in> {0, 1, 2, 3, 4, 5, 6, 7, 9, 10, 11, 13, 14, 15, 16, 17, 18, 19}"
proof (cases "n < 32")
  case True
  then have "n \<in> set [0, 1, 2, 3, 4, 5, 6, 7, 8, 9, 10, 11, 12, 13, 14, 15, 16, 17, 18, 19, 20, 21, 22, 23, 24,
      25, 26, 27, 28, 29, 30, 31]"
    unfolding numeral_nat by (simp add: less_Suc_eq)
  moreover have *: "PROCESS_SYSCALL_MASK_USER = 1044223"
    by (simp add: PROCESS_SYSCALL_MASK_USER_def SYSCALL_BIT_def)
  ultimately show ?thesis unfolding * by (simp only: list.set insert_iff empty_iff) (elim disjE FalseE; hypsubst; simp)
next
  case False
  then show ?thesis by (auto dest: bit_imp_le_length)
qed

lemma mask_test:
  assumes "n < 32"
  shows "(m AND push_bit n (1 :: u32)) \<noteq> 0 \<longleftrightarrow> bit m n"
proof -
  have "m AND push_bit n 1 = (if bit m n then push_bit n 1 else 0)"
    by (rule bit_word_eqI) (auto simp: bit_and_iff bit_push_bit_iff bit_1_iff simp del: push_bit_of_1)
  moreover have "push_bit n (1 :: u32) \<noteq> 0" using assms by simp
  ultimately show ?thesis by simp
qed

text \<open>
  The system call filter is exact: a call is let through iff the number is below 32, the current task
  belongs to an active process and the bit of the number is set in its mask.  With the mask of a user
  process these are the numbers 0 to 7, 9 to 11 and 13 to 19, so neither writing a file (8) nor spawning a
  program (12) is possible.
\<close>

theorem process_syscall_filter:
  "process_syscall_allowed n tid s \<longleftrightarrow> pt_ready s \<and> n < 32 \<and>
     (case process_find_by_tid tid s of None \<Rightarrow> False
      | Some i \<Rightarrow> (if pe_syscall_mask_low (pt_table s ! i) = PROCESS_SYSCALL_MASK_USER
          then unat n \<in> {0..7} \<union> {9..11} \<union> {13..19}
          else bit (pe_syscall_mask_low (pt_table s ! i)) (unat n)))"
proof (cases "pt_ready s \<and> n < 32")
  case False
  then show ?thesis by (auto simp: process_syscall_allowed_def)
next
  case True
  then have n: "unat n < 32" by (simp add: word_less_nat_alt)
  have set: "{0, 1, 2, 3, 4, 5, 6, 7, 9, 10, 11, 13, 14, 15, 16, 17, 18, 19} = {0..7} \<union> {9..11} \<union> {13..19 :: nat}"
    by code_simp
  show ?thesis
  proof (cases "process_find_by_tid tid s")
    case None
    then show ?thesis using True by (simp add: process_syscall_allowed_def)
  next
    case (Some i)
    have "process_syscall_allowed n tid s \<longleftrightarrow> bit (pe_syscall_mask_low (pt_table s ! i)) (unat n)"
      using True Some mask_test [OF n] by (simp add: process_syscall_allowed_def linorder_not_le [symmetric])
    then show ?thesis using True Some user_mask_bits [of "unat n", unfolded set] by simp
  qed
qed

end
