(* ===== verification/Scheduler.thy ===== *)
theory Scheduler
  imports Process_Table Vfs
begin

text \<open>
  The task scheduler of \<open>scheduler.c\<close> and the context switch of \<open>context_switch.s\<close>: 16 tasks, round-robin
  selection, voluntary and tick-driven switches, task creation on a stack from the kernel heap, exit and
  reaping.  The processor is its callee-saved registers, stack pointer and instruction pointer; the
  kernel stacks are a store of 32-bit words.  \<open>None\<close> as the result of an exit stands for the
  \<open>hlt\<close> loop that a task with no successor would be left in.
\<close>

section \<open>State and operations\<close>

abbreviation MAX_TASKS :: nat where "MAX_TASKS \<equiv> 16"
abbreviation TASK_STACK_SIZE :: u32 where "TASK_STACK_SIZE \<equiv> 8192"
abbreviation SCHED_QUANTUM_TICKS :: u32 where "SCHED_QUANTUM_TICKS \<equiv> 10"

datatype task_state = TASK_UNUSED | TASK_RUNNABLE | TASK_RUNNING | TASK_ZOMBIE

record task =
  tk_sp :: u32
  tk_stack_base :: u32
  tk_entry :: u32
  tk_arg :: u32
  tk_state :: task_state
  tk_name :: string

record sched =
  sc_tasks :: "task list"
  sc_started :: bool
  sc_current :: nat
  sc_tick_since_switch :: u32
  sc_preempt_pending :: bool

record cpu =
  cp_ebp :: u32
  cp_ebx :: u32
  cp_esi :: u32
  cp_edi :: u32
  cp_esp :: u32
  cp_eip :: u32

type_synonym words = "u32 \<Rightarrow> u32"

record ksys =
  ks_fs :: kfs
  ks_procs :: proctab
  ks_sched :: sched
  ks_cpu :: cpu
  ks_words :: words

definition on_vm :: "(vm \<Rightarrow> vm) \<Rightarrow> ksys \<Rightarrow> ksys" where
  "on_vm f s = s\<lparr>ks_fs := (ks_fs s)\<lparr>fs_km := (fs_km (ks_fs s))\<lparr>km_vm := f (km_vm (fs_km (ks_fs s)))\<rparr>\<rparr>\<rparr>"

definition set_km :: "kmem \<Rightarrow> ksys \<Rightarrow> ksys" where
  "set_km k s = s\<lparr>ks_fs := (ks_fs s)\<lparr>fs_km := k\<rparr>\<rparr>"

abbreviation km_of :: "ksys \<Rightarrow> kmem" where "km_of s \<equiv> fs_km (ks_fs s)"
abbreviation tasks_of :: "ksys \<Rightarrow> task list" where "tasks_of s \<equiv> sc_tasks (ks_sched s)"
abbreviation current_of :: "ksys \<Rightarrow> nat" where "current_of s \<equiv> sc_current (ks_sched s)"

definition set_task :: "nat \<Rightarrow> task \<Rightarrow> ksys \<Rightarrow> ksys" where
  "set_task i t s = s\<lparr>ks_sched := (ks_sched s)\<lparr>sc_tasks := (tasks_of s)[i := t]\<rparr>\<rparr>"

text \<open>
  \<open>push\<close> and \<open>pop\<close> of the processor, and the assembly routine: push four registers, store the stack
  pointer through the first argument (here: return it), load the second, pop four registers, return.
\<close>

definition cpu_push :: "u32 \<Rightarrow> cpu \<times> words \<Rightarrow> cpu \<times> words" where
  "cpu_push v cw = ((fst cw)\<lparr>cp_esp := cp_esp (fst cw) - 4\<rparr>, (snd cw)(cp_esp (fst cw) - 4 := v))"

definition cpu_pop :: "cpu \<times> words \<Rightarrow> u32 \<times> cpu \<times> words" where
  "cpu_pop cw = (snd cw (cp_esp (fst cw)), (fst cw)\<lparr>cp_esp := cp_esp (fst cw) + 4\<rparr>, snd cw)"

definition context_switch :: "u32 \<Rightarrow> cpu \<times> words \<Rightarrow> u32 \<times> cpu \<times> words" where
  "context_switch new_sp cw0 =
     (let cw1 = cpu_push (cp_ebp (fst cw0)) cw0;
          cw2 = cpu_push (cp_ebx (fst cw0)) cw1;
          cw3 = cpu_push (cp_esi (fst cw0)) cw2;
          cw4 = cpu_push (cp_edi (fst cw0)) cw3;
          old_sp = cp_esp (fst cw4);
          cw5 = ((fst cw4)\<lparr>cp_esp := new_sp\<rparr>, snd cw4);
          (di, cw6) = cpu_pop cw5;
          (si, cw7) = cpu_pop cw6;
          (bx, cw8) = cpu_pop cw7;
          (bp, cw9) = cpu_pop cw8;
          (ip, cw10) = cpu_pop cw9
      in (old_sp, (fst cw10)\<lparr>cp_edi := di, cp_esi := si, cp_ebx := bx, cp_ebp := bp, cp_eip := ip\<rparr>, snd cw10))"

definition scheduler_pick_next :: "sched \<Rightarrow> nat option" where
  "scheduler_pick_next s =
     (if \<not> sc_started s then None
      else case first_idx (\<lambda>i. tk_state (sc_tasks s ! ((sc_current s + i) mod MAX_TASKS)) = TASK_RUNNABLE) [1..<MAX_TASKS] of
        Some k \<Rightarrow> Some ((sc_current s + ([1..<MAX_TASKS] ! k)) mod MAX_TASKS)
      | None \<Rightarrow>
          if sc_current s \<noteq> 0 \<and> tk_state (sc_tasks s ! 0) \<noteq> TASK_UNUSED \<and> tk_state (sc_tasks s ! 0) \<noteq> TASK_ZOMBIE
          then Some 0 else None)"

text \<open>\<open>process_activate_tid(current_task); context_switch(&tasks[prev].sp, tasks[current_task].sp);\<close>\<close>

definition switch_from :: "nat \<Rightarrow> ksys \<Rightarrow> ksys" where
  "switch_from prev s =
     (let cur = current_of s;
          s1 = on_vm (process_activate_tid (of_nat cur) (ks_procs s)) s;
          (osp, cpu, w) = context_switch (tk_sp (tasks_of s1 ! cur)) (ks_cpu s1, ks_words s1)
      in (set_task prev ((tasks_of s1 ! prev)\<lparr>tk_sp := osp\<rparr>) s1)\<lparr>ks_cpu := cpu, ks_words := w\<rparr>)"

definition make_current :: "nat \<Rightarrow> ksys \<Rightarrow> ksys" where
  "make_current i s = s\<lparr>ks_sched := (ks_sched s)\<lparr>sc_current := i,
     sc_tasks := (tasks_of s)[i := (tasks_of s ! i)\<lparr>tk_state := TASK_RUNNING\<rparr>]\<rparr>\<rparr>"

definition scheduler_task_exit :: "ksys \<Rightarrow> ksys option" where
  "scheduler_task_exit s =
     (let cur = current_of s; s1 = set_task cur ((tasks_of s ! cur)\<lparr>tk_state := TASK_ZOMBIE\<rparr>) s in
      case scheduler_pick_next (ks_sched s1) of
        None \<Rightarrow> None
      | Some nx \<Rightarrow> Some (switch_from cur (make_current nx s1)))"

text \<open>The code of a task is not part of this model: \<open>run\<close> is the effect of calling its entry point.\<close>

definition scheduler_task_bootstrap :: "(u32 \<Rightarrow> u32 \<Rightarrow> ksys \<Rightarrow> ksys) \<Rightarrow> ksys \<Rightarrow> ksys option" where
  "scheduler_task_bootstrap run s =
     (let t = tasks_of s ! current_of s in
      scheduler_task_exit (if tk_entry t \<noteq> 0 then run (tk_entry t) (tk_arg t) s else s))"

definition scheduler_exit_current :: "ksys \<Rightarrow> ksys option" where
  "scheduler_exit_current s =
     (if \<not> sc_started (ks_sched s) then Some s
      else if current_of s = 0 then Some s
      else scheduler_task_exit s)"

definition task_clear :: "task \<Rightarrow> task" where
  "task_clear t = t\<lparr>tk_sp := 0, tk_stack_base := 0, tk_entry := 0, tk_arg := 0, tk_state := TASK_UNUSED,
     tk_name := (tk_name t)[0 := NUL]\<rparr>"

definition scheduler_init :: "ksys \<Rightarrow> ksys" where
  "scheduler_init s =
     (let ts = map task_clear (tasks_of s);
          t0 = (ts ! 0)\<lparr>tk_state := TASK_RUNNING, tk_name := proc_str_copy (tk_name (ts ! 0)) 16 (Some ''kernel'')\<rparr>
      in s\<lparr>ks_sched := \<lparr>sc_tasks = ts[0 := t0], sc_started = True, sc_current = 0, sc_tick_since_switch = 0,
           sc_preempt_pending = False\<rparr>\<rparr>)"

text \<open>
  The five words of a new stack, from the top: the return address, then zeros for \<open>ebp\<close>, \<open>ebx\<close>, \<open>esi\<close>
  and \<open>edi\<close>.  \<open>bootstrap\<close> is the address of \<open>scheduler_task_bootstrap\<close>.
\<close>

definition initial_frame :: "u32 \<Rightarrow> u32 \<Rightarrow> words \<Rightarrow> words" where
  "initial_frame bootstrap tos w = w(tos - 4 := bootstrap, tos - 8 := 0, tos - 12 := 0, tos - 16 := 0, tos - 20 := 0)"

definition scheduler_create_task :: "u32 \<Rightarrow> u32 \<Rightarrow> u32 \<Rightarrow> string option \<Rightarrow> ksys \<Rightarrow> (nat option \<times> ksys) option" where
  "scheduler_create_task bootstrap entry arg name s =
     (if \<not> sc_started (ks_sched s) \<or> entry = 0 then Some (None, s)
      else case first_idx (\<lambda>t. tk_state t = TASK_UNUSED \<or> tk_state t = TASK_ZOMBIE) (drop 1 (tasks_of s)) of
        None \<Rightarrow> Some (None, s)
      | Some k \<Rightarrow>
          let idx = k + 1; t = tasks_of s ! idx in
          case kmalloc TASK_STACK_SIZE (km_of s) of
            None \<Rightarrow> None
          | Some (stack, km) \<Rightarrow>
              if stack = 0 then Some (None, set_km km s)
              else
                let km1 = (if tk_state t = TASK_ZOMBIE \<and> tk_stack_base t \<noteq> 0 then kfree (tk_stack_base t) km else km);
                    tos = stack + TASK_STACK_SIZE;
                    s1 = (set_km km1 s)\<lparr>ks_words := initial_frame bootstrap tos (ks_words s)\<rparr>;
                    t1 = t\<lparr>tk_stack_base := stack, tk_sp := tos - 20, tk_entry := entry, tk_arg := arg,
                      tk_state := TASK_RUNNABLE,
                      tk_name := proc_str_copy (tk_name t) 16 (Some (case name of None \<Rightarrow> ''task'' | Some n \<Rightarrow> n))\<rparr>
                in Some (Some idx, set_task idx t1 s1))"

definition scheduler_yield :: "ksys \<Rightarrow> ksys" where
  "scheduler_yield s =
     (if \<not> sc_started (ks_sched s) then s
      else case scheduler_pick_next (ks_sched s) of
        None \<Rightarrow> s
      | Some nx \<Rightarrow>
          let prev = current_of s; t = tasks_of s ! prev;
              s1 = (if tk_state t = TASK_RUNNING then set_task prev (t\<lparr>tk_state := TASK_RUNNABLE\<rparr>) s else s);
              s2 = make_current nx s1
          in switch_from prev (s2\<lparr>ks_sched := (ks_sched s2)\<lparr>sc_tick_since_switch := 0, sc_preempt_pending := False\<rparr>\<rparr>))"

definition scheduler_on_tick :: "sched \<Rightarrow> sched" where
  "scheduler_on_tick s =
     (if \<not> sc_started s then s
      else let s1 = s\<lparr>sc_tick_since_switch := sc_tick_since_switch s + 1\<rparr> in
        if sc_tick_since_switch s1 \<ge> SCHED_QUANTUM_TICKS then s1\<lparr>sc_preempt_pending := True\<rparr> else s1)"

definition scheduler_run_pending :: "ksys \<Rightarrow> ksys" where
  "scheduler_run_pending s = (if sc_preempt_pending (ks_sched s) then scheduler_yield s else s)"

definition scheduler_task_count :: "sched \<Rightarrow> u32" where
  "scheduler_task_count s = count_loop (\<lambda>t. tk_state t \<noteq> TASK_UNUSED) (sc_tasks s) 0"

definition scheduler_runnable_count :: "sched \<Rightarrow> u32" where
  "scheduler_runnable_count s = count_loop (\<lambda>t. tk_state t = TASK_RUNNABLE \<or> tk_state t = TASK_RUNNING) (sc_tasks s) 0"

definition scheduler_current_task_id :: "sched \<Rightarrow> u32" where
  "scheduler_current_task_id s = of_nat (sc_current s)"

definition scheduler_task_is_zombie :: "u32 \<Rightarrow> sched \<Rightarrow> bool" where
  "scheduler_task_is_zombie tid s = (if tid \<ge> 16 then False else tk_state (sc_tasks s ! unat tid) = TASK_ZOMBIE)"

definition scheduler_reap_task :: "u32 \<Rightarrow> ksys \<Rightarrow> bool \<times> ksys" where
  "scheduler_reap_task tid s =
     (if tid = 0 \<or> tid \<ge> 16 then (False, s)
      else let t = tasks_of s ! unat tid in
        if tk_state t \<noteq> TASK_ZOMBIE then (False, s)
        else let s1 = (if tk_stack_base t \<noteq> 0 then set_km (kfree (tk_stack_base t) (km_of s)) s else s)
             in (True, set_task (unat tid) (task_clear t) s1))"

section \<open>Round-robin selection\<close>

abbreviation st :: "sched \<Rightarrow> nat \<Rightarrow> task_state" where
  "st s i \<equiv> tk_state (sc_tasks s ! i)"

definition sched_inv :: "sched \<Rightarrow> bool" where
  "sched_inv s \<longleftrightarrow> sc_started s \<and> length (sc_tasks s) = MAX_TASKS \<and> sc_current s < MAX_TASKS \<and>
     (\<forall>i < MAX_TASKS. st s i = TASK_RUNNING \<longleftrightarrow> i = sc_current s) \<and>
     st s 0 \<noteq> TASK_UNUSED \<and> st s 0 \<noteq> TASK_ZOMBIE \<and> (\<forall>t \<in> set (sc_tasks s). length (tk_name t) = 16)"

text \<open>How many places task \<open>t\<close> is behind the task \<open>c\<close> in the round.\<close>

definition turn :: "nat \<Rightarrow> nat \<Rightarrow> nat" where
  "turn c t = (if c < t then t - c else t + MAX_TASKS - c)"

lemma turn_bounds: "c < MAX_TASKS \<Longrightarrow> t < MAX_TASKS \<Longrightarrow> t \<noteq> c \<Longrightarrow> 0 < turn c t \<and> turn c t < MAX_TASKS"
  by (auto simp: turn_def)

lemma turn_mod: "c < MAX_TASKS \<Longrightarrow> t < MAX_TASKS \<Longrightarrow> t \<noteq> c \<Longrightarrow> (c + turn c t) mod MAX_TASKS = t"
  by (auto simp: turn_def)

lemma mod_turn: "c < MAX_TASKS \<Longrightarrow> 0 < i \<Longrightarrow> i < MAX_TASKS \<Longrightarrow>
    (c + i) mod MAX_TASKS \<noteq> c \<and> turn c ((c + i) mod MAX_TASKS) = i"
  by (auto simp: turn_def mod_if)

lemma turn_closer:
  assumes "c < MAX_TASKS" "t < MAX_TASKS" "n < MAX_TASKS" "t \<noteq> c" "n \<noteq> c" "n \<noteq> t" "turn c n \<le> turn c t"
  shows "turn n t < turn c t"
  using assms by (auto simp: turn_def split: if_splits)

lemma pick_next_runnable:
  assumes "sc_started s" "sc_current s < MAX_TASKS" "t < MAX_TASKS" "t \<noteq> sc_current s" "st s t = TASK_RUNNABLE"
  obtains n where "scheduler_pick_next s = Some n" "n < MAX_TASKS" "n \<noteq> sc_current s" "st s n = TASK_RUNNABLE"
    "turn (sc_current s) n \<le> turn (sc_current s) t"
proof -
  let ?c = "sc_current s"
  let ?P = "\<lambda>i. st s ((?c + i) mod MAX_TASKS) = TASK_RUNNABLE"
  have tb: "0 < turn ?c t" "turn ?c t < MAX_TASKS" using turn_bounds assms(2-4) by blast+
  have Pt: "?P (turn ?c t)" using turn_mod [OF assms(2-4)] assms(5) by simp
  have "turn ?c t \<in> set [1..<MAX_TASKS]" unfolding set_upt using tb by simp
  with Pt obtain k where k: "first_idx ?P [1..<MAX_TASKS] = Some k"
    using first_idx_ex [of ?P "[1..<MAX_TASKS]"] by blast
  note f = first_idx_SomeD [OF k]
  have nth: "[1..<MAX_TASKS] ! j = j + 1" if "j < 15" for j using that nth_upt [of 1 j MAX_TASKS] by simp
  have kl: "k < 15" using f(1) by simp
  have Pk: "?P (k + 1)" using f(2) nth [OF kl] by simp
  have min: "\<not> ?P (j + 1)" if "j < k" for j
  proof -
    have "j < 15" using that kl by simp
    then show ?thesis using f(3) [OF that] nth by simp
  qed
  let ?n = "(?c + (k + 1)) mod MAX_TASKS"
  have n: "?n \<noteq> ?c" "turn ?c ?n = k + 1" using mod_turn [OF assms(2), of "k + 1"] kl by simp_all
  have "k + 1 \<le> turn ?c t"
  proof (rule ccontr)
    assume "\<not> k + 1 \<le> turn ?c t"
    then have "turn ?c t - 1 < k" using tb by linarith
    from min [OF this] Pt tb show False by simp
  qed
  moreover have "scheduler_pick_next s = Some ?n"
    unfolding scheduler_pick_next_def k using assms(1) nth [OF kl] by simp
  ultimately show thesis using that [of ?n] n Pk by simp
qed

lemma pick_next_None:
  assumes "sched_inv s" "\<And>t. t < MAX_TASKS \<Longrightarrow> t \<noteq> sc_current s \<Longrightarrow> st s t \<noteq> TASK_RUNNABLE"
  shows "scheduler_pick_next s = None"
proof -
  have c: "sc_current s < MAX_TASKS" using assms(1) by (simp add: sched_inv_def)
  have "st s ((sc_current s + i) mod MAX_TASKS) \<noteq> TASK_RUNNABLE" if "i \<in> set [1..<MAX_TASKS]" for i
    using assms(2) [of "(sc_current s + i) mod MAX_TASKS"] mod_turn [OF c, of i] that by auto
  then have "first_idx (\<lambda>i. st s ((sc_current s + i) mod MAX_TASKS) = TASK_RUNNABLE) [1..<MAX_TASKS] = None"
    unfolding first_idx_None by blast
  moreover have "sc_current s = 0 \<or> st s 0 = TASK_UNUSED \<or> st s 0 = TASK_ZOMBIE"
    using assms(1) assms(2) [of 0] unfolding sched_inv_def by (cases "st s 0") auto
  ultimately show ?thesis by (auto simp: scheduler_pick_next_def simp del: upt_Suc)
qed

section \<open>Switching\<close>

lemma switch_from_sched:
  "ks_sched (switch_from p s) = (ks_sched s)\<lparr>sc_tasks := (tasks_of s)[p := (tasks_of s ! p)\<lparr>tk_sp :=
     fst (context_switch (tk_sp (tasks_of s ! current_of s)) (ks_cpu s, ks_words s))\<rparr>]\<rparr>"
  "ks_procs (switch_from p s) = ks_procs s"
  by (simp_all add: switch_from_def Let_def case_prod_unfold set_task_def on_vm_def)

text \<open>The scheduler state with the task states as the only detail that a step may change.\<close>

definition same_but :: "sched \<Rightarrow> sched \<Rightarrow> (nat \<Rightarrow> task_state) \<Rightarrow> nat \<Rightarrow> bool" where
  "same_but s s' f c \<longleftrightarrow> sc_started s' = sc_started s \<and> length (sc_tasks s') = length (sc_tasks s) \<and>
     sc_current s' = c \<and> (\<forall>i < length (sc_tasks s). st s' i = f i) \<and>
     (\<forall>i < length (sc_tasks s). tk_name (sc_tasks s' ! i) = tk_name (sc_tasks s ! i) \<and>
        tk_stack_base (sc_tasks s' ! i) = tk_stack_base (sc_tasks s ! i))"

lemma same_but_inv:
  assumes "sched_inv s" "same_but s s' f c" "c < MAX_TASKS" "\<And>i. i < MAX_TASKS \<Longrightarrow> f i = TASK_RUNNING \<longleftrightarrow> i = c"
    "f 0 \<noteq> TASK_UNUSED" "f 0 \<noteq> TASK_ZOMBIE"
  shows "sched_inv s'"
  using assms unfolding sched_inv_def same_but_def all_set_conv_all_nth by auto

lemma yield_effect:
  assumes inv: "sched_inv (ks_sched s)" and pick: "scheduler_pick_next (ks_sched s) = Some n"
    and n: "n < MAX_TASKS" "n \<noteq> current_of s"
  shows "same_but (ks_sched s) (ks_sched (scheduler_yield s))
    ((st (ks_sched s))(current_of s := TASK_RUNNABLE, n := TASK_RUNNING)) n"
    and "sc_tick_since_switch (ks_sched (scheduler_yield s)) = 0" "\<not> sc_preempt_pending (ks_sched (scheduler_yield s))"
proof -
  have c: "current_of s < MAX_TASKS" "st (ks_sched s) (current_of s) = TASK_RUNNING" "sc_started (ks_sched s)"
    "length (tasks_of s) = MAX_TASKS" using inv by (auto simp: sched_inv_def)
  show "same_but (ks_sched s) (ks_sched (scheduler_yield s))
      ((st (ks_sched s))(current_of s := TASK_RUNNABLE, n := TASK_RUNNING)) n"
    "sc_tick_since_switch (ks_sched (scheduler_yield s)) = 0" "\<not> sc_preempt_pending (ks_sched (scheduler_yield s))"
    using c pick n
    by (auto simp: scheduler_yield_def Let_def switch_from_sched make_current_def set_task_def same_but_def nth_list_update)
qed

lemma yield_inv:
  assumes inv: "sched_inv (ks_sched s)"
  shows "sched_inv (ks_sched (scheduler_yield s))"
proof (cases "\<exists>t < MAX_TASKS. t \<noteq> current_of s \<and> st (ks_sched s) t = TASK_RUNNABLE")
  case False
  then have "scheduler_pick_next (ks_sched s) = None" by (intro pick_next_None [OF inv]) auto
  with inv show ?thesis by (simp add: scheduler_yield_def)
next
  case True
  then obtain t where t: "t < MAX_TASKS" "t \<noteq> current_of s" "st (ks_sched s) t = TASK_RUNNABLE" by blast
  have "sc_started (ks_sched s)" "current_of s < MAX_TASKS" using inv by (auto simp: sched_inv_def)
  from pick_next_runnable [OF this t] obtain n where n: "scheduler_pick_next (ks_sched s) = Some n" "n < MAX_TASKS"
    "n \<noteq> current_of s" "st (ks_sched s) n = TASK_RUNNABLE" by metis
  show ?thesis
    by (rule same_but_inv [OF inv yield_effect(1) [OF inv n(1-3)] n(2)]) (use inv in \<open>auto simp: sched_inv_def\<close>)
qed

lemma exit_effect:
  assumes inv: "sched_inv (ks_sched s)" and c: "current_of s \<noteq> 0"
  obtains s' n where "scheduler_exit_current s = Some s'" "n < MAX_TASKS" "n \<noteq> current_of s"
    "st (ks_sched s) n = TASK_RUNNABLE"
    "same_but (ks_sched s) (ks_sched s') ((st (ks_sched s))(current_of s := TASK_ZOMBIE, n := TASK_RUNNING)) n"
proof -
  let ?c = "current_of s"
  define s1 where "s1 = set_task ?c ((tasks_of s ! ?c)\<lparr>tk_state := TASK_ZOMBIE\<rparr>) s"
  have b: "?c < MAX_TASKS" "sc_started (ks_sched s)" "length (tasks_of s) = MAX_TASKS" using inv by (auto simp: sched_inv_def)
  have s1: "sc_current (ks_sched s1) = ?c" "sc_started (ks_sched s1)" "length (tasks_of s1) = MAX_TASKS"
    "st (ks_sched s1) i = (if i = ?c then TASK_ZOMBIE else st (ks_sched s) i)" if "i < MAX_TASKS" for i
    using b that by (auto simp: s1_def set_task_def)
  have "st (ks_sched s) 0 = TASK_RUNNABLE" using inv c by (cases "st (ks_sched s) 0") (auto simp: sched_inv_def)
  with s1(4) [of 0] c have r0: "st (ks_sched s1) 0 = TASK_RUNNABLE" by simp
  have "0 \<noteq> sc_current (ks_sched s1)" "sc_current (ks_sched s1) < MAX_TASKS" using s1(1) [of 0] b(1) c by simp_all
  from pick_next_runnable [OF s1(2) [of 0, simplified] this(2) _ this(1) r0]
  obtain n where n: "scheduler_pick_next (ks_sched s1) = Some n" "n < MAX_TASKS" "n \<noteq> ?c" "st (ks_sched s1) n = TASK_RUNNABLE"
    using s1(1) [of 0] by auto
  have "scheduler_exit_current s = Some (switch_from ?c (make_current n s1))"
    using b c n(1) by (simp add: scheduler_exit_current_def scheduler_task_exit_def Let_def s1_def)
  moreover have "same_but (ks_sched s) (ks_sched (switch_from ?c (make_current n s1)))
      ((st (ks_sched s))(?c := TASK_ZOMBIE, n := TASK_RUNNING)) n"
    using b n(2,3) by (auto simp: same_but_def switch_from_sched make_current_def s1_def set_task_def nth_list_update)
  moreover have "st (ks_sched s) n = TASK_RUNNABLE" using n s1(4) [of n] by simp
  ultimately show thesis using that n(2,3) by blast
qed

lemma exit_inv:
  assumes inv: "sched_inv (ks_sched s)" and ex: "scheduler_exit_current s = Some s'"
  shows "sched_inv (ks_sched s')"
proof (cases "current_of s = 0")
  case True
  with ex inv show ?thesis by (auto simp: scheduler_exit_current_def split: if_splits)
next
  case False
  show ?thesis
  proof (rule exit_effect [OF inv False])
    fix s'' n
    assume a: "scheduler_exit_current s = Some s''" "n < MAX_TASKS" "n \<noteq> current_of s" "st (ks_sched s) n = TASK_RUNNABLE"
      "same_but (ks_sched s) (ks_sched s'') ((st (ks_sched s))(current_of s := TASK_ZOMBIE, n := TASK_RUNNING)) n"
    have "sched_inv (ks_sched s'')"
      by (rule same_but_inv [OF inv a(5,2)]) (use inv False a(3) in \<open>auto simp: sched_inv_def\<close>)
    with a(1) ex show ?thesis by simp
  qed
qed

lemma tick_inv: "sched_inv s \<Longrightarrow> sched_inv (scheduler_on_tick s)"
  by (auto simp: scheduler_on_tick_def sched_inv_def Let_def)

lemma set_task_inv:
  assumes "sched_inv (ks_sched s)" "0 < i" "i < MAX_TASKS" "i \<noteq> current_of s"
    "tk_state t \<noteq> TASK_RUNNING" "length (tk_name t) = 16"
  shows "sched_inv (ks_sched (set_task i t s))"
  using assms unfolding sched_inv_def all_set_conv_all_nth
  by (auto simp: set_task_def nth_list_update split: if_splits)

text \<open>The state after task \<open>i\<close> has been set up on the block \<open>stack\<close>.\<close>

definition created :: "nat \<Rightarrow> u32 \<Rightarrow> kmem \<Rightarrow> u32 \<Rightarrow> u32 \<Rightarrow> u32 \<Rightarrow> string option \<Rightarrow> ksys \<Rightarrow> ksys" where
  "created i stack km b e a name s =
     set_task i ((tasks_of s ! i)\<lparr>tk_stack_base := stack, tk_sp := stack + TASK_STACK_SIZE - 20, tk_entry := e,
         tk_arg := a, tk_state := TASK_RUNNABLE, tk_name := proc_str_copy (tk_name (tasks_of s ! i)) 16
           (Some (case name of None \<Rightarrow> ''task'' | Some n \<Rightarrow> n))\<rparr>)
       ((set_km (if st (ks_sched s) i = TASK_ZOMBIE \<and> tk_stack_base (tasks_of s ! i) \<noteq> 0
           then kfree (tk_stack_base (tasks_of s ! i)) km else km) s)
         \<lparr>ks_words := initial_frame b (stack + TASK_STACK_SIZE) (ks_words s)\<rparr>)"

lemma create_cases:
  assumes inv: "sched_inv (ks_sched s)" and cr: "scheduler_create_task b e a name s = Some (r, s')"
  obtains (none) "r = None" "ks_sched s' = ks_sched s" "ks_words s' = ks_words s" "ks_procs s' = ks_procs s"
  | (some) i stack km where "r = Some i" "0 < i" "i < MAX_TASKS" "i \<noteq> current_of s"
      "st (ks_sched s) i = TASK_UNUSED \<or> st (ks_sched s) i = TASK_ZOMBIE"
      "kmalloc TASK_STACK_SIZE (km_of s) = Some (stack, km)" "stack \<noteq> 0" "s' = created i stack km b e a name s"
proof (cases "sc_started (ks_sched s) \<and> e \<noteq> 0")
  case False
  with cr none show thesis by (auto simp: scheduler_create_task_def)
next
  case True
  let ?P = "\<lambda>t. tk_state t = TASK_UNUSED \<or> tk_state t = TASK_ZOMBIE"
  have len: "length (tasks_of s) = MAX_TASKS" using inv by (simp add: sched_inv_def)
  show thesis
  proof (cases "first_idx ?P (drop 1 (tasks_of s))")
    case None
    with cr True none show thesis by (auto simp: scheduler_create_task_def)
  next
    case (Some k)
    note f = first_idx_SomeD(1,2) [OF Some]
    have k: "k + 1 < MAX_TASKS" "?P (tasks_of s ! (k + 1))" using f len by (simp_all add: nth_drop)
    have nc: "k + 1 \<noteq> current_of s" using inv k by (auto simp: sched_inv_def)
    obtain stack km where al: "kmalloc TASK_STACK_SIZE (km_of s) = Some (stack, km)"
      using cr True Some by (cases "kmalloc TASK_STACK_SIZE (km_of s)") (auto simp: scheduler_create_task_def Let_def)
    show thesis
    proof (cases "stack = 0")
      case z: True
      with cr True Some al have "Some (r, s') = Some (None, set_km km s)" by (simp add: scheduler_create_task_def Let_def)
      with none show thesis by (simp add: set_km_def)
    next
      case nz: False
      then have "scheduler_create_task b e a name s = Some (Some (k + 1), created (k + 1) stack km b e a name s)"
        using True Some al by (simp add: scheduler_create_task_def Let_def created_def)
      with cr some [of "k + 1" stack km] al nz k nc show thesis by simp
    qed
  qed
qed

lemma name_copy_length: "length dst = 16 \<Longrightarrow> length (proc_str_copy dst 16 (Some n)) = 16"
  using proc_copy.copy_size [of 16 dst n] by simp

lemma create_inv:
  assumes inv: "sched_inv (ks_sched s)" and cr: "scheduler_create_task b e a name s = Some (r, s')"
  shows "sched_inv (ks_sched s')"
proof (rule create_cases [OF inv cr])
  assume "ks_sched s' = ks_sched s"
  with inv show ?thesis by simp
next
  fix i stack km
  assume i: "0 < i" "i < MAX_TASKS" "i \<noteq> current_of s" and s': "s' = created i stack km b e a name s"
  have "tasks_of s ! i \<in> set (tasks_of s)" using inv i(2) by (simp add: sched_inv_def)
  then have "length (tk_name (tasks_of s ! i)) = 16" using inv by (simp add: sched_inv_def)
  then show ?thesis
    unfolding s' created_def using inv i by (intro set_task_inv) (simp_all add: set_km_def name_copy_length)
qed

lemma reap_inv:
  assumes inv: "sched_inv (ks_sched s)" and rp: "scheduler_reap_task tid s = (r, s')"
  shows "sched_inv (ks_sched s')"
proof (cases "tid = 0 \<or> 16 \<le> tid \<or> st (ks_sched s) (unat tid) \<noteq> TASK_ZOMBIE")
  case True
  with inv rp show ?thesis by (auto simp: scheduler_reap_task_def Let_def split: if_splits)
next
  case False
  let ?t = "tasks_of s ! unat tid"
  let ?s = "if tk_stack_base ?t \<noteq> 0 then set_km (kfree (tk_stack_base ?t) (km_of s)) s else s"
  have i: "0 < unat tid" "unat tid < MAX_TASKS" using False by (auto simp: unat_gt_0 word_le_nat_alt)
  have s': "s' = set_task (unat tid) (task_clear ?t) ?s" using False rp by (auto simp: scheduler_reap_task_def Let_def)
  have same: "ks_sched ?s = ks_sched s" by (simp add: set_km_def)
  have "?t \<in> set (tasks_of s)" "st (ks_sched s) (current_of s) = TASK_RUNNING" using inv i(2) by (simp_all add: sched_inv_def)
  then have "length (tk_name ?t) = 16" "unat tid \<noteq> current_of s" using inv False by (auto simp: sched_inv_def)
  then show ?thesis unfolding s' using inv i by (intro set_task_inv) (simp_all add: same task_clear_def)
qed

lemma init_inv:
  assumes "length (tasks_of s) = MAX_TASKS" "\<forall>t \<in> set (tasks_of s). length (tk_name t) = 16"
  shows "sched_inv (ks_sched (scheduler_init s))"
proof -
  let ?s = "ks_sched (scheduler_init s)" and ?t = "task_clear (tasks_of s ! 0)"
  have nm: "length (tk_name (tasks_of s ! i)) = 16" if "i < MAX_TASKS" for i using assms that by simp
  have len: "length (sc_tasks ?s) = MAX_TASKS" using assms(1) by (simp add: scheduler_init_def Let_def)
  have nth: "sc_tasks ?s ! i = (if i = 0 then ?t\<lparr>tk_state := TASK_RUNNING,
      tk_name := proc_str_copy (tk_name ?t) 16 (Some ''kernel'')\<rparr> else task_clear (tasks_of s ! i))" if "i < MAX_TASKS" for i
    using assms(1) that by (cases "i = 0") (simp_all add: scheduler_init_def Let_def)
  have "st ?s i = (if i = 0 then TASK_RUNNING else TASK_UNUSED)" "length (tk_name (sc_tasks ?s ! i)) = 16"
    if "i < MAX_TASKS" for i
    using nth [OF that] nm [OF that] nm [of 0] name_copy_length [of "tk_name ?t"] by (simp_all add: task_clear_def)
  moreover have "sc_started ?s" "sc_current ?s = 0" by (simp_all add: scheduler_init_def Let_def)
  ultimately show ?thesis using len unfolding sched_inv_def all_set_conv_all_nth by simp
qed

section \<open>Runs of the scheduler\<close>

text \<open>What the kernel may do to the scheduler, in any order; \<open>other\<close> is any step that leaves its state alone.\<close>

inductive sched_step :: "ksys \<Rightarrow> ksys \<Rightarrow> bool" where
  yield: "sched_step s (scheduler_yield s)"
| tick: "sched_step s (s\<lparr>ks_sched := scheduler_on_tick (ks_sched s)\<rparr>)"
| pending: "sched_step s (scheduler_run_pending s)"
| exit: "scheduler_exit_current s = Some s' \<Longrightarrow> sched_step s s'"
| create: "scheduler_create_task b e a name s = Some (r, s') \<Longrightarrow> sched_step s s'"
| reap: "scheduler_reap_task tid s = (r, s') \<Longrightarrow> sched_step s s'"
| other: "ks_sched s' = ks_sched s \<Longrightarrow> sched_step s s'"

inductive_cases sched_stepE: "sched_step s s'"

lemma sched_step_inv: "sched_step s s' \<Longrightarrow> sched_inv (ks_sched s) \<Longrightarrow> sched_inv (ks_sched s')"
proof (induction rule: sched_step.induct)
  case (pending s)
  then show ?case by (simp add: scheduler_run_pending_def yield_inv)
qed (simp_all add: yield_inv tick_inv, (rule exit_inv create_inv reap_inv; assumption)+)

lemma sched_run_inv: "sched_step\<^sup>*\<^sup>* s s' \<Longrightarrow> sched_inv (ks_sched s) \<Longrightarrow> sched_inv (ks_sched s')"
  by (induction rule: rtranclp_induct) (auto intro: sched_step_inv)

section \<open>Fairness and stacks\<close>

lemma round_robin:
  assumes "sched_inv (ks_sched s)" "t < MAX_TASKS" "st (ks_sched s) t = TASK_RUNNABLE"
  shows "\<exists>k \<le> turn (current_of s) t. current_of ((scheduler_yield ^^ k) s) = t"
  using assms
proof (induction "turn (current_of s) t" arbitrary: s rule: less_induct)
  case less
  have b: "sc_started (ks_sched s)" "current_of s < MAX_TASKS" "length (tasks_of s) = MAX_TASKS"
    using less.prems(1) by (auto simp: sched_inv_def)
  have tc: "t \<noteq> current_of s" using less.prems by (auto simp: sched_inv_def)
  obtain n where n: "scheduler_pick_next (ks_sched s) = Some n" "n < MAX_TASKS" "n \<noteq> current_of s"
    "turn (current_of s) n \<le> turn (current_of s) t" using pick_next_runnable [OF b(1,2) less.prems(2) tc less.prems(3)] by metis
  note y = yield_effect(1) [OF less.prems(1) n(1-3)]
  have cur: "current_of (scheduler_yield s) = n" using y by (simp add: same_but_def)
  show ?case
  proof (cases "n = t")
    case True
    then have "current_of ((scheduler_yield ^^ 1) s) = t" using cur by simp
    moreover have "1 \<le> turn (current_of s) t" using turn_bounds [OF b(2) less.prems(2) tc] by simp
    ultimately show ?thesis by blast
  next
    case False
    have "st (ks_sched (scheduler_yield s)) t = TASK_RUNNABLE"
      using y less.prems(2,3) tc False b(3) by (simp add: same_but_def)
    moreover have lt: "turn n t < turn (current_of s) t" by (rule turn_closer) (use b n False less.prems tc in auto)
    ultimately obtain k where k: "k \<le> turn n t" "current_of ((scheduler_yield ^^ k) (scheduler_yield s)) = t"
      using less.hyps [of "scheduler_yield s"] yield_inv [OF less.prems(1)] less.prems(2) cur by auto
    then have "current_of ((scheduler_yield ^^ Suc k) s) = t" by (simp add: funpow_swap1)
    with k(1) lt show ?thesis by (intro exI [of _ "Suc k"]) simp
  qed
qed

lemma context_switch_eq:
  "context_switch nsp (c, w) =
    (let w' = w(cp_esp c - 4 := cp_ebp c, cp_esp c - 8 := cp_ebx c, cp_esp c - 12 := cp_esi c, cp_esp c - 16 := cp_edi c)
     in (cp_esp c - 16, \<lparr>cp_ebp = w' (nsp + 12), cp_ebx = w' (nsp + 8), cp_esi = w' (nsp + 4), cp_edi = w' nsp,
          cp_esp = nsp + 20, cp_eip = w' (nsp + 16)\<rparr>, w'))"
  by (cases c) (simp add: context_switch_def cpu_push_def cpu_pop_def Let_def algebra_simps)

text \<open>Every task's stack is a live heap block of its own.\<close>

definition stack_block :: "ksys \<Rightarrow> nat \<Rightarrow> nat \<Rightarrow> bool" where
  "stack_block s i n \<longleftrightarrow> (unat (tk_stack_base (tasks_of s ! i)), n) \<in> live (km_of s) \<and> 8192 \<le> n"

definition stacks_ok :: "ksys \<Rightarrow> bool" where
  "stacks_ok s \<longleftrightarrow>
     (\<forall>i < MAX_TASKS. tk_stack_base (tasks_of s ! i) \<noteq> 0 \<longrightarrow> (\<exists>n. stack_block s i n) \<and>
        (\<forall>j < MAX_TASKS. tk_stack_base (tasks_of s ! j) = tk_stack_base (tasks_of s ! i) \<longrightarrow> j = i))"

lemma created_facts:
  assumes "length (tasks_of s) = MAX_TASKS" "i < MAX_TASKS"
  shows "tasks_of (created i stack km b e a name s) ! j = (if j = i then (tasks_of s ! i)\<lparr>tk_stack_base := stack,
      tk_sp := stack + TASK_STACK_SIZE - 20, tk_entry := e, tk_arg := a, tk_state := TASK_RUNNABLE,
      tk_name := proc_str_copy (tk_name (tasks_of s ! i)) 16 (Some (case name of None \<Rightarrow> ''task'' | Some n \<Rightarrow> n))\<rparr>
      else tasks_of s ! j)"
    and "km_of (created i stack km b e a name s) = (if st (ks_sched s) i = TASK_ZOMBIE \<and>
      tk_stack_base (tasks_of s ! i) \<noteq> 0 then kfree (tk_stack_base (tasks_of s ! i)) km else km)"
    and "ks_words (created i stack km b e a name s) = initial_frame b (stack + TASK_STACK_SIZE) (ks_words s)"
  using assms by (auto simp: created_def set_task_def set_km_def)

lemma created_heap:
  fixes b e a :: u32 and name :: "string option"
  assumes h: "heap_inv (km_of s)" and ok: "stacks_ok s" and len: "length (tasks_of s) = MAX_TASKS" and i: "i < MAX_TASKS"
    and al: "kmalloc TASK_STACK_SIZE (km_of s) = Some (stack, km)" "stack \<noteq> 0"
  defines "s' \<equiv> created i stack km b e a name s"
  shows "heap_inv (km_of s')" "\<exists>n. stack_block s' i n"
    "\<And>j n. j < MAX_TASKS \<Longrightarrow> j \<noteq> i \<Longrightarrow> tk_stack_base (tasks_of s ! j) \<noteq> 0 \<Longrightarrow> stack_block s j n \<Longrightarrow> stack_block s' j n"
    "\<And>k. (unat stack, k) \<notin> live (km_of s)"
proof -
  note cf = created_facts [OF len i, of stack km b e a name, folded s'_def]
  let ?old = "tk_stack_base (tasks_of s ! i)"
  have h1: "heap_inv km" by (rule kheap_alloc.malloc_inv [OF h al(1)])
  obtain m where m: "8192 \<le> m" "live km = insert (unat stack, m) (live (km_of s))" "\<forall>k. (unat stack, k) \<notin> live (km_of s)"
    using kheap_alloc.malloc_new [OF h al] by auto
  then show "\<And>k. (unat stack, k) \<notin> live (km_of s)" by blast
  have fr: "heap_inv (kfree ?old km) \<and> (\<exists>n. (unat ?old, n) \<in> live (km_of s) \<and> live (kfree ?old km) = live km - {(unat ?old, n)})"
    if nz: "?old \<noteq> 0"
  proof -
    obtain n where n: "(unat ?old, n) \<in> live (km_of s)" using ok i nz by (auto simp: stacks_ok_def stack_block_def)
    then have "(unat ?old, n) \<in> live km" using m(2) by simp
    from kfree_live [OF h1 this] n show ?thesis by blast
  qed
  show "heap_inv (km_of s')" using h1 fr by (simp add: cf)
  have "(unat stack, m) \<in> live (km_of s')"
  proof (cases "st (ks_sched s) i = TASK_ZOMBIE \<and> ?old \<noteq> 0")
    case True
    with fr obtain n where "(unat ?old, n) \<in> live (km_of s)" "live (kfree ?old km) = live km - {(unat ?old, n)}" by blast
    with True m show ?thesis by (auto simp: cf)
  qed (use m in \<open>auto simp: cf\<close>)
  then show "\<exists>n. stack_block s' i n" using m(1) by (auto simp: stack_block_def cf)
  fix j n
  assume j: "j < MAX_TASKS" "j \<noteq> i" "tk_stack_base (tasks_of s ! j) \<noteq> 0" "stack_block s j n"
  then have "?old \<noteq> tk_stack_base (tasks_of s ! j)" using ok i by (auto simp: stacks_ok_def)
  then have ne: "unat ?old \<noteq> unat (tk_stack_base (tasks_of s ! j))" by (simp add: unat_inj_u32)
  have "(unat (tk_stack_base (tasks_of s ! j)), n) \<in> live (km_of s')"
  proof (cases "st (ks_sched s) i = TASK_ZOMBIE \<and> ?old \<noteq> 0")
    case True
    with fr obtain n' where "live (kfree ?old km) = live km - {(unat ?old, n')}" by blast
    with True m j(4) ne show ?thesis by (auto simp: cf stack_block_def)
  qed (use m j(4) in \<open>auto simp: cf stack_block_def\<close>)
  then show "stack_block s' j n" using j by (auto simp: stack_block_def cf)
qed

lemma created_stacks_ok:
  assumes h: "heap_inv (km_of s)" and ok: "stacks_ok s" and len: "length (tasks_of s) = MAX_TASKS" and i: "i < MAX_TASKS"
    and al: "kmalloc TASK_STACK_SIZE (km_of s) = Some (stack, km)" "stack \<noteq> 0"
  shows "stacks_ok (created i stack km b e a name s)"
proof -
  let ?s = "created i stack km b e a name s"
  note c = created_heap(1-3) [OF h ok len i al, where b = b and e = e and a = a and name = name]
    created_heap(4) [OF h ok len i al]
  note cf = created_facts(1) [OF len i, of stack km b e a name]
  have base: "tk_stack_base (tasks_of ?s ! j) = (if j = i then stack else tk_stack_base (tasks_of s ! j))" for j by (simp add: cf)
  have fresh: "tk_stack_base (tasks_of s ! j) \<noteq> stack" if "j < MAX_TASKS" for j
  proof
    assume eq: "tk_stack_base (tasks_of s ! j) = stack"
    with al(2) ok that obtain n where "stack_block s j n" by (auto simp: stacks_ok_def)
    with eq c(4) [of n] show False by (simp add: stack_block_def)
  qed
  show ?thesis
    unfolding stacks_ok_def base
  proof (intro allI impI conjI)
    fix j
    assume j: "j < MAX_TASKS" "(if j = i then stack else tk_stack_base (tasks_of s ! j)) \<noteq> 0"
    show "\<exists>n. stack_block ?s j n"
    proof (cases "j = i")
      case False
      with j ok obtain n where "stack_block s j n" by (auto simp: stacks_ok_def)
      with c(3) j False show ?thesis by auto
    qed (use c(2) in simp)
    fix k
    assume "k < MAX_TASKS" "(if k = i then stack else tk_stack_base (tasks_of s ! k)) =
      (if j = i then stack else tk_stack_base (tasks_of s ! j))"
    with j fresh [of j] fresh [of k] ok show "k = j" by (auto simp: stacks_ok_def split: if_splits)
  qed
qed

section \<open>Correctness of the scheduler\<close>

text \<open>A freshly started scheduler with one more task, number 3, ready to run.\<close>

definition demo_sys :: "pmm \<Rightarrow> ksys" where
  "demo_sys p = scheduler_init \<lparr>ks_fs = demo_fs p,
     ks_procs = \<lparr>pt_table = replicate 32 \<lparr>pe_pid = 0, pe_tid = 0, pe_cr3 = 0, pe_user_code_frame = 0,
       pe_user_stack_frame = 0, pe_user_entry = 0, pe_syscall_mask_low = 0, pe_is_kernel = 0, pe_active = 0,
       pe_name = replicate 16 NUL\<rparr>, pt_next_pid = 0, pt_ready = False\<rparr>,
     ks_sched = \<lparr>sc_tasks = replicate 16 \<lparr>tk_sp = 0, tk_stack_base = 0, tk_entry = 0, tk_arg = 0,
       tk_state = TASK_UNUSED, tk_name = replicate 16 NUL\<rparr>, sc_started = False, sc_current = 0,
       sc_tick_since_switch = 0, sc_preempt_pending = False\<rparr>,
     ks_cpu = \<lparr>cp_ebp = 0, cp_ebx = 0, cp_esi = 0, cp_edi = 0, cp_esp = 0x9000, cp_eip = 0x100000\<rparr>,
     ks_words = (\<lambda>_. 0)\<rparr>"

definition demo_two :: "pmm \<Rightarrow> ksys" where
  "demo_two p = set_task 3 ((tasks_of (demo_sys p) ! 3)\<lparr>tk_state := TASK_RUNNABLE\<rparr>) (demo_sys p)"

lemma demo_sys_inv: "sched_inv (ks_sched (demo_sys p))"
  unfolding demo_sys_def by (rule init_inv) simp_all

lemma demo_two_inv:
  shows "sched_inv (ks_sched (demo_two p))" and "st (ks_sched (demo_two p)) 3 = TASK_RUNNABLE"
proof -
  have cur: "current_of (demo_sys p) = 0" by (simp add: demo_sys_def scheduler_init_def Let_def)
  have len: "length (tasks_of (demo_sys p)) = 16" using demo_sys_inv [of p] by (simp add: sched_inv_def)
  then have "length (tk_name (tasks_of (demo_sys p) ! 3)) = 16"
    using demo_sys_inv [of p] by (simp add: sched_inv_def)
  then show "sched_inv (ks_sched (demo_two p))"
    unfolding demo_two_def using cur by (intro set_task_inv [OF demo_sys_inv]) simp_all
  show "st (ks_sched (demo_two p)) 3 = TASK_RUNNABLE" using len by (simp add: demo_two_def set_task_def)
qed

text \<open>
  C7.  In every state the scheduler can reach after \<open>scheduler_init\<close>, by any sequence of yields, ticks, deferred
  preemptions, exits, creations and reaps, exactly one task is running and it is the current one, the
  kernel's task 0 is alive, and a task that exits always finds a successor: the \<open>hlt\<close> loop of
  \<open>scheduler_task_exit\<close> is never entered.
\<close>

theorem scheduler_run_safe:
  assumes "length (tasks_of s0) = 16" and "\<forall>t \<in> set (tasks_of s0). length (tk_name t) = 16"
    and "sched_step\<^sup>*\<^sup>* (scheduler_init s0) s"
  shows "current_of s < 16 \<and> (\<forall>i < 16. st (ks_sched s) i = TASK_RUNNING \<longleftrightarrow> i = current_of s) \<and>
    st (ks_sched s) 0 \<in> {TASK_RUNNABLE, TASK_RUNNING} \<and> scheduler_exit_current s \<noteq> None"
proof -
  have inv: "sched_inv (ks_sched s)" by (rule sched_run_inv [OF assms(3) init_inv [OF assms(1,2)]])
  have "scheduler_exit_current s \<noteq> None"
  proof (cases "current_of s = 0")
    case True
    then show ?thesis by (simp add: scheduler_exit_current_def)
  next
    case False
    from exit_effect [OF inv False] show ?thesis by (metis option.discI)
  qed
  moreover have "st (ks_sched s) 0 \<in> {TASK_RUNNABLE, TASK_RUNNING}"
    using inv by (cases "st (ks_sched s) 0") (auto simp: sched_inv_def)
  ultimately show ?thesis using inv by (simp add: sched_inv_def)
qed

theorem scheduler_run_safe_witness:
  "\<exists>p s. sched_step\<^sup>*\<^sup>* (scheduler_init (demo_sys p)) s \<and> scheduler_exit_current s \<noteq> None"
proof -
  fix p
  let ?s = "scheduler_yield (scheduler_init (demo_sys p))"
  have run: "sched_step\<^sup>*\<^sup>* (scheduler_init (demo_sys p)) ?s" by (rule r_into_rtranclp) (rule sched_step.yield)
  have "length (tasks_of (demo_sys p)) = 16" "\<forall>t \<in> set (tasks_of (demo_sys p)). length (tk_name t) = 16"
    using demo_sys_inv [of p] by (simp_all add: sched_inv_def)
  from scheduler_run_safe [OF this run] run show ?thesis by blast
qed

text \<open>
  C13.  Round robin with bounded waiting: as long as tasks only yield, a task that is ready to run becomes the
  current task after at most 15 yields.
\<close>

theorem scheduler_yield_bounded_wait:
  assumes "sched_inv (ks_sched s)" and "t < 16" and "st (ks_sched s) t = TASK_RUNNABLE"
  shows "\<exists>k \<le> 15. current_of ((scheduler_yield ^^ k) s) = t"
proof -
  have "t \<noteq> current_of s" "current_of s < 16" using assms by (auto simp: sched_inv_def)
  then have "turn (current_of s) t \<le> 15" using turn_bounds [of "current_of s" t] assms(2) by simp
  moreover obtain k where "k \<le> turn (current_of s) t" "current_of ((scheduler_yield ^^ k) s) = t"
    using round_robin [OF assms] by blast
  ultimately show ?thesis by (intro exI [of _ k]) simp
qed

theorem scheduler_yield_bounded_wait_witness:
  "\<exists>s k. sched_inv (ks_sched s) \<and> current_of s = 0 \<and> current_of ((scheduler_yield ^^ k) s) = 3"
proof -
  fix p
  have "current_of (demo_two p) = 0" by (simp add: demo_two_def demo_sys_def scheduler_init_def Let_def set_task_def)
  moreover note demo_two_inv [of p]
  ultimately show ?thesis using scheduler_yield_bounded_wait [of "demo_two p" 3] by auto
qed

text \<open>
  C22.  A task that was switched away resumes exactly where it was: if the five words of its frame are intact
  and the stack of the task that switches back lies elsewhere, \<open>context_switch\<close> to the saved stack pointer
  restores the four callee-saved registers, pops the frame and returns to the address the task was to
  return to.
\<close>

theorem context_switch_resumes:
  assumes "context_switch nsp (c, w) = (osp, c1, w1)"
    and "\<forall>a \<in> {osp, osp + 4, osp + 8, osp + 12, osp + 16}. w2 a = w1 a \<and>
      a \<notin> {cp_esp c2 - 4, cp_esp c2 - 8, cp_esp c2 - 12, cp_esp c2 - 16}"
  shows "fst (snd (context_switch osp (c2, w2))) = c\<lparr>cp_esp := cp_esp c + 4, cp_eip := w (cp_esp c)\<rparr>"
proof -
  have osp: "osp = cp_esp c - 16" and w1: "w1 = w(cp_esp c - 4 := cp_ebp c, cp_esp c - 8 := cp_ebx c,
      cp_esp c - 12 := cp_esi c, cp_esp c - 16 := cp_edi c)"
    using assms(1) unfolding context_switch_eq Let_def by (auto simp only: prod.inject)
  have off: "osp + 4 = cp_esp c - 12" "osp + 8 = cp_esp c - 8" "osp + 12 = cp_esp c - 4" "osp + 16 = cp_esp c"
    "osp + 20 = cp_esp c + 4" by (simp_all add: osp)
  have v: "w1 (cp_esp c - 16) = cp_edi c" "w1 (cp_esp c - 12) = cp_esi c" "w1 (cp_esp c - 8) = cp_ebx c"
    "w1 (cp_esp c - 4) = cp_ebp c" "w1 (cp_esp c) = w (cp_esp c)" unfolding w1 by simp_all
  define P where "P = {cp_esp c2 - 4, cp_esp c2 - 8, cp_esp c2 - 12, cp_esp c2 - 16}"
  define w3 where "w3 = w2(cp_esp c2 - 4 := cp_ebp c2, cp_esp c2 - 8 := cp_ebx c2, cp_esp c2 - 12 := cp_esi c2,
      cp_esp c2 - 16 := cp_edi c2)"
  have keep: "w3 x = w2 x" if "x \<notin> P" for x
    using that unfolding w3_def P_def insert_iff de_Morgan_disj by (simp only: fun_upd_apply if_False)
  have k: "w3 x = w1 x" if "x \<in> {osp, osp + 4, osp + 8, osp + 12, osp + 16}" for x
    using bspec [OF assms(2) [folded P_def] that] keep [of x] by metis
  have w3: "w3 osp = cp_edi c" "w3 (osp + 4) = cp_esi c" "w3 (osp + 8) = cp_ebx c" "w3 (osp + 12) = cp_ebp c"
    "w3 (osp + 16) = w (cp_esp c)"
    using k [of osp] k [of "osp + 4"] k [of "osp + 8"] k [of "osp + 12"] k [of "osp + 16"] v
    unfolding off by (simp_all only: osp insertI1 insertI2 simp_thms)
  have "fst (snd (context_switch osp (c2, w2))) = \<lparr>cp_ebp = w3 (osp + 12), cp_ebx = w3 (osp + 8),
      cp_esi = w3 (osp + 4), cp_edi = w3 osp, cp_esp = osp + 20, cp_eip = w3 (osp + 16)\<rparr>"
    unfolding context_switch_eq Let_def w3_def [symmetric] by (simp only: fst_conv snd_conv)
  then show ?thesis unfolding w3 off(5) by (cases c) simp
qed

theorem context_switch_resumes_witness:
  "fst (snd (context_switch 0x8FF0 (\<lparr>cp_ebp = 0, cp_ebx = 0, cp_esi = 0, cp_edi = 0, cp_esp = 0x7000, cp_eip = 0\<rparr>,
      (\<lambda>_. 0)(0x8FFC := 1, 0x8FF8 := 2, 0x8FF4 := 3, 0x8FF0 := 4)))) =
   \<lparr>cp_ebp = 1, cp_ebx = 2, cp_esi = 3, cp_edi = 4, cp_esp = 0x9004, cp_eip = 0\<rparr>"
proof -
  let ?c = "\<lparr>cp_ebp = 1, cp_ebx = 2, cp_esi = 3, cp_edi = 4, cp_esp = 0x9000, cp_eip = 0x100000\<rparr>"
  have "context_switch 0x6000 (?c, \<lambda>_. 0) = (0x8FF0, \<lparr>cp_ebp = 0, cp_ebx = 0, cp_esi = 0, cp_edi = 0, cp_esp = 0x6014,
      cp_eip = 0\<rparr>, (\<lambda>_. 0)(0x8FFC := 1, 0x8FF8 := 2, 0x8FF4 := 3, 0x8FF0 := 4))"
    by (simp add: context_switch_eq Let_def)
  from context_switch_resumes [OF this, of "(\<lambda>_. 0)(0x8FFC := 1, 0x8FF8 := 2, 0x8FF4 := 3, 0x8FF0 := 4)"
      "\<lparr>cp_ebp = 0, cp_ebx = 0, cp_esi = 0, cp_edi = 0, cp_esp = 0x7000, cp_eip = 0\<rparr>"]
  show ?thesis by simp
qed

text \<open>
  A created task gets an unused or zombie slot other than 0 and a heap block of at least 8192 bytes as its
  stack, shared with no other task; a zombie's old stack is freed.  Its saved stack pointer is 20 bytes below
  the end of those 8192 bytes, at four zero words for the registers and the address of the bootstrap
  routine, so that the first switch to it starts that routine on an empty stack.
\<close>

theorem scheduler_create_task_correct:
  assumes "heap_inv (km_of s)" and "sched_inv (ks_sched s)" and "stacks_ok s"
    and "scheduler_create_task bootstrap entry arg name s = Some (Some i, s')"
  shows "0 < i \<and> i < 16 \<and> st (ks_sched s) i \<in> {TASK_UNUSED, TASK_ZOMBIE} \<and> st (ks_sched s') i = TASK_RUNNABLE \<and>
    tk_entry (tasks_of s' ! i) = entry \<and> tk_arg (tasks_of s' ! i) = arg \<and>
    heap_inv (km_of s') \<and> sched_inv (ks_sched s') \<and> stacks_ok s' \<and> (\<exists>n. stack_block s' i n) \<and>
    tk_sp (tasks_of s' ! i) + 20 = tk_stack_base (tasks_of s' ! i) + 8192 \<and>
    map (\<lambda>k. ks_words s' (tk_sp (tasks_of s' ! i) + k)) [0, 4, 8, 12, 16] = [0, 0, 0, 0, bootstrap]"
proof (rule create_cases [OF assms(2,4)])
  fix j stack km
  assume a: "Some i = Some j" "0 < j" "j < MAX_TASKS" "st (ks_sched s) j = TASK_UNUSED \<or> st (ks_sched s) j = TASK_ZOMBIE"
    "kmalloc TASK_STACK_SIZE (km_of s) = Some (stack, km)" "stack \<noteq> 0"
    "s' = created j stack km bootstrap entry arg name s"
  have len: "length (tasks_of s) = MAX_TASKS" using assms(2) by (simp add: sched_inv_def)
  note cf = created_facts [OF len a(3), of stack km bootstrap entry arg name, folded a(7)]
  note h = created_heap(1,2) [OF assms(1,3) len a(3) a(5,6), where b = bootstrap and e = entry and a = arg
      and name = name, folded a(7)]
  have ok: "stacks_ok s'" unfolding a(7) by (rule created_stacks_ok [OF assms(1,3) len a(3) a(5,6)])
  have "map (\<lambda>k. ks_words s' (stack + 8192 - 20 + k)) [0, 4, 8, 12, 16] = [0, 0, 0, 0, bootstrap]"
    by (simp add: cf(3) initial_frame_def)
  then show ?thesis
    using a(1-4) h ok cf create_inv [OF assms(2,4)] by simp
qed simp

theorem scheduler_create_task_correct_witness:
  "\<exists>s s' i. heap_inv (km_of s) \<and> sched_inv (ks_sched s) \<and> stacks_ok s \<and>
     scheduler_create_task 0x101000 0x102000 7 None s = Some (Some i, s') \<and> st (ks_sched s') i = TASK_RUNNABLE \<and>
     (\<exists>n. stack_block s' i n)"
proof -
  obtain p where p: "heap_ok {0x100000} [(16368, True)] (demo_heap p)" "heap_inv (demo_heap p)" by (rule demo_heap_inv)
  obtain km where k: "kmalloc 8192 (demo_heap p) = Some (0xD0000010, km)" by (rule demo_heap_first [OF p(1), of 8192]) simp_all
  let ?s = "demo_sys p"
  have km: "km_of ?s = demo_heap p" by (simp add: demo_sys_def demo_fs_def scheduler_init_def Let_def)
  have len: "length (tasks_of ?s) = 16" using demo_sys_inv [of p] by (simp add: sched_inv_def)
  have base: "tk_stack_base (tasks_of ?s ! i) = 0" "i \<noteq> 0 \<Longrightarrow> st (ks_sched ?s) i = TASK_UNUSED" if "i < 16" for i
    using that by (cases "i = 0"; simp add: demo_sys_def scheduler_init_def Let_def task_clear_def)+
  have ok: "stacks_ok ?s" using base(1) by (simp add: stacks_ok_def)
  have "first_idx (\<lambda>t. tk_state t = TASK_UNUSED \<or> tk_state t = TASK_ZOMBIE) (drop 1 (tasks_of ?s)) = Some 0"
    using base(2) [of 1] len by (simp add: first_idx_Some)
  moreover have "sc_started (ks_sched ?s)" using demo_sys_inv [of p] by (simp add: sched_inv_def)
  ultimately obtain i s' where cr: "scheduler_create_task 0x101000 0x102000 7 None ?s = Some (Some i, s')"
    using k km by (simp add: scheduler_create_task_def Let_def)
  have h: "heap_inv (km_of ?s)" using p(2) km by simp
  from scheduler_create_task_correct [OF h demo_sys_inv ok cr] h demo_sys_inv ok cr show ?thesis by blast
qed

end
