(* ===== verification/User_Image.thy ===== *)
theory User_Image
  imports Vfs
begin

text \<open>
  The user program loader of \<open>process.c\<close>: the \<open>MARSHEX\<close> text format in which programs are stored in
  the RAM file system, the ELF loader that builds the single code page of a process, and the
  two built-in machine code programs.  Byte arrays (the image and the code page) are functions from 32-bit
  offsets to bytes; a C function that fills an array returns the new array next to its result.
\<close>

section \<open>Text format\<close>

definition parse_hex_nibble :: "char \<Rightarrow> u8 option" where
  "parse_hex_nibble c =
     (if of_char CHR ''0'' \<le> (of_char c :: nat) \<and> of_char c \<le> (of_char CHR ''9'' :: nat)
        then Some (of_char c - of_char CHR ''0'')
      else if of_char CHR ''a'' \<le> (of_char c :: nat) \<and> of_char c \<le> (of_char CHR ''f'' :: nat)
        then Some (10 + (of_char c - of_char CHR ''a''))
      else if of_char CHR ''A'' \<le> (of_char c :: nat) \<and> of_char c \<le> (of_char CHR ''F'' :: nat)
        then Some (10 + (of_char c - of_char CHR ''A''))
      else None)"

definition is_ws :: "char \<Rightarrow> bool" where
  "is_ws c \<longleftrightarrow> c = CHR '' '' \<or> c = CHR 0x09 \<or> c = CHR 0x0A \<or> c = CHR 0x0D"

text \<open>A pointer into the text is the index it points to.\<close>

function skip_ws :: "string \<Rightarrow> nat \<Rightarrow> nat" where
  "skip_ws text p = (if is_ws (c_at text p) then skip_ws text (p + 1) else p)"
  by pat_completeness auto
termination
  by (relation "measure (\<lambda>(text, p). length text - p)") (auto simp: c_at_def is_ws_def split: if_splits)

declare skip_ws.simps [simp del]

definition str_eq_n :: "string \<Rightarrow> nat \<Rightarrow> string \<Rightarrow> nat \<Rightarrow> bool" where
  "str_eq_n text p b n = list_all (\<lambda>i. c_at text (p + i) = c_at b i) [0..<n]"

lemma skip_ws_ge: "p \<le> skip_ws text p"
  by (induction "text" p rule: skip_ws.induct) (subst skip_ws.simps, auto)

function parse_hex_loop :: "string \<Rightarrow> nat \<Rightarrow> (u32 \<Rightarrow> u8) \<Rightarrow> u32 \<Rightarrow> u32 \<Rightarrow> u32 option \<times> (u32 \<Rightarrow> u8)" where
  "parse_hex_loop text p0 code code_cap count =
     (let p = skip_ws text p0 in
      if c_at text p = NUL then (Some count, code)
      else if c_at text (p + 1) = NUL then (None, code)
      else case parse_hex_nibble (c_at text p) of None \<Rightarrow> (None, code)
        | Some hi \<Rightarrow>
          (case parse_hex_nibble (c_at text (p + 1)) of None \<Rightarrow> (None, code)
           | Some lo \<Rightarrow>
              if count \<ge> code_cap then (None, code)
              else parse_hex_loop text (p + 2) (code(count := push_bit 4 hi OR lo)) code_cap (count + 1)))"
  by pat_completeness auto
termination
proof (relation "measure (\<lambda>(text, p, code, cap, count). length text - p)")
  fix "text" p0 p and code :: "u32 \<Rightarrow> u8" and cap count :: u32 and hi lo
  assume p: "p = skip_ws text p0" and n: "c_at text p \<noteq> NUL"
  from n have "p < length text" by (auto simp: c_at_def split: if_splits)
  with p skip_ws_ge [of p0 "text"] show "((text, p + 2, code(count := push_bit 4 hi OR lo), cap, count + 1), (text, p0, code, cap, count))
      \<in> measure (\<lambda>(text, p, code, cap, count). length text - p)" by simp
qed simp

declare parse_hex_loop.simps [simp del]

definition parse_user_image_hex :: "string option \<Rightarrow> (u32 \<Rightarrow> u8) \<Rightarrow> u32 \<Rightarrow> u32 option \<times> (u32 \<Rightarrow> u8)" where
  "parse_user_image_hex text_ptr code code_cap =
     (case text_ptr of None \<Rightarrow> (None, code)
      | Some text \<Rightarrow>
          if code_cap = 0 then (None, code)
          else
            let p0 = skip_ws text 0;
                p = (if str_eq_n text p0 ''MARSHEX'' 7 then p0 + 7 else p0);
                (result, code1) = parse_hex_loop text p code code_cap 0
            in case result of None \<Rightarrow> (None, code1)
               | Some count \<Rightarrow> if count = 0 then (None, code1) else (Some count, code1))"

text \<open>
  The string a pointer into the heap denotes.  Reading runs on until a NUL byte is found; without
  one anywhere in the address space it does not return.
\<close>

partial_function (option) cstring_at :: "(u32 \<Rightarrow> char) \<Rightarrow> u32 \<Rightarrow> string option" where
  "cstring_at b a =
     (if b a = NUL then Some []
      else Option.bind (cstring_at b (a + 1)) (\<lambda>cs. Some (b a # cs)))"

text \<open>\<open>while (program_name[j] != '\0') { if (i + 1u >= sizeof(alt_name)) return 0; alt_name[i++] = program_name[j++]; }\<close>\<close>

function alt_name_loop :: "string \<Rightarrow> string \<Rightarrow> nat \<Rightarrow> nat \<Rightarrow> string option" where
  "alt_name_loop alt_name program_name i j =
     (if c_at program_name j \<noteq> NUL then
        (if i + 1 \<ge> 40 then None
         else alt_name_loop (alt_name[i := c_at program_name j]) program_name (i + 1) (j + 1))
      else Some (alt_name[i := NUL]))"
  by pat_completeness auto
termination
  by (relation "measure (\<lambda>(alt, name, i, j). length name - j)") (auto simp: c_at_def split: if_splits)

declare alt_name_loop.simps [simp del]

text \<open>The name \<open>app.<program>\<close> in a 40 byte buffer; None when it does not fit.\<close>

definition alt_name :: "string \<Rightarrow> string option" where
  "alt_name program_name = alt_name_loop (''app.'' @ replicate 36 NUL) program_name 4 0"

datatype image_status = No_image | Bad_image | Image u32

text \<open>
  The return values 0, -1 and 1 (with \<open>*out_len\<close>) of the C function, and the buffer.  The outer
  None is a file whose text never ends.
\<close>

definition process_load_user_image_bytes_from_vfs ::
  "string option \<Rightarrow> (u32 \<Rightarrow> u8) \<Rightarrow> u32 \<Rightarrow> kfs \<Rightarrow> (image_status \<times> (u32 \<Rightarrow> u8)) option" where
  "process_load_user_image_bytes_from_vfs program_name dst dst_cap s =
     (case program_name of None \<Rightarrow> Some (No_image, dst)
      | Some name \<Rightarrow>
          if c_at name 0 = NUL then Some (No_image, dst)
          else
            let t0 = vfs_read_file (Some name) s;
                image_text = (if t0 \<noteq> 0 then t0
                  else case alt_name name of None \<Rightarrow> 0 | Some alt \<Rightarrow> vfs_read_file (Some alt) s)
            in if image_text = 0 then Some (No_image, dst)
               else case cstring_at (fs_bytes s) image_text of None \<Rightarrow> None
                 | Some text \<Rightarrow>
                     if vfs_str_len text < 2 then Some (Bad_image, dst)
                     else case parse_user_image_hex (Some text) dst dst_cap of
                         (None, dst1) \<Rightarrow> Some (Bad_image, dst1)
                       | (Some len, dst1) \<Rightarrow> Some (Image len, dst1))"

section \<open>ELF images\<close>

definition mem_copy_u8 :: "(u32 \<Rightarrow> u8) \<Rightarrow> u32 \<Rightarrow> (u32 \<Rightarrow> u8) \<Rightarrow> u32 \<Rightarrow> u32 \<Rightarrow> (u32 \<Rightarrow> u8)" where
  "mem_copy_u8 dst d src s n = fold (\<lambda>i b. b(d + of_nat i := src (s + of_nat i))) [0..<unat n] dst"

definition mem_zero_u8 :: "(u32 \<Rightarrow> u8) \<Rightarrow> u32 \<Rightarrow> u32 \<Rightarrow> (u32 \<Rightarrow> u8)" where
  "mem_zero_u8 dst d n = fold (\<lambda>i b. b(d + of_nat i := 0)) [0..<unat n] dst"

record elf32_ehdr =
  e_type :: u16
  e_machine :: u16
  e_version :: u32
  e_entry :: u32
  e_phoff :: u32
  e_ehsize :: u16
  e_phentsize :: u16
  e_phnum :: u16

record elf32_phdr =
  p_type :: u32
  p_offset :: u32
  p_vaddr :: u32
  p_filesz :: u32
  p_memsz :: u32

text \<open>The packed structures at their byte offsets; the members the loader does not read are left out.\<close>

definition ehdr_of :: "(u32 \<Rightarrow> u8) \<Rightarrow> elf32_ehdr" where
  "ehdr_of img = \<lparr>e_type = load16 img 16, e_machine = load16 img 18, e_version = load32 img 20,
     e_entry = load32 img 24, e_phoff = load32 img 28, e_ehsize = load16 img 40,
     e_phentsize = load16 img 42, e_phnum = load16 img 44\<rparr>"

definition phdr_of :: "(u32 \<Rightarrow> u8) \<Rightarrow> u32 \<Rightarrow> elf32_phdr" where
  "phdr_of img a = \<lparr>p_type = load32 img a, p_offset = load32 img (a + 4), p_vaddr = load32 img (a + 8),
     p_filesz = load32 img (a + 16), p_memsz = load32 img (a + 20)\<rparr>"

definition process_is_elf32_image :: "(u32 \<Rightarrow> u8) \<Rightarrow> u32 \<Rightarrow> bool" where
  "process_is_elf32_image img image_len =
     (if image_len < 52 then False
      else img 0 = 0x7F \<and> img 1 = of_char CHR ''E'' \<and> img 2 = of_char CHR ''L'' \<and> img 3 = of_char CHR ''F'')"

text \<open>The checks on the file header, in the order of the code.\<close>

definition elf_header_ok :: "(u32 \<Rightarrow> u8) \<Rightarrow> u32 \<Rightarrow> bool" where
  "elf_header_ok img image_len =
     (let eh = ehdr_of img in
      if img 0 \<noteq> 0x7F \<or> img 1 \<noteq> of_char CHR ''E'' \<or> img 2 \<noteq> of_char CHR ''L'' \<or> img 3 \<noteq> of_char CHR ''F'' then False
      else if img 4 \<noteq> 1 \<or> img 5 \<noteq> 1 \<or> img 6 \<noteq> 1 then False
      else if e_machine eh \<noteq> 3 then False
      else if e_type eh \<noteq> 2 then False
      else if e_version eh \<noteq> 1 then False
      else if e_ehsize eh \<noteq> 52 then False
      else if e_phentsize eh \<noteq> 32 then False
      else if e_phoff eh > image_len then False
      else if e_phnum eh > 0 then
        (let ph_bytes = ucast (e_phnum eh) * ucast (e_phentsize eh) :: u32 in \<not> e_phoff eh > image_len - ph_bytes)
      else True)"

text \<open>One round of the segment loop: None is \<open>return 0\<close>; the flags are \<open>loaded_any\<close> and \<open>entry_in_load\<close>.\<close>

definition load_segment ::
  "(u32 \<Rightarrow> u8) \<Rightarrow> u32 \<Rightarrow> u32 \<Rightarrow> u32 \<Rightarrow> u32 \<Rightarrow> elf32_phdr \<Rightarrow> (u32 \<Rightarrow> u8) \<Rightarrow> (bool \<times> bool) option \<times> (u32 \<Rightarrow> u8)" where
  "load_segment img image_len code_vaddr code_size entry ph code =
     (if p_type ph \<noteq> 1 then (Some (False, False), code)
      else if p_memsz ph = 0 then (Some (False, False), code)
      else if p_vaddr ph > 0xFFFFFFFF - p_memsz ph then (None, code)
      else if p_filesz ph > p_memsz ph then (None, code)
      else if p_offset ph > image_len \<or> p_filesz ph > image_len - p_offset ph then (None, code)
      else if p_vaddr ph < code_vaddr then (None, code)
      else
        let seg_off = p_vaddr ph - code_vaddr in
        if seg_off > code_size \<or> p_memsz ph > code_size - seg_off then (None, code)
        else
          let code1 = (if p_filesz ph > 0 then mem_copy_u8 code seg_off img (p_offset ph) (p_filesz ph) else code);
              code2 = (if p_memsz ph > p_filesz ph
                then mem_zero_u8 code1 (seg_off + p_filesz ph) (p_memsz ph - p_filesz ph) else code1)
          in (Some (True, entry \<ge> p_vaddr ph \<and> entry < p_vaddr ph + p_memsz ph), code2))"

fun load_segments ::
  "(u32 \<Rightarrow> u8) \<Rightarrow> u32 \<Rightarrow> u32 \<Rightarrow> u32 \<Rightarrow> u32 \<Rightarrow> elf32_phdr list \<Rightarrow> bool \<times> bool \<Rightarrow> (u32 \<Rightarrow> u8)
     \<Rightarrow> (bool \<times> bool) option \<times> (u32 \<Rightarrow> u8)" where
  "load_segments img image_len code_vaddr code_size entry [] flags code = (Some flags, code)"
| "load_segments img image_len code_vaddr code_size entry (ph # phs) flags code =
     (case load_segment img image_len code_vaddr code_size entry ph code of
        (None, code1) \<Rightarrow> (None, code1)
      | (Some (loaded, entry_in), code1) \<Rightarrow>
          load_segments img image_len code_vaddr code_size entry phs (fst flags \<or> loaded, snd flags \<or> entry_in) code1)"

definition phdrs_of :: "(u32 \<Rightarrow> u8) \<Rightarrow> elf32_phdr list" where
  "phdrs_of img =
     (let eh = ehdr_of img in
      map (\<lambda>i. phdr_of img (e_phoff eh + of_nat i * ucast (e_phentsize eh))) [0..<unat (e_phnum eh)])"

definition process_load_elf32_single_page ::
  "(u32 \<Rightarrow> u8) \<Rightarrow> u32 \<Rightarrow> (u32 \<Rightarrow> u8) \<Rightarrow> u32 \<Rightarrow> u32 \<Rightarrow> u32 option \<times> (u32 \<Rightarrow> u8)" where
  "process_load_elf32_single_page img image_len code code_vaddr code_size =
     (if image_len < 52 then (None, code)
      else if \<not> elf_header_ok img image_len then (None, code)
      else
        let entry = e_entry (ehdr_of img);
            code0 = mem_zero_u8 code 0 code_size
        in case load_segments img image_len code_vaddr code_size entry (phdrs_of img) (False, False) code0 of
             (None, code1) \<Rightarrow> (None, code1)
           | (Some (loaded_any, entry_in_load), code1) \<Rightarrow>
               if \<not> loaded_any then (None, code1)
               else if entry < code_vaddr \<or> entry \<ge> code_vaddr + code_size then (None, code1)
               else if \<not> entry_in_load then (None, code1)
               else (Some entry, code1))"

section \<open>Built-in programs\<close>

text \<open>\<open>code[off++] = b\<close> for each byte.\<close>

definition emit :: "u8 list \<Rightarrow> (u32 \<Rightarrow> u8) \<times> u32 \<Rightarrow> (u32 \<Rightarrow> u8) \<times> u32" where
  "emit bs co = fold (\<lambda>b (code, off). (code(off := b), off + 1)) bs co"

definition process_emit_ping_program :: "(u32 \<Rightarrow> u8) \<Rightarrow> u32 \<Rightarrow> (u32 \<Rightarrow> u8) \<times> u32" where
  "process_emit_ping_program code ping_count =
     (let n1 = (if ping_count = 0 then 1 else ping_count);
          n = (if n1 > 32 then 32 else n1)
      in emit [0xCD, 0x81, 0xEB, 0xFE]
           (fold (\<lambda>_. emit [0xB8, 17, 0, 0, 0, 0xCD, 0x80]) [0..<unat n] (code, 0)))"

definition process_emit_exit_only_program :: "(u32 \<Rightarrow> u8) \<Rightarrow> (u32 \<Rightarrow> u8) \<times> u32" where
  "process_emit_exit_only_program code = emit [0xCD, 0x81, 0xEB, 0xFE] (code, 0)"

section \<open>The text format\<close>

text \<open>The bytes a text denotes, on the list of its characters.\<close>

fun hex_pairs :: "string \<Rightarrow> u8 list option" where
  "hex_pairs [] = Some []"
| "hex_pairs [c] = (if is_ws c then Some [] else None)"
| "hex_pairs (c # d # ds) =
     (if is_ws c then hex_pairs (d # ds)
      else case parse_hex_nibble c of None \<Rightarrow> None
        | Some hi \<Rightarrow> (case parse_hex_nibble d of None \<Rightarrow> None
            | Some lo \<Rightarrow> map_option ((#) (push_bit 4 hi OR lo)) (hex_pairs ds)))"

definition marshex_bytes :: "string \<Rightarrow> u8 list option" where
  "marshex_bytes t =
     (let s = dropWhile is_ws t in hex_pairs (if take 7 s = ''MARSHEX'' then drop 7 s else s))"

primrec overwrite :: "u32 \<Rightarrow> u8 list \<Rightarrow> (u32 \<Rightarrow> u8) \<Rightarrow> (u32 \<Rightarrow> u8)" where
  "overwrite off [] code = code"
| "overwrite off (b # bs) code = overwrite (off + 1) bs (code(off := b))"

lemma overwrite_at:
  assumes "length bs \<le> 2 ^ 32"
  shows "overwrite off bs code x = (if unat (x - off) < length bs then bs ! unat (x - off) else code x)"
  using assms
proof (induction bs arbitrary: off code)
  case Nil
  then show ?case by simp
next
  case (Cons b bs)
  have IH: "overwrite off (b # bs) code x = (if unat (x - (off + 1)) < length bs then bs ! unat (x - (off + 1))
      else (code(off := b)) x)" using Cons by simp
  show ?case
  proof (cases "x = off")
    case True
    then have "unat (x - (off + 1)) = unat (- 1 :: u32)" by simp
    then have "unat (x - (off + 1)) = 2 ^ 32 - 1" by (simp add: unsigned_minus_1_eq_mask mask_eq_exp_minus_1)
    then have "\<not> unat (x - (off + 1)) < length bs" using Cons.prems by simp
    with IH True show ?thesis by simp
  next
    case False
    then have "x - off \<noteq> 0" by simp
    then have "unat (x - off) = Suc (unat (x - off - 1))" using unat_minus_one [of "x - off"] unat_gt_0 [of "x - off"] by simp
    then have "unat (x - off) = Suc (unat (x - (off + 1)))" by (simp add: diff_diff_eq)
    with IH False show ?thesis by simp
  qed
qed

lemma emit_eq: "emit bs (code, off) = (overwrite off bs code, off + of_nat (length bs))"
  by (induction bs arbitrary: code off) (simp_all add: emit_def algebra_simps)

lemma is_ws_NUL: "\<not> is_ws NUL"
  by (simp add: is_ws_def)

lemma drop_cstr_c_at:
  assumes "p \<le> length (cstr t)"
  shows "drop p (cstr t) = [] \<Longrightarrow> c_at t p = NUL"
    and "drop p (cstr t) = c # cs \<Longrightarrow> c_at t p = c \<and> c \<noteq> NUL \<and> p + 1 \<le> length (cstr t) \<and> drop (p + 1) (cstr t) = cs"
proof -
  assume "drop p (cstr t) = []"
  with assms show "c_at t p = NUL" by (simp add: c_at_NUL_iff)
next
  assume d: "drop p (cstr t) = c # cs"
  then have lt: "p < length (cstr t)" by (cases "p < length (cstr t)") auto
  then have "c_at t p = cstr t ! p" using c_at_cstr [of p t] by (simp add: c_at_def)
  moreover have "cstr t ! p = c" "drop (p + 1) (cstr t) = cs"
    using d lt by (simp_all add: Cons_nth_drop_Suc [symmetric])
  ultimately show "c_at t p = c \<and> c \<noteq> NUL \<and> p + 1 \<le> length (cstr t) \<and> drop (p + 1) (cstr t) = cs"
    using lt cstr_no_NUL [of t] nth_mem [of p "cstr t"] by auto
qed

lemma skip_ws_eq:
  assumes "p \<le> length (cstr t)"
  shows "skip_ws t p \<le> length (cstr t) \<and> drop (skip_ws t p) (cstr t) = dropWhile is_ws (drop p (cstr t))"
  using assms
proof (induction "length (cstr t) - p" arbitrary: p)
  case 0
  then have "c_at t p = NUL" by (simp add: c_at_NUL_iff)
  with 0 show ?case by (subst (1 2) skip_ws.simps) (simp add: is_ws_NUL)
next
  case (Suc k)
  then obtain c cs where d: "drop p (cstr t) = c # cs" by (cases "drop p (cstr t)") auto
  note n = drop_cstr_c_at(2) [OF Suc.prems d]
  show ?case
  proof (cases "is_ws c")
    case True
    moreover have "k = length (cstr t) - (p + 1)" using Suc.hyps(2) by simp
    ultimately show ?thesis using Suc.hyps(1) [of "p + 1"] n d by (subst (1 2) skip_ws.simps) simp
  next
    case False
    then show ?thesis using Suc.prems n d by (subst (1 2) skip_ws.simps) simp
  qed
qed

lemma hex_pairs_ws: "hex_pairs (dropWhile is_ws s) = hex_pairs s"
proof (induction s)
  case (Cons c s)
  then show ?case by (cases s) simp_all
qed simp

lemma parse_hex_loop_spec:
  assumes "p \<le> length (cstr t)" "unat count \<le> unat cap"
  shows "fst (parse_hex_loop t p code cap count) = (case hex_pairs (drop p (cstr t)) of None \<Rightarrow> None
        | Some bs \<Rightarrow> if unat count + length bs \<le> unat cap then Some (count + of_nat (length bs)) else None) \<and>
    (\<forall>bs. hex_pairs (drop p (cstr t)) = Some bs \<and> unat count + length bs \<le> unat cap \<longrightarrow>
        snd (parse_hex_loop t p code cap count) = overwrite count bs code) \<and>
    (\<forall>x. unat cap \<le> unat x \<longrightarrow> snd (parse_hex_loop t p code cap count) x = code x)"
  (is "?P p code count")
  using assms
proof (induction "length (cstr t) - p" arbitrary: p count code rule: less_induct)
  case less
  let ?q = "skip_ws t p"
  note q = skip_ws_eq [OF less.prems(1)]
  have hp: "hex_pairs (drop p (cstr t)) = hex_pairs (drop ?q (cstr t))"
    using q hex_pairs_ws by metis
  note step = parse_hex_loop.simps [of t p code cap count]
  consider (nil) "drop ?q (cstr t) = []" | (one) c where "drop ?q (cstr t) = [c]"
    | (more) c d ds where "drop ?q (cstr t) = c # d # ds"
    by (cases "drop ?q (cstr t)" rule: list.exhaust [case_product list.exhaust]) (auto, metis list.exhaust)
  then show ?case
  proof cases
    case nil
    then have "hex_pairs (drop p (cstr t)) = Some []" using hp by simp
    moreover have "c_at t ?q = NUL" using drop_cstr_c_at(1) [of ?q t] q nil by blast
    ultimately show ?thesis using less.prems by (simp add: step)
  next
    case one
    then have "\<not> is_ws c" using q by (metis dropWhile_eq_Cons_conv)
    with one show ?thesis
      using drop_cstr_c_at(2) [of ?q t c "[]"] drop_cstr_c_at(1) [of "?q + 1" t] q hp by (simp add: step)
  next
    case more
    then have nws: "\<not> is_ws c" using q by (metis dropWhile_eq_Cons_conv)
    note c = drop_cstr_c_at(2) [OF q [THEN conjunct1] more]
    have d: "c_at t (?q + 1) = d \<and> d \<noteq> NUL \<and> ?q + 2 \<le> length (cstr t) \<and> drop (?q + 2) (cstr t) = ds"
      using drop_cstr_c_at(2) [of "?q + 1" t d ds] c by simp
    show ?thesis
    proof (cases "parse_hex_nibble c = None \<or> parse_hex_nibble d = None")
      case True
      then show ?thesis using c d nws more hp by (auto simp: step Let_def split: option.splits)
    next
      case False
      then obtain hi lo where n: "parse_hex_nibble c = Some hi" "parse_hex_nibble d = Some lo" by auto
      define code1 where "code1 = code(count := push_bit 4 hi OR lo)"
      have spec: "hex_pairs (drop p (cstr t)) = map_option ((#) (push_bit 4 hi OR lo)) (hex_pairs (drop (?q + 2) (cstr t)))"
        using hp more nws n d by simp
      show ?thesis
      proof (cases "unat count < unat cap")
        case False
        then have "parse_hex_loop t p code cap count = (None, code)"
          using c d n by (simp add: step Let_def word_le_nat_alt)
        then show ?thesis using False spec by (auto split: option.splits)
      next
        case True
        then have s1: "unat (count + 1) = Suc (unat count)" using unat_u32_less [of cap] by (simp add: unat_word_ariths)
        have eq: "parse_hex_loop t p code cap count = parse_hex_loop t (?q + 2) code1 cap (count + 1)"
          using c d n True by (simp add: step Let_def word_le_nat_alt code1_def)
        have "length (cstr t) - (?q + 2) < length (cstr t) - p" using skip_ws_ge [of p t] d by linarith
        then have IH: "?P (?q + 2) code1 (count + 1)" using less.hyps d True s1 by simp
        have "code1 x = code x" if "unat cap \<le> unat x" for x using that True by (auto simp: code1_def)
        moreover have "overwrite count ((push_bit 4 hi OR lo) # bs) code = overwrite (count + 1) bs code1" for bs
          by (simp add: code1_def)
        ultimately show ?thesis unfolding eq using IH spec s1
          by (cases "hex_pairs (drop (?q + 2) (cstr t))") (auto simp del: overwrite.simps)
      qed
    qed
  qed
qed

lemma str_eq_n_iff_all: "str_eq_n t p b n \<longleftrightarrow> (\<forall>i < n. c_at t (p + i) = c_at b i)"
  by (auto simp: str_eq_n_def list_all_iff)

lemma all_less_Suc_conv: "(\<forall>i < Suc n. P i) \<longleftrightarrow> P 0 \<and> (\<forall>i < n. P (Suc i))"
  by (auto simp: less_Suc_eq_0_disj)

lemma str_eq_n_iff:
  assumes "p \<le> length (cstr t)" "NUL \<notin> set b"
  shows "str_eq_n t p b (length b) \<longleftrightarrow> take (length b) (drop p (cstr t)) = b"
  using assms
proof (induction b arbitrary: p)
  case Nil
  then show ?case by (simp add: str_eq_n_iff_all)
next
  case (Cons c b)
  have split: "str_eq_n t p (c # b) (length (c # b)) \<longleftrightarrow> c_at t p = c \<and> str_eq_n t (p + 1) b (length b)"
    using all_less_Suc_conv [of "length b" "\<lambda>i. c_at t (p + i) = c_at (c # b) i"]
    by (simp add: str_eq_n_iff_all c_at_def [of "c # b"] c_at_def [of b])
  show ?case
  proof (cases "drop p (cstr t)")
    case Nil
    then have "c_at t p = NUL" using drop_cstr_c_at(1) [OF Cons.prems(1)] by simp
    with split Nil Cons.prems show ?thesis by auto
  next
    case d: (Cons e es)
    note n = drop_cstr_c_at(2) [OF Cons.prems(1) d]
    then show ?thesis using split d Cons.IH [of "p + 1"] Cons.prems by auto
  qed
qed

lemma parse_user_image_hex_spec:
  assumes "cap \<noteq> 0"
  shows "fst (parse_user_image_hex (Some t) code cap) = (case marshex_bytes (cstr t) of None \<Rightarrow> None
        | Some bs \<Rightarrow> if bs \<noteq> [] \<and> length bs \<le> unat cap then Some (of_nat (length bs)) else None) \<and>
    (\<forall>bs. marshex_bytes (cstr t) = Some bs \<and> length bs \<le> unat cap \<longrightarrow>
        snd (parse_user_image_hex (Some t) code cap) = overwrite 0 bs code) \<and>
    (\<forall>x. unat cap \<le> unat x \<longrightarrow> snd (parse_user_image_hex (Some t) code cap) x = code x)"
proof -
  define p0 where "p0 = skip_ws t 0"
  define p where "p = (if str_eq_n t p0 ''MARSHEX'' 7 then p0 + 7 else p0)"
  have p0: "p0 \<le> length (cstr t)" "drop p0 (cstr t) = dropWhile is_ws (cstr t)"
    using skip_ws_eq [of 0 t] by (simp_all add: p0_def)
  have m: "str_eq_n t p0 ''MARSHEX'' 7 \<longleftrightarrow> take 7 (drop p0 (cstr t)) = ''MARSHEX''"
    using str_eq_n_iff [OF p0(1), of "''MARSHEX''"] by (simp add: eval_nat_numeral)
  have "p0 + 7 \<le> length (cstr t)" if "str_eq_n t p0 ''MARSHEX'' 7"
  proof -
    have "take 7 (drop p0 (cstr t)) = ''MARSHEX''" using m that by blast
    then have "length (take 7 (drop p0 (cstr t))) = length ''MARSHEX''" by (rule arg_cong)
    then show ?thesis using p0(1) by (simp only: length_take length_drop list.size)
  qed
  then have p: "p \<le> length (cstr t)" using p0(1) by (simp add: p_def)
  have hp: "hex_pairs (drop p (cstr t)) = marshex_bytes (cstr t)"
    using p0(2) m drop_drop [of 7 p0 "cstr t"] by (simp add: p_def marshex_bytes_def Let_def add.commute)
  have run: "parse_user_image_hex (Some t) code cap = (case parse_hex_loop t p code cap 0 of (result, code1) \<Rightarrow>
      (case result of None \<Rightarrow> (None, code1) | Some count \<Rightarrow> if count = 0 then (None, code1) else (Some count, code1)))"
    using assms by (simp add: parse_user_image_hex_def p_def p0_def Let_def)
  obtain r c1 where l: "parse_hex_loop t p code cap 0 = (r, c1)" by fastforce
  have snd: "snd (parse_user_image_hex (Some t) code cap) = c1" using run l by (auto split: option.splits)
  have fst: "fst (parse_user_image_hex (Some t) code cap) = (if r = Some 0 then None else r)"
    using run l by (auto split: option.splits)
  have nz: "(of_nat (length bs) :: u32) = 0 \<longleftrightarrow> bs = []" if "length bs \<le> unat cap" for bs :: "u8 list"
    using that unat_u32_less [of cap] by (auto simp: word_unat_eq_iff unat_of_nat)
  show ?thesis
    using parse_hex_loop_spec [OF p, of 0 cap code] unfolding snd fst l hp
    by (cases "marshex_bytes (cstr t)") (auto simp: nz)
qed

text \<open>
  The loader accepts exactly the texts of the \<open>MARSHEX\<close> grammar: optional white space, an
  optional tag, and pairs of hexadecimal digits separated by white space.  It fails on an odd digit, a
  foreign character, an empty image or one larger than the buffer; on success the buffer starts with the
  bytes the text denotes; and in no case is a byte at or above the capacity written.
\<close>

theorem parse_user_image_hex_exact:
  assumes "cap \<noteq> 0"
  shows "fst (parse_user_image_hex (Some t) code cap) = (case marshex_bytes (cstr t) of None \<Rightarrow> None
        | Some bs \<Rightarrow> if bs \<noteq> [] \<and> length bs \<le> unat cap then Some (of_nat (length bs)) else None) \<and>
    (\<forall>bs. marshex_bytes (cstr t) = Some bs \<and> length bs \<le> unat cap \<longrightarrow>
        snd (parse_user_image_hex (Some t) code cap) = overwrite 0 bs code) \<and>
    (\<forall>x. unat cap \<le> unat x \<longrightarrow> snd (parse_user_image_hex (Some t) code cap) x = code x)"
  by (rule parse_user_image_hex_spec [OF assms])

theorem parse_user_image_hex_exact_witness:
  "parse_user_image_hex (Some '' MARSHEX CD 81 eB fe'') (\<lambda>_. 0) 16 =
     (Some 4, overwrite 0 [0xCD, 0x81, 0xEB, 0xFE] (\<lambda>_. 0)) \<and>
   fst (parse_user_image_hex (Some ''MARSHEX CD 8'') (\<lambda>_. 0) 16) = None \<and>
   fst (parse_user_image_hex (Some ''MARSHEX CD 81'') (\<lambda>_. 0) 1) = None"
proof -
  have b: "marshex_bytes (cstr '' MARSHEX CD 81 eB fe'') = Some [0xCD, 0x81, 0xEB, 0xFE]"
    "marshex_bytes (cstr ''MARSHEX CD 8'') = None" "marshex_bytes (cstr ''MARSHEX CD 81'') = Some [0xCD, 0x81]"
    by code_simp+
  show ?thesis
    using parse_user_image_hex_exact [of 16 "'' MARSHEX CD 81 eB fe''" "\<lambda>_. 0"]
      parse_user_image_hex_exact [of 16 "''MARSHEX CD 8''" "\<lambda>_. 0"]
      parse_user_image_hex_exact [of 1 "''MARSHEX CD 81''" "\<lambda>_. 0"] unfolding b
    by (simp add: prod_eq_iff)
qed

text \<open>The line, with its end, that \<open>tools/elf_to_marshex.sh\<close> prints for a binary.\<close>

definition hex_char :: "nat \<Rightarrow> char" where
  "hex_char n = ''0123456789abcdef'' ! n"

definition hex_byte :: "u8 \<Rightarrow> string" where
  "hex_byte b = [hex_char (unat (drop_bit 4 b)), hex_char (unat (b AND 15))]"

fun spaced_hex :: "u8 list \<Rightarrow> string" where
  "spaced_hex [] = []"
| "spaced_hex [b] = hex_byte b"
| "spaced_hex (b # bs) = hex_byte b @ '' '' @ spaced_hex bs"

definition elf_to_marshex :: "u8 list \<Rightarrow> string option" where
  "elf_to_marshex bs = (if bs = [] then None else Some (''MARSHEX '' @ spaced_hex bs @ [CHR 0x0A]))"

lemma hex_char_nibble:
  assumes "n < 16"
  shows "parse_hex_nibble (hex_char n) = Some (of_nat n) \<and> \<not> is_ws (hex_char n) \<and> hex_char n \<noteq> NUL"
proof -
  have "\<forall>n \<in> set [0, 1, 2, 3, 4, 5, 6, 7, 8, 9, 10, 11, 12, 13, 14, 15].
      parse_hex_nibble (hex_char n) = Some (of_nat n) \<and> \<not> is_ws (hex_char n) \<and> hex_char n \<noteq> NUL"
    by code_simp
  moreover have "n \<in> set [0, 1, 2, 3, 4, 5, 6, 7, 8, 9, 10, 11, 12, 13, 14, 15]"
    using assms unfolding numeral_nat by (simp add: less_Suc_eq)
  ultimately show ?thesis by blast
qed

lemma byte_nibbles:
  fixes b :: u8
  shows "unat (drop_bit 4 b) < 16" "unat (b AND 15) < 16" "push_bit 4 (drop_bit 4 b) OR (b AND 15) = b"
proof -
  have "mask 4 = (15 :: u8)" by (simp add: mask_eq_exp_minus_1)
  then show "unat (b AND 15) < 16" using unat_and_mask [of b 4] by simp
  show "unat (drop_bit 4 b) < 16" using unsigned_less [where ?'a = nat, of b] by (simp add: drop_bit_eq_div unat_div)
  have "push_bit 4 (drop_bit 4 b) OR (b AND mask 4) = b" by (rule bit_word_eqI) (auto simp: bit_simps)
  then show "push_bit 4 (drop_bit 4 b) OR (b AND 15) = b" unfolding \<open>mask 4 = (15 :: u8)\<close> .
qed

lemma hex_byte_pairs: "hex_pairs (hex_byte b @ s) = map_option ((#) b) (hex_pairs s)"
  using hex_char_nibble [OF byte_nibbles(1) [of b]] hex_char_nibble [OF byte_nibbles(2) [of b]] byte_nibbles(3) [of b]
  by (simp add: hex_byte_def)

lemma spaced_hex_pairs: "hex_pairs (spaced_hex bs @ [CHR 0x0A]) = Some bs"
proof (induction bs rule: spaced_hex.induct)
  case (2 b)
  then show ?case using hex_byte_pairs [of b "[CHR 0x0A]"] by (simp add: is_ws_def)
next
  case (3 b b' bs)
  have "hex_pairs ('' '' @ s) = hex_pairs s" for s using hex_pairs_ws [of "'' '' @ s"] hex_pairs_ws [of s] by (simp add: is_ws_def)
  with 3 show ?case by (simp only: spaced_hex.simps append_assoc hex_byte_pairs option.map)
qed (simp add: is_ws_def)

lemma spaced_hex_no_NUL: "NUL \<notin> set (spaced_hex bs)"
proof -
  have "NUL \<notin> set (hex_byte b)" for b
    using hex_char_nibble [OF byte_nibbles(1) [of b]] hex_char_nibble [OF byte_nibbles(2) [of b]]
    by (auto simp: hex_byte_def)
  then show ?thesis by (induction bs rule: spaced_hex.induct) auto
qed

text \<open>
  C31.  Build and loader agree: whatever binary \<open>tools/elf_to_marshex.sh\<close> packs, \<open>parse_user_image_hex\<close>
  unpacks byte for byte.
\<close>

theorem marshex_roundtrip:
  assumes "elf_to_marshex bs = Some t" and "length bs \<le> unat cap"
  shows "parse_user_image_hex (Some t) code cap = (Some (of_nat (length bs)), overwrite 0 bs code)"
proof -
  have bs: "bs \<noteq> []" and t: "t = ''MARSHEX '' @ spaced_hex bs @ [CHR 0x0A]" using assms(1) by (auto simp: elf_to_marshex_def split: if_splits)
  have "cstr t = t" using spaced_hex_no_NUL [of bs] by (intro cstr_id) (simp add: t)
  moreover have "marshex_bytes t = Some bs"
    using hex_pairs_ws [of "'' '' @ spaced_hex bs @ [CHR 0x0A]"] hex_pairs_ws [of "spaced_hex bs @ [CHR 0x0A]"]
    by (simp add: marshex_bytes_def t is_ws_def spaced_hex_pairs)
  moreover have "cap \<noteq> 0" using assms(2) bs by auto
  ultimately show ?thesis using parse_user_image_hex_spec [of cap t code] assms(2) bs by (simp add: prod_eq_iff)
qed

theorem marshex_roundtrip_witness:
  "elf_to_marshex [0xCD, 0x81] = Some (''MARSHEX cd 81'' @ [CHR 0x0A]) \<and>
   parse_user_image_hex (Some (''MARSHEX cd 81'' @ [CHR 0x0A])) (\<lambda>_. 0) 16 = (Some 2, overwrite 0 [0xCD, 0x81] (\<lambda>_. 0))"
proof -
  have e: "elf_to_marshex [0xCD, 0x81] = Some (''MARSHEX cd 81'' @ [CHR 0x0A])" by code_simp
  from marshex_roundtrip [OF e, of 16 "\<lambda>_. 0"] e show ?thesis by simp
qed

section \<open>The ELF loader\<close>

lemma fold_store:
  fixes d :: u32
  assumes "k \<le> 2 ^ 32"
  shows "fold (\<lambda>i b. b(d + of_nat i := f i)) [0..<k] b x = (if unat (x - d) < k then f (unat (x - d)) else b x)"
  using assms
proof (induction k)
  case 0
  then show ?case by simp
next
  case (Suc k)
  have "x = d + of_nat k \<longleftrightarrow> x - d = of_nat k" by (auto simp: algebra_simps)
  also have "\<dots> \<longleftrightarrow> unat (x - d) = k" using Suc.prems by (auto simp: word_unat_eq_iff unat_of_nat)
  finally show ?case using Suc by (auto simp: less_Suc_eq)
qed

lemma mem_copy_at: "mem_copy_u8 dst d src s n x = (if x - d < n then src (s + (x - d)) else dst x)"
  using unat_u32_less [of n] by (simp add: mem_copy_u8_def fold_store word_less_nat_alt less_imp_le)

lemma mem_zero_at: "mem_zero_u8 dst d n x = (if x - d < n then 0 else dst x)"
  using unat_u32_less [of n] by (simp add: mem_zero_u8_def fold_store word_less_nat_alt less_imp_le)

text \<open>
  What a program header asks for: the byte at an offset of the code page comes from the file as far
  as the segment has contents and is zero in the rest; the last segment that covers an
  offset decides, and an offset no segment covers is zero.
\<close>

definition loadable :: "elf32_phdr \<Rightarrow> bool" where
  "loadable ph \<longleftrightarrow> p_type ph = 1 \<and> p_memsz ph \<noteq> 0"

definition covers :: "u32 \<Rightarrow> elf32_phdr \<Rightarrow> u32 \<Rightarrow> bool" where
  "covers base ph x \<longleftrightarrow> loadable ph \<and> x - (p_vaddr ph - base) < p_memsz ph"

definition seg_byte :: "(u32 \<Rightarrow> u8) \<Rightarrow> u32 \<Rightarrow> elf32_phdr \<Rightarrow> u32 \<Rightarrow> u8" where
  "seg_byte img base ph x =
     (let k = x - (p_vaddr ph - base) in if k < p_filesz ph then img (p_offset ph + k) else 0)"

definition elf_byte :: "(u32 \<Rightarrow> u8) \<Rightarrow> u32 \<Rightarrow> elf32_phdr list \<Rightarrow> u32 \<Rightarrow> u8" where
  "elf_byte img base phs x =
     (case find (\<lambda>ph. covers base ph x) (rev phs) of None \<Rightarrow> 0 | Some ph \<Rightarrow> seg_byte img base ph x)"

definition seg_ok :: "u32 \<Rightarrow> u32 \<Rightarrow> u32 \<Rightarrow> elf32_phdr \<Rightarrow> bool" where
  "seg_ok len base sz ph \<longleftrightarrow>
     unat (p_vaddr ph) + unat (p_memsz ph) < 2 ^ 32 \<and> p_filesz ph \<le> p_memsz ph \<and>
     unat (p_offset ph) + unat (p_filesz ph) \<le> unat len \<and> base \<le> p_vaddr ph \<and>
     unat (p_vaddr ph) - unat base + unat (p_memsz ph) \<le> unat sz"

definition entry_in :: "u32 \<Rightarrow> elf32_phdr \<Rightarrow> bool" where
  "entry_in entry ph \<longleftrightarrow> loadable ph \<and> p_vaddr ph \<le> entry \<and> unat entry < unat (p_vaddr ph) + unat (p_memsz ph)"

definition elf_accepts :: "(u32 \<Rightarrow> u8) \<Rightarrow> u32 \<Rightarrow> u32 \<Rightarrow> u32 \<Rightarrow> bool" where
  "elf_accepts img len base sz \<longleftrightarrow>
     (let entry = e_entry (ehdr_of img) in
      52 \<le> len \<and> elf_header_ok img len \<and> (\<forall>ph \<in> set (phdrs_of img). loadable ph \<longrightarrow> seg_ok len base sz ph) \<and>
      (\<exists>ph \<in> set (phdrs_of img). entry_in entry ph) \<and> base \<le> entry \<and> entry < base + sz)"

lemma diff_le_iff: "a \<le> (b - c :: u32) \<longleftrightarrow> unat a + unat c \<le> unat b" if "c \<le> b" for a b c :: u32
  using that by (auto simp: word_le_nat_alt unat_sub)

lemma zero_range: "f \<le> m \<Longrightarrow> k - f < m - f \<longleftrightarrow> f \<le> k \<and> k < (m :: u32)" for k :: u32
  using unat_u32_less [of m] unat_u32_less [of f]
  by (auto simp: word_le_nat_alt word_less_nat_alt unat_sub_if')

lemma load_segment_skip: "\<not> loadable ph \<Longrightarrow> load_segment img len base sz entry ph code = (Some (False, False), code)"
  by (auto simp: load_segment_def loadable_def)

lemma load_segment_guards:
  assumes "loadable ph"
  shows "load_segment img len base sz entry ph code =
    (if seg_ok len base sz ph
     then (Some (True, entry_in entry ph), \<lambda>x. if covers base ph x then seg_byte img base ph x else code x)
     else (None, code))"
proof -
  let ?off = "p_vaddr ph - base"
  have vm: "\<not> p_vaddr ph > 0xFFFFFFFF - p_memsz ph \<longleftrightarrow> unat (p_vaddr ph) + unat (p_memsz ph) < 2 ^ 32"
  proof -
    have "p_memsz ph \<le> 0xFFFFFFFF" using unat_u32_less [of "p_memsz ph"] by (simp add: word_le_nat_alt)
    from diff_le_iff [OF this, of "p_vaddr ph"] show ?thesis by (auto simp: linorder_not_less)
  qed
  have fo: "\<not> (p_offset ph > len \<or> p_filesz ph > len - p_offset ph) \<longleftrightarrow> unat (p_offset ph) + unat (p_filesz ph) \<le> unat len"
    using diff_le_iff [of "p_offset ph" len "p_filesz ph"] by (auto simp: linorder_not_less word_le_nat_alt)
  have so: "\<not> (?off > sz \<or> p_memsz ph > sz - ?off) \<longleftrightarrow> unat (p_vaddr ph) - unat base + unat (p_memsz ph) \<le> unat sz"
    if "base \<le> p_vaddr ph"
    using diff_le_iff [of ?off sz "p_memsz ph"] that by (auto simp: linorder_not_less word_le_nat_alt unat_sub)
  show ?thesis
  proof (cases "seg_ok len base sz ph")
    case False
    then show ?thesis using assms vm fo so
      by (auto simp: load_segment_def loadable_def seg_ok_def Let_def linorder_not_less)
  next
    case True
    then have g: "\<not> p_vaddr ph > 0xFFFFFFFF - p_memsz ph" "\<not> p_filesz ph > p_memsz ph"
      "\<not> (p_offset ph > len \<or> p_filesz ph > len - p_offset ph)" "\<not> p_vaddr ph < base"
      "\<not> (?off > sz \<or> p_memsz ph > sz - ?off)" "p_filesz ph \<le> p_memsz ph"
      using vm fo so by (auto simp: seg_ok_def linorder_not_less)
    have ent: "entry \<ge> p_vaddr ph \<and> entry < p_vaddr ph + p_memsz ph \<longleftrightarrow> entry_in entry ph"
      using assms True by (auto simp: entry_in_def seg_ok_def word_less_nat_alt unat_plus_small)
    define c1 where "c1 = (if p_filesz ph > 0 then mem_copy_u8 code ?off img (p_offset ph) (p_filesz ph) else code)"
    define c2 where "c2 = (if p_memsz ph > p_filesz ph
      then mem_zero_u8 c1 (?off + p_filesz ph) (p_memsz ph - p_filesz ph) else c1)"
    have c1: "c1 x = (if x - ?off < p_filesz ph then img (p_offset ph + (x - ?off)) else code x)" for x
      by (cases "p_filesz ph = 0") (simp_all add: c1_def mem_copy_at word_gt_0)
    have zr: "x - (?off + p_filesz ph) < p_memsz ph - p_filesz ph \<longleftrightarrow> p_filesz ph \<le> x - ?off \<and> x - ?off < p_memsz ph" for x
      using zero_range [OF g(6)] unfolding diff_diff_eq [symmetric] .
    have "c2 x = (if p_filesz ph \<le> x - ?off \<and> x - ?off < p_memsz ph then 0 else c1 x)" for x
    proof (cases "p_memsz ph > p_filesz ph")
      case True
      then show ?thesis unfolding c2_def by (simp only: if_True mem_zero_at zr)
    next
      case False
      then have "\<not> (p_filesz ph \<le> x - ?off \<and> x - ?off < p_memsz ph)" by (meson le_less_trans)
      with False show ?thesis unfolding c2_def by (simp only: if_False)
    qed
    then have "c2 = (\<lambda>x. if covers base ph x then seg_byte img base ph x else code x)"
      using g(6) assms by (intro ext) (auto simp: c1 covers_def seg_byte_def Let_def linorder_not_less)
    moreover have "load_segment img len base sz entry ph code =
        (Some (True, entry \<ge> p_vaddr ph \<and> entry < p_vaddr ph + p_memsz ph), c2)"
      using assms g(1-5) unfolding load_segment_def loadable_def Let_def c1_def [symmetric] c2_def [symmetric] by simp
    ultimately show ?thesis using True ent by simp
  qed
qed

lemma find_snoc: "find P (xs @ [x]) = (case find P xs of Some y \<Rightarrow> Some y | None \<Rightarrow> if P x then Some x else None)"
  by (induction xs) auto

lemma load_segments_spec:
  "fst (load_segments img len base sz entry phs flags code) =
     (if \<forall>ph \<in> set phs. loadable ph \<longrightarrow> seg_ok len base sz ph
      then Some (fst flags \<or> (\<exists>ph \<in> set phs. loadable ph), snd flags \<or> (\<exists>ph \<in> set phs. entry_in entry ph))
      else None) \<and>
   ((\<forall>ph \<in> set phs. loadable ph \<longrightarrow> seg_ok len base sz ph) \<longrightarrow>
     (\<forall>x. snd (load_segments img len base sz entry phs flags code) x =
       (case find (\<lambda>ph. covers base ph x) (rev phs) of None \<Rightarrow> code x | Some ph \<Rightarrow> seg_byte img base ph x)))"
proof (induction phs arbitrary: flags code)
  case Nil
  then show ?case by simp
next
  case (Cons ph phs)
  show ?case
  proof (cases "loadable ph")
    case False
    then have "\<not> entry_in entry ph" "\<And>x. \<not> covers base ph x" by (auto simp: entry_in_def covers_def)
    with False Cons.IH [of "(fst flags, snd flags)" code] show ?thesis
      by (auto simp: load_segment_skip find_snoc split: option.splits)
  next
    case True
    show ?thesis
    proof (cases "seg_ok len base sz ph")
      case False
      with True show ?thesis by (simp add: load_segment_guards)
    next
      case ok: True
      with True Cons.IH [of "(True, snd flags \<or> entry_in entry ph)"
          "\<lambda>x. if covers base ph x then seg_byte img base ph x else code x"]
      show ?thesis by (simp add: load_segment_guards find_snoc) (auto split: option.splits)
    qed
  qed
qed

lemma covers_inside:
  assumes "seg_ok len base sz ph" "covers base ph x"
  shows "x < sz"
proof -
  let ?off = "p_vaddr ph - base"
  have off: "unat ?off = unat (p_vaddr ph) - unat base" using assms(1) by (auto simp: seg_ok_def word_le_nat_alt unat_sub)
  have k: "unat (x - ?off) < unat (p_memsz ph)" using assms(2) by (simp add: covers_def word_less_nat_alt)
  have "unat ((x - ?off) + ?off) = unat (x - ?off) + unat ?off"
    using k off assms(1) unat_u32_less [of sz] by (intro unat_plus_small) (auto simp: seg_ok_def)
  then have "unat x = unat (x - ?off) + unat ?off" by simp
  then show ?thesis using k off assms(1) by (auto simp: seg_ok_def word_less_nat_alt)
qed

lemma load_segments_outside:
  assumes "sz \<le> x"
  shows "snd (load_segments img len base sz entry phs flags code) x = code x"
proof (induction phs arbitrary: flags code)
  case (Cons ph phs)
  have "\<not> covers base ph x" if "seg_ok len base sz ph" using covers_inside [OF that, of x] assms leD by blast
  then show ?case using Cons.IH
    by (cases "loadable ph"; cases "seg_ok len base sz ph") (simp_all add: load_segment_skip load_segment_guards)
qed simp

lemma load_elf32_exact:
  "fst (process_load_elf32_single_page img len code base sz) =
     (if elf_accepts img len base sz then Some (e_entry (ehdr_of img)) else None) \<and>
   (\<forall>x \<ge> sz. snd (process_load_elf32_single_page img len code base sz) x = code x) \<and>
   (elf_accepts img len base sz \<longrightarrow>
     (\<forall>x < sz. snd (process_load_elf32_single_page img len code base sz) x = elf_byte img base (phdrs_of img) x))"
proof (cases "52 \<le> len \<and> elf_header_ok img len")
  case False
  then show ?thesis by (auto simp: process_load_elf32_single_page_def elf_accepts_def Let_def linorder_not_less)
next
  case True
  define entry where "entry = e_entry (ehdr_of img)"
  define c0 where "c0 = mem_zero_u8 code 0 sz"
  obtain r c1 where l: "load_segments img len base sz entry (phdrs_of img) (False, False) c0 = (r, c1)" by fastforce
  have run: "process_load_elf32_single_page img len code base sz = (case r of None \<Rightarrow> (None, c1)
      | Some (any, inl) \<Rightarrow> if \<not> any then (None, c1) else if entry < base \<or> entry \<ge> base + sz then (None, c1)
          else if \<not> inl then (None, c1) else (Some entry, c1))"
  proof -
    have "\<not> len < 52" "elf_header_ok img len" using True leD by auto
    with l show ?thesis unfolding entry_def c0_def
      by (simp only: process_load_elf32_single_page_def Let_def if_False not_not if_True prod.case)
        (auto split: option.splits)
  qed
  have c0: "c0 x = (if x < sz then 0 else code x)" for x by (simp add: c0_def mem_zero_at)
  note spec = load_segments_spec [of img len base sz entry "phdrs_of img" "(False, False)" c0, unfolded l]
  have out: "c1 x = code x" if "x \<ge> sz" for x
    using load_segments_outside [OF that, of img len base entry "phdrs_of img" "(False, False)" c0] that l c0 [of x]
    by (simp add: leD)
  have snd: "snd (process_load_elf32_single_page img len code base sz) = c1" using run by (auto split: option.splits)
  have load: "\<exists>ph \<in> set (phdrs_of img). loadable ph" if "\<exists>ph \<in> set (phdrs_of img). entry_in entry ph"
    using that by (auto simp: entry_in_def)
  have fst: "fst (process_load_elf32_single_page img len code base sz) = (if elf_accepts img len base sz then Some entry else None)"
    using run spec load True unfolding elf_accepts_def Let_def entry_def [symmetric]
    by (auto simp: linorder_not_less linorder_not_le split: option.splits if_splits)
  have "c1 x = elf_byte img base (phdrs_of img) x" if "elf_accepts img len base sz" "x < sz" for x
    using that spec c0 [of x] by (auto simp: elf_accepts_def elf_byte_def Let_def split: option.splits)
  then show ?thesis using out unfolding fst snd entry_def by blast
qed

text \<open>
  C10.  The ELF loader is exact.  It accepts an image iff the header is well formed, every loadable segment
  lies inside the image and inside the code page, and the entry point lies in a loadable segment; then it
  returns the entry point and the page holds what the program headers ask for, zero elsewhere.  In
  every case, also when it fails half way, no byte outside the page is written.
\<close>

theorem process_load_elf32_exact:
  "fst (process_load_elf32_single_page img len code base sz) =
     (if elf_accepts img len base sz then Some (e_entry (ehdr_of img)) else None) \<and>
   (\<forall>x \<ge> sz. snd (process_load_elf32_single_page img len code base sz) x = code x) \<and>
   (elf_accepts img len base sz \<longrightarrow>
     (\<forall>x < sz. snd (process_load_elf32_single_page img len code base sz) x = elf_byte img base (phdrs_of img) x))"
  by (rule load_elf32_exact)

text \<open>Bytes past the end of the image.\<close>

definition truncated :: "u32 \<Rightarrow> (u32 \<Rightarrow> u8) \<Rightarrow> (u32 \<Rightarrow> u8)" where
  "truncated len img = (\<lambda>i. if i < len then img i else 0)"

lemma truncated_load:
  assumes "unat a + 3 < unat len"
  shows "load32 (truncated len img) a = load32 img a" "load16 (truncated len img) a = load16 img a"
proof -
  have "unat (a + 1) = unat a + 1" "unat (a + 2) = unat a + 2" "unat (a + 3) = unat a + 3"
    using assms unat_u32_less [of len] by (simp_all add: unat_plus_small)
  then have "a < len" "a + 1 < len" "a + 2 < len" "a + 3 < len" using assms by (auto simp: word_less_nat_alt)
  then show "load32 (truncated len img) a = load32 img a" "load16 (truncated len img) a = load16 img a"
    by (auto simp: load32_def load16_def truncated_def)
qed

lemma truncated_header:
  assumes "52 \<le> len"
  shows "ehdr_of (truncated len img) = ehdr_of img" "elf_header_ok (truncated len img) len = elf_header_ok img len"
proof -
  have len: "52 \<le> unat len" using assms by (simp add: word_le_nat_alt)
  then show h: "ehdr_of (truncated len img) = ehdr_of img" by (simp add: ehdr_of_def truncated_load)
  have "truncated len img k = img k" if "unat k < 52" for k using that len by (simp add: truncated_def word_less_nat_alt)
  then show "elf_header_ok (truncated len img) len = elf_header_ok img len" by (simp add: elf_header_ok_def h)
qed

lemma phdr_table_end:
  assumes "elf_header_ok img len" "32 * unat (e_phnum (ehdr_of img)) \<le> unat len" "0 < e_phnum (ehdr_of img)"
  shows "unat (e_phoff (ehdr_of img)) + 32 * unat (e_phnum (ehdr_of img)) \<le> unat len"
proof -
  let ?n = "e_phnum (ehdr_of img)"
  let ?b = "ucast ?n * 32 :: u32"
  have "unat ?n < 65536" using unsigned_less [of ?n] by (rule less_le_trans) simp
  then have b: "unat ?b = 32 * unat ?n" by (simp add: unat_word_ariths unsigned_ucast_eq take_bit_eq_mod)
  have "e_phentsize (ehdr_of img) = 32" "\<not> e_phoff (ehdr_of img) > len - ucast ?n * ucast (e_phentsize (ehdr_of img))"
    using assms(1,3) by (auto simp: elf_header_ok_def Let_def split: if_splits)
  then have "e_phoff (ehdr_of img) \<le> len - ?b" by (simp add: linorder_not_less)
  moreover have "?b \<le> len" using b assms(2) by (simp add: word_le_nat_alt)
  ultimately show ?thesis using diff_le_iff [of ?b len "e_phoff (ehdr_of img)"] b by simp
qed

lemma truncated_phdrs:
  assumes "52 \<le> len" "elf_header_ok img len" "32 * unat (e_phnum (ehdr_of img)) \<le> unat len"
  shows "phdrs_of (truncated len img) = phdrs_of img"
proof -
  let ?eh = "ehdr_of img"
  have sz: "e_phentsize ?eh = 32" using assms(2) by (auto simp: elf_header_ok_def Let_def split: if_splits)
  have "phdr_of (truncated len img) (e_phoff ?eh + of_nat i * 32) = phdr_of img (e_phoff ?eh + of_nat i * 32)"
    if i: "i < unat (e_phnum ?eh)" for i
  proof -
    let ?a = "e_phoff ?eh + of_nat i * 32 :: u32"
    have "0 < e_phnum ?eh" using i by (auto simp: word_gt_0)
    from phdr_table_end [OF assms(2,3) this] i
    have le: "unat (e_phoff ?eh) + 32 * i + 32 \<le> unat len" by linarith
    then have "unat (of_nat i * 32 :: u32) = 32 * i"
      using unat_u32_less [of len] by (simp add: unat_word_ariths unat_of_nat)
    then have a: "unat ?a = unat (e_phoff ?eh) + 32 * i" using le unat_u32_less [of len] by (simp add: unat_plus_small)
    have "unat (?a + k) + 3 < unat len" if "unat k \<le> 20" for k
      using that a le unat_u32_less [of len] by (simp add: unat_plus_small)
    from this [of 0] this [of 4] this [of 8] this [of 16] this [of 20] show ?thesis
      by (simp add: phdr_of_def truncated_load)
  qed
  then show ?thesis using truncated_header(1) [OF assms(1), of img] sz by (simp add: phdrs_of_def Let_def)
qed

lemma truncated_seg_byte:
  assumes "seg_ok len base sz ph"
  shows "seg_byte (truncated len img) base ph x = seg_byte img base ph x"
proof -
  let ?k = "x - (p_vaddr ph - base)"
  have "p_offset ph + ?k < len" if "?k < p_filesz ph"
  proof -
    have "unat (p_offset ph) + unat ?k < unat len" using that assms by (simp add: seg_ok_def word_less_nat_alt)
    then show ?thesis using unat_u32_less [of len] by (simp add: word_less_nat_alt unat_plus_small)
  qed
  then show ?thesis by (simp add: seg_byte_def truncated_def Let_def)
qed

lemma truncated_segments:
  "load_segments (truncated len img) len base sz entry phs flags code = load_segments img len base sz entry phs flags code"
proof (induction phs arbitrary: flags code)
  case (Cons ph phs)
  have "load_segment (truncated len img) len base sz entry ph code = load_segment img len base sz entry ph code"
    by (cases "loadable ph"; cases "seg_ok len base sz ph")
      (simp_all add: load_segment_skip load_segment_guards truncated_seg_byte [of len base sz] cong: if_cong)
  then show ?case using Cons by (simp split: prod.split option.split)
qed simp

text \<open>
  The loader reads nothing but the image: if the program header table is not longer than the image, the
  result does not depend on any byte behind the end of the image.
\<close>

theorem process_load_elf32_reads_image:
  assumes "32 * unat (e_phnum (ehdr_of img)) \<le> unat len"
  shows "process_load_elf32_single_page (truncated len img) len code base sz =
    process_load_elf32_single_page img len code base sz"
proof (cases "52 \<le> len \<and> elf_header_ok img len")
  case False
  then show ?thesis
    using truncated_header(2) [of len img] by (auto simp: process_load_elf32_single_page_def linorder_not_less)
next
  case True
  then show ?thesis
    using truncated_header [of len img] truncated_phdrs [OF _ _ assms]
    by (simp add: process_load_elf32_single_page_def truncated_segments)
qed

text \<open>
  A small executable: one program header, four bytes of code at the end, a segment of eight bytes.  In the
  second image the header table announces two entries and the image ends right behind the file header.
\<close>

definition elf_demo_bytes :: "u8 \<Rightarrow> u8 \<Rightarrow> u8 list" where
  "elf_demo_bytes phnum offset =
     [0x7F, 0x45, 0x4C, 0x46, 1, 1, 1, 0, 0, 0, 0, 0, 0, 0, 0, 0, 2, 0, 3, 0, 1, 0, 0, 0,
      0, 0, 0, 0x40, 52, 0, 0, 0, 0, 0, 0, 0, 0, 0, 0, 0, 52, 0, 32, 0, phnum, 0, 0, 0, 0, 0, 0, 0,
      1, 0, 0, 0, offset, 0, 0, 0, 0, 0, 0, 0x40, 0, 0, 0, 0, 4, 0, 0, 0, 8, 0, 0, 0, 5, 0, 0, 0, 0, 0x10, 0, 0,
      0xCD, 0x81, 0xEB, 0xFE]"

definition elf_demo :: "u8 \<Rightarrow> u8 \<Rightarrow> (u32 \<Rightarrow> u8)" where
  "elf_demo phnum offset = (\<lambda>i. if i < 88 then elf_demo_bytes phnum offset ! unat i else 0)"

lemma elf_demo_hdr:
  "e_phnum (ehdr_of (elf_demo 1 84)) = 1" "e_entry (ehdr_of (elf_demo 1 84)) = 0x40000000"
  "elf_header_ok (elf_demo 1 84) 88"
  "phdrs_of (elf_demo 1 84) = [\<lparr>p_type = 1, p_offset = 84, p_vaddr = 0x40000000, p_filesz = 4, p_memsz = 8\<rparr>]"
  by code_simp+

theorem process_load_elf32_reads_image_witness:
  "process_load_elf32_single_page (truncated 88 (elf_demo 1 84)) 88 (\<lambda>_. 0) 0x40000000 16 =
     process_load_elf32_single_page (elf_demo 1 84) 88 (\<lambda>_. 0) 0x40000000 16"
  by (rule process_load_elf32_reads_image) (simp add: elf_demo_hdr)

theorem process_load_elf32_exact_witness:
  "elf_accepts (elf_demo 1 84) 88 0x40000000 16 \<and>
   fst (process_load_elf32_single_page (elf_demo 1 84) 88 (\<lambda>_. 0xFF) 0x40000000 16) = Some 0x40000000 \<and>
   snd (process_load_elf32_single_page (elf_demo 1 84) 88 (\<lambda>_. 0xFF) 0x40000000 16) 0 = 0xCD \<and>
   snd (process_load_elf32_single_page (elf_demo 1 84) 88 (\<lambda>_. 0xFF) 0x40000000 16) 4 = 0 \<and>
   snd (process_load_elf32_single_page (elf_demo 1 84) 88 (\<lambda>_. 0xFF) 0x40000000 16) 16 = 0xFF"
proof -
  have a: "elf_accepts (elf_demo 1 84) 88 0x40000000 16"
    by (simp add: elf_accepts_def elf_demo_hdr seg_ok_def entry_in_def loadable_def)
  have b: "elf_byte (elf_demo 1 84) 0x40000000 (phdrs_of (elf_demo 1 84)) 0 = 0xCD"
    "elf_byte (elf_demo 1 84) 0x40000000 (phdrs_of (elf_demo 1 84)) 4 = 0" "e_entry (ehdr_of (elf_demo 1 84)) = 0x40000000"
    by (simp_all add: elf_demo_hdr elf_byte_def covers_def seg_byte_def loadable_def)
      (simp add: elf_demo_def elf_demo_bytes_def)
  have lt: "(0 :: u32) < 16" "(4 :: u32) < 16" "(16 :: u32) \<ge> 16" by simp_all
  note e = process_load_elf32_exact [of "elf_demo 1 84" 88 "\<lambda>_. 0xFF" "0x40000000" 16]
  from e a b lt show ?thesis by auto
qed

text \<open>
  A header table behind the end of the image: its first entry asks for one segment without contents over the
  whole page, the others are empty.
\<close>

definition with_table :: "u32 \<Rightarrow> u32 \<Rightarrow> u32 \<Rightarrow> (u32 \<Rightarrow> u8) \<Rightarrow> (u32 \<Rightarrow> u8)" where
  "with_table len base sz img = store32 (store32 (store32 (truncated len img) len 1) (len + 8) base) (len + 20) sz"

lemma load32_store32_apart:
  assumes "unat a + 3 < 4294967296" "unat b + 3 < 4294967296" "unat a + 4 \<le> unat b \<or> unat b + 4 \<le> unat a"
  shows "load32 (store32 m a v) b = load32 m b"
proof -
  have "unat (a + k) = unat a + unat k" "unat (b + k) = unat b + unat k" if "unat k \<le> 3" for k
    using that assms(1,2) by (simp_all add: unat_plus_small)
  note p = this [of 1, simplified] this [of 2, simplified] this [of 3, simplified]
  have "b + k \<notin> {a, a + 1, a + 2, a + 3}" if "k \<in> {0, 1, 2, 3}" for k
  proof -
    have k: "unat k \<le> 3" using that by auto
    then have "unat (b + k) = unat b + unat k" using assms(2) by (simp add: unat_plus_small)
    with k have "unat (b + k) \<notin> {unat a, unat (a + 1), unat (a + 2), unat (a + 3)}" using assms(3) p by auto
    then show ?thesis by auto
  qed
  then have "store32 m a v (b + k) = m (b + k)" if "k \<in> {0, 1, 2, 3}" for k using that by (intro store32_byte_other) blast
  from this [of 0] this [of 1] this [of 2] this [of 3] show ?thesis by (simp add: load32_def)
qed

lemma truncated_behind:
  assumes "unat len \<le> unat a" "unat a + 3 < 4294967296"
  shows "load32 (truncated len img) a = 0"
proof -
  have "unat (a + k) = unat a + unat k" if "unat k \<le> 3" for k using that assms(2) by (simp add: unat_plus_small)
  from this [of 1] this [of 2] this [of 3] show ?thesis using assms(1) by (simp add: load32_def truncated_def word_less_nat_alt)
qed

lemma with_table_prefix:
  assumes "unat len + 23 < 4294967296" "i < len"
  shows "with_table len base sz img i = img i"
proof -
  have "unat (len + k) = unat len + unat k" if "unat k \<le> 23" for k using that assms(1) by (simp add: unat_plus_small)
  then have ne: "i \<noteq> len + k" if "unat k \<le> 23" for k using that assms(2) by (auto simp: word_less_nat_alt)
  have "i \<notin> {len + k, len + k + 1, len + k + 2, len + k + 3}" if "unat k \<le> 20" for k
    using ne [of k] ne [of "k + 1"] ne [of "k + 2"] ne [of "k + 3"] that by (simp add: unat_plus_small add.assoc)
  from this [of 0] this [of 8] this [of 20] show ?thesis
    using assms(2) by (simp add: with_table_def store32_byte_other truncated_def)
qed

lemma with_table_load:
  assumes "unat len + unat k + 3 < 4294967296" "unat k mod 4 = 0" "unat len + 23 < 4294967296"
  shows "load32 (with_table len base sz img) (len + k) = (if k = 0 then 1 else if k = 8 then base else if k = 20 then sz else 0)"
proof -
  have u: "unat (len + k) = unat len + unat k" "unat (len + 8) = unat len + 8" "unat (len + 20) = unat len + 20"
    using assms(1,3) by (simp_all add: unat_plus_small)
  have k: "unat k = unat j \<or> unat k + 4 \<le> unat j \<or> unat j + 4 \<le> unat k" if "unat j mod 4 = 0" for j :: u32
    using that assms(2) by presburger
  have t: "load32 (truncated len img) (len + k) = 0" using u(1) assms(1) by (intro truncated_behind) simp_all
  consider "k = 0" | "k = 8" | "k = 20" | "k \<notin> {0, 8, 20}" by blast
  then show ?thesis
  proof cases
    case 4
    then have "unat k \<noteq> 0" "unat k \<noteq> 8" "unat k \<noteq> 20" by (auto simp: word_unat_eq_iff)
    then have d: "4 \<le> unat k" "unat k + 4 \<le> 8 \<or> 12 \<le> unat k" "unat k + 4 \<le> 20 \<or> 24 \<le> unat k"
      using k [of 0] k [of 8] k [of 20] by simp_all
    have "load32 (store32 m len v) (len + k) = load32 m (len + k)" for m v
      using d(1) u(1) assms(1) by (intro load32_store32_apart) simp_all
    moreover have "load32 (store32 m (len + 8) v) (len + k) = load32 m (len + k)" for m v
      by (intro load32_store32_apart; use d(2) u(1,2) assms(1,3) in linarith)
    moreover have "load32 (store32 m (len + 20) v) (len + k) = load32 m (len + k)" for m v
      by (intro load32_store32_apart; use d(3) u(1,3) assms(1,3) in linarith)
    ultimately show ?thesis using 4 t by (simp add: with_table_def)
  qed (use u assms(3) in \<open>simp_all add: with_table_def load32_store32_apart load32_store32_same\<close>)
qed

lemma past_header_ok:
  assumes "elf_header_ok img n" "e_phoff (ehdr_of img) \<le> len" "unat len < 32 * unat (e_phnum (ehdr_of img))"
  shows "elf_header_ok img len"
proof -
  let ?b = "ucast (e_phnum (ehdr_of img)) * 32 :: u32"
  have n: "unat (e_phnum (ehdr_of img)) < 65536" using unsigned_less [of "e_phnum (ehdr_of img)"] by (rule less_le_trans) simp
  then have b: "unat ?b = 32 * unat (e_phnum (ehdr_of img))" by (simp add: unat_word_ariths unsigned_ucast_eq take_bit_eq_mod)
  have "unat (len - ?b) = unat len + 4294967296 - unat ?b" using assms(3) b n by (simp add: unat_sub_if')
  then have "unat len \<le> unat (len - ?b)" using b n by simp
  then have "e_phoff (ehdr_of img) \<le> len - ?b" using assms(2) by (simp add: word_le_nat_alt)
  then show ?thesis using assms(1,2) by (auto simp: elf_header_ok_def Let_def linorder_not_less split: if_splits)
qed

lemma same_prefix_header:
  assumes "52 \<le> len" "\<forall>i < len. img' i = img i"
  shows "ehdr_of img' = ehdr_of img" "elf_header_ok img' len = elf_header_ok img len"
proof -
  have "truncated len img' = truncated len img" using assms(2) by (auto simp: truncated_def)
  then show "ehdr_of img' = ehdr_of img" "elf_header_ok img' len = elf_header_ok img len"
    using truncated_header [OF assms(1), of img'] truncated_header [OF assms(1), of img] by simp_all
qed

lemma past_table:
  assumes "e_phoff (ehdr_of img) = len" "e_phentsize (ehdr_of img) = 32" "unat len < 32 * unat (e_phnum (ehdr_of img))" "52 \<le> len"
  defines "n \<equiv> unat (e_phnum (ehdr_of img))"
  shows "phdrs_of (with_table len base sz img) =
      map (\<lambda>i. if i = 0 then \<lparr>p_type = 1, p_offset = 0, p_vaddr = base, p_filesz = 0, p_memsz = sz\<rparr>
        else \<lparr>p_type = 0, p_offset = 0, p_vaddr = 0, p_filesz = 0, p_memsz = 0\<rparr>) [0..<n]"
    and "phdrs_of (truncated len img) = replicate n \<lparr>p_type = 0, p_offset = 0, p_vaddr = 0, p_filesz = 0, p_memsz = 0\<rparr>"
proof -
  have n: "n < 65536" using unsigned_less [of "e_phnum (ehdr_of img)"] unfolding n_def by (rule less_le_trans) simp
  then have len: "unat len < 2097152" using assms(3) by (simp add: n_def)
  have k: "unat (of_nat i * 32 + off :: u32) = 32 * i + unat off" if "i < n" "unat off \<le> 20" for i off
    using that n by (simp add: unat_word_ariths unat_of_nat)
  have eh: "ehdr_of (with_table len base sz img) = ehdr_of img" "ehdr_of (truncated len img) = ehdr_of img"
    using same_prefix_header(1) [OF assms(4)] with_table_prefix [of len _ base sz img] len by (simp_all add: truncated_def)
  have w: "load32 (with_table len base sz img) (len + (of_nat i * 32 + off)) =
      (if i = 0 \<and> off = 0 then 1 else if i = 0 \<and> off = 8 then base else if i = 0 \<and> off = 20 then sz else 0)"
    and t: "load32 (truncated len img) (len + (of_nat i * 32 + off)) = 0" if i: "i < n" and o: "off \<in> {0, 4, 8, 16, 20}" for i off
  proof -
    let ?k = "of_nat i * 32 + off :: u32"
    have u: "unat ?k = 32 * i + unat off" "unat off \<le> 20" "unat off mod 4 = 0" using k [OF i, of off] o by auto
    have b: "unat len + unat ?k + 3 < 4294967296" using u i n len by simp
    have "?k = c \<longleftrightarrow> i = 0 \<and> off = c" if c: "unat c \<le> 20" for c
    proof (cases "i = 0")
      case False
      then have "unat ?k \<noteq> unat c" using u(1) c by linarith
      with False show ?thesis by auto
    qed simp
    then have c: "?k = 0 \<longleftrightarrow> i = 0 \<and> off = 0" "?k = 8 \<longleftrightarrow> i = 0 \<and> off = 8" "?k = 20 \<longleftrightarrow> i = 0 \<and> off = 20" by simp_all
    have m: "unat ?k mod 4 = 0" "unat len + 23 < 4294967296" using u(1,3) len by presburger+
    show "load32 (with_table len base sz img) (len + ?k) =
      (if i = 0 \<and> off = 0 then 1 else if i = 0 \<and> off = 8 then base else if i = 0 \<and> off = 20 then sz else 0)"
      using with_table_load [OF b m, of base sz img] unfolding c .
    show "load32 (truncated len img) (len + ?k) = 0"
      using b by (intro truncated_behind) (simp_all add: unat_plus_small)
  qed
  show "phdrs_of (with_table len base sz img) = map (\<lambda>i. if i = 0 then \<lparr>p_type = 1, p_offset = 0, p_vaddr = base, p_filesz = 0, p_memsz = sz\<rparr>
      else \<lparr>p_type = 0, p_offset = 0, p_vaddr = 0, p_filesz = 0, p_memsz = 0\<rparr>) [0..<n]"
    unfolding phdrs_of_def Let_def eh assms(1,2) n_def [symmetric]
    using w [of _ 0] w [of _ 4] w [of _ 8] w [of _ 16] w [of _ 20] by (simp add: phdr_of_def add.assoc)
  have "phdrs_of (truncated len img) = map (\<lambda>i. \<lparr>p_type = 0, p_offset = 0, p_vaddr = 0, p_filesz = 0, p_memsz = 0\<rparr>) [0..<n]"
    unfolding phdrs_of_def Let_def eh assms(1,2) n_def [symmetric]
    using t [of _ 0] t [of _ 4] t [of _ 8] t [of _ 16] t [of _ 20] by (simp add: phdr_of_def add.assoc)
  then show "phdrs_of (truncated len img) = replicate n \<lparr>p_type = 0, p_offset = 0, p_vaddr = 0, p_filesz = 0, p_memsz = 0\<rparr>"
    by (simp add: map_replicate_const)
qed



section \<open>Built-in programs\<close>

lemma emit_append: "emit (as @ bs) co = emit bs (emit as co)"
  by (simp add: emit_def)

lemma emit_repeat: "fold (\<lambda>_. emit bs) xs co = emit (concat (replicate (length xs) bs)) co"
proof (induction xs arbitrary: co)
  case Nil
  then show ?case by (simp add: emit_def)
qed (simp add: emit_append)

text \<open>The machine code: \<open>mov eax, 17; int 0x80\<close> once per ping, then \<open>int 0x81\<close> and a jump to itself.\<close>

lemma process_emit_ping_code:
  "process_emit_ping_program code n =
     (let k = (if n = 0 then 1 else min 32 (unat n));
          bs = concat (replicate k [0xB8, 17, 0, 0, 0, 0xCD, 0x80]) @ [0xCD, 0x81, 0xEB, 0xFE]
      in (overwrite 0 bs code, of_nat (7 * k + 4)))"
proof -
  define n1 where "n1 = (if n = 0 then 1 else n)"
  define k where "k = unat (if n1 > 32 then 32 else n1)"
  have k: "k = (if n = 0 then 1 else min 32 (unat n))" by (auto simp: k_def n1_def word_less_nat_alt)
  have "length (concat (replicate j [0xB8, 17, 0, 0, 0, 0xCD, 0x80 :: u8])) = 7 * j" for j by (induction j) simp_all
  then show ?thesis
    unfolding process_emit_ping_program_def Let_def n1_def [symmetric] k_def [symmetric] k [symmetric]
      emit_repeat emit_append [symmetric]
    unfolding emit_eq by simp
qed

end
