(* ===== verification/Process.thy ===== *)
theory Process
  imports Scheduler User_Image
begin

text \<open>
  Creation and removal of processes, the rest of \<open>process.c\<close>: the address space of a user process with its
  code page at \<open>0x40000000\<close> and its stack page at \<open>0x40001000\<close>, the loading of its program,
  \<open>process_spawn_common\<close> with its roll-back on failure, and \<open>process_reap\<close>.  Addresses fixed by
  the linker are collected in a record.
\<close>

section \<open>Operations\<close>

abbreviation PROCESS_USER_CODE_VADDR :: u32 where "PROCESS_USER_CODE_VADDR \<equiv> 0x40000000"
abbreviation PROCESS_USER_STACK_TOP :: u32 where "PROCESS_USER_STACK_TOP \<equiv> 0x40002000"
abbreviation PROCESS_USER_IMAGE_MAX :: u32 where "PROCESS_USER_IMAGE_MAX \<equiv> 0x4000"
abbreviation PROCESS_USER_CODE_SIZE :: u32 where "PROCESS_USER_CODE_SIZE \<equiv> 0x1000"
abbreviation PROCESS_USER_STACK_SIZE :: u32 where "PROCESS_USER_STACK_SIZE \<equiv> 0x1000"
abbreviation PROCESS_USER_PROG_DEFAULT :: u32 where "PROCESS_USER_PROG_DEFAULT \<equiv> 1"
abbreviation PROCESS_USER_PROG_PING_BURST :: u32 where "PROCESS_USER_PROG_PING_BURST \<equiv> 2"

record symbols =
  sym_scheduler_task_bootstrap :: u32
  sym_process_user_task_entry :: u32
  sym_app_counter :: u32
  sym_app_writer :: u32

definition vm_free :: "u32 \<Rightarrow> vm \<Rightarrow> vm" where
  "vm_free frame v = v\<lparr>vm_pmm := snd (pmm_free_frame frame (vm_pmm v))\<rparr>"

definition vm_alloc :: "vm \<Rightarrow> u32 \<times> vm" where
  "vm_alloc v = (let (frame, p) = pmm_alloc_frame (vm_pmm v) in (frame, v\<lparr>vm_pmm := p\<rparr>))"

definition fs_on_vm :: "(vm \<Rightarrow> vm) \<Rightarrow> kfs \<Rightarrow> kfs" where
  "fs_on_vm f s = s\<lparr>fs_km := (fs_km s)\<lparr>km_vm := f (km_vm (fs_km s))\<rparr>\<rparr>"

definition process_table_is_empty :: "mem \<Rightarrow> u32 \<Rightarrow> bool" where
  "process_table_is_empty m table = (first_idx (\<lambda>i. entry_get m table i AND PAGING_FLAG_PRESENT \<noteq> 0) [0..<1024] = None)"

definition process_release_user_table :: "u32 \<Rightarrow> u32 \<Rightarrow> vm \<Rightarrow> vm" where
  "process_release_user_table cr3 virt v =
     (let pd = pd_index virt; e = entry_get (vm_mem v) cr3 pd in
      if cr3 = 0 then v
      else if e AND PAGING_FLAG_PRESENT = 0 then v
      else if e AND PAGING_FLAG_USER = 0 then v
      else let table = table_of e in
        if process_table_is_empty (vm_mem v) table
        then let v1 = vm_free table v in v1\<lparr>vm_mem := entry_set (vm_mem v1) cr3 pd 0\<rparr>
        else v)"

definition process_unmap_user_pages :: "u32 \<Rightarrow> vm \<Rightarrow> vm" where
  "process_unmap_user_pages cr3 v =
     (let prev_cr3 = paging_current_directory_phys v in
      if cr3 = 0 \<or> cr3 = paging_kernel_directory_phys v then v
      else
        let v1 = paging_switch_directory cr3 v;
            v2 = snd (paging_unmap_page PROCESS_USER_CODE_VADDR v1);
            v3 = snd (paging_unmap_page (PROCESS_USER_STACK_TOP - 0x1000) v2);
            v4 = paging_switch_directory prev_cr3 v3
        in process_release_user_table cr3 PROCESS_USER_CODE_VADDR v4)"

text \<open>
  The entry point of every user task: the stack pointer goes to the task state segment, then the
  processor leaves to ring 3 at the returned instruction and stack pointers.
\<close>

definition process_user_task_entry :: "u32 \<Rightarrow> u32 \<Rightarrow> proctab \<Rightarrow> u32 \<times> u32 \<times> u32" where
  "process_user_task_entry esp tid procs =
     (let user_entry = (case process_find_by_tid tid procs of
            None \<Rightarrow> PROCESS_USER_CODE_VADDR
          | Some idx \<Rightarrow> if pe_user_entry (pt_table procs ! idx) \<noteq> 0 then pe_user_entry (pt_table procs ! idx)
              else PROCESS_USER_CODE_VADDR)
      in (esp, user_entry, PROCESS_USER_STACK_TOP - 16))"

text \<open>
  Byte access to a mapped page through the current directory; None is a page fault.  \<open>heap_write\<close> puts
  an array of bytes into a block of the kernel heap.
\<close>

definition page_read :: "u32 \<Rightarrow> vm \<Rightarrow> (u32 \<Rightarrow> u8) option" where
  "page_read base v = map_option (\<lambda>pa i. vm_mem v (pa + i)) (paging_translate base v)"

definition page_write :: "u32 \<Rightarrow> (u32 \<Rightarrow> u8) \<Rightarrow> vm \<Rightarrow> vm option" where
  "page_write base bytes v =
     map_option (\<lambda>pa. v\<lparr>vm_mem := fold (\<lambda>i m. m(pa + of_nat i := bytes (of_nat i))) [0..<4096] (vm_mem v)\<rparr>)
       (paging_translate base v)"

definition heap_write :: "u32 \<Rightarrow> (u32 \<Rightarrow> u8) \<Rightarrow> u32 \<Rightarrow> (u32 \<Rightarrow> char) \<Rightarrow> (u32 \<Rightarrow> char)" where
  "heap_write a bytes n b = fold (\<lambda>i b. b(a + of_nat i := char_of (unat (bytes (of_nat i))))) [0..<unat n] b"

definition fs_page_write :: "u32 \<Rightarrow> (u32 \<Rightarrow> u8) \<Rightarrow> kfs \<Rightarrow> kfs option" where
  "fs_page_write base bytes s =
     map_option (\<lambda>v. s\<lparr>fs_km := (fs_km s)\<lparr>km_vm := v\<rparr>\<rparr>) (page_write base bytes (km_vm (fs_km s)))"

text \<open>
  The image block of \<open>process_build_user_image\<close>: an image from the file system is \<open>Loaded\<close> with its
  entry point, \<open>Not_found\<close> (the built-in programs are used) or \<open>Failed\<close> when there is one that cannot be loaded.
\<close>

datatype image_load = Loaded u32 | Not_found | Failed

definition build_from_image :: "(u32 \<Rightarrow> u8) \<Rightarrow> u32 \<Rightarrow> kfs \<Rightarrow> (u32 option \<times> kfs) option" where
  "build_from_image img loaded_len s =
     (case page_read PROCESS_USER_CODE_VADDR (km_vm (fs_km s)) of None \<Rightarrow> None
      | Some code \<Rightarrow>
          let (entry, code1) =
            (if process_is_elf32_image img loaded_len
             then process_load_elf32_single_page img loaded_len code PROCESS_USER_CODE_VADDR PROCESS_USER_CODE_SIZE
             else if loaded_len > PROCESS_USER_CODE_SIZE then (None, code)
             else (Some PROCESS_USER_CODE_VADDR, mem_copy_u8 (mem_zero_u8 code 0 PROCESS_USER_CODE_SIZE) 0 img 0 loaded_len))
          in map_option (Pair entry) (fs_page_write PROCESS_USER_CODE_VADDR code1 s))"

definition build_load_image :: "string option \<Rightarrow> kfs \<Rightarrow> (image_load \<times> kfs) option" where
  "build_load_image program_name s =
     (case kmalloc PROCESS_USER_IMAGE_MAX (fs_km s) of None \<Rightarrow> None
      | Some (buf, km) \<Rightarrow>
          let s1 = s\<lparr>fs_km := km\<rparr> in
          if buf = 0 then Some (Not_found, s1)
          else case process_load_user_image_bytes_from_vfs program_name (\<lambda>i. of_char (fs_bytes s1 (buf + i)))
                 PROCESS_USER_IMAGE_MAX s1 of None \<Rightarrow> None
            | Some (status, img) \<Rightarrow>
                let s2 = s1\<lparr>fs_bytes := heap_write buf img PROCESS_USER_IMAGE_MAX (fs_bytes s1)\<rparr> in
                case (case status of
                        Image loaded_len \<Rightarrow>
                          (case build_from_image img loaded_len s2 of None \<Rightarrow> None
                           | Some (None, s3) \<Rightarrow> Some (Failed, s3)
                           | Some (Some entry, s3) \<Rightarrow> Some (Loaded entry, s3))
                      | Bad_image \<Rightarrow> Some (Failed, s2)
                      | No_image \<Rightarrow> Some (Not_found, s2)) of None \<Rightarrow> None
                | Some (r, s3) \<Rightarrow> Some (r, s3\<lparr>fs_km := kfree buf (fs_km s3)\<rparr>))"

definition build_builtin :: "u32 \<Rightarrow> kfs \<Rightarrow> kfs option" where
  "build_builtin user_prog_id s =
     (case page_read PROCESS_USER_CODE_VADDR (km_vm (fs_km s)) of None \<Rightarrow> None
      | Some code \<Rightarrow>
          let code0 = mem_zero_u8 code 0 PROCESS_USER_CODE_SIZE;
              code1 = (if user_prog_id = PROCESS_USER_PROG_DEFAULT then fst (process_emit_exit_only_program code0)
                else if user_prog_id = PROCESS_USER_PROG_PING_BURST then fst (process_emit_ping_program code0 8)
                else fst (process_emit_ping_program code0 2))
          in fs_page_write PROCESS_USER_CODE_VADDR code1 s)"

text \<open>The \<open>fail\<close> label.\<close>

definition build_fail :: "u32 \<Rightarrow> u32 \<Rightarrow> u32 \<Rightarrow> u32 \<Rightarrow> bool \<Rightarrow> bool \<Rightarrow> vm \<Rightarrow> vm" where
  "build_fail cr3 prev_cr3 code_frame stack_frame code_mapped stack_mapped v =
     (let v1 = (if stack_mapped then snd (paging_unmap_page (PROCESS_USER_STACK_TOP - 0x1000) v) else v);
          v2 = (if code_mapped then snd (paging_unmap_page PROCESS_USER_CODE_VADDR v1) else v1);
          v3 = (if stack_mapped \<or> code_mapped then process_release_user_table cr3 PROCESS_USER_CODE_VADDR v2 else v2);
          v4 = (if stack_frame \<noteq> 0 then vm_free stack_frame v3 else v3);
          v5 = (if code_frame \<noteq> 0 then vm_free code_frame v4 else v4)
      in paging_switch_directory prev_cr3 v5)"

definition USER_PAGE_FLAGS :: u32 where
  "USER_PAGE_FLAGS = PAGING_FLAG_PRESENT OR PAGING_FLAG_RW OR PAGING_FLAG_USER"

text \<open>The part before the image: both frames are allocated and mapped, in a result with the flags for the \<open>fail\<close> label.\<close>

definition build_map_pages :: "u32 \<Rightarrow> vm \<Rightarrow> (bool \<times> u32 \<times> u32 \<times> bool \<times> bool) \<times> vm" where
  "build_map_pages cr3 v0 =
     (let v1 = paging_switch_directory cr3 v0;
          v2 = snd (paging_unmap_page PROCESS_USER_CODE_VADDR v1);
          v3 = snd (paging_unmap_page (PROCESS_USER_STACK_TOP - 0x1000) v2);
          (code_frame, v4) = vm_alloc v3;
          (stack_frame, v5) = vm_alloc v4
      in if code_frame = 0 \<or> stack_frame = 0 then ((False, code_frame, stack_frame, False, False), v5)
         else case paging_map_page PROCESS_USER_CODE_VADDR code_frame USER_PAGE_FLAGS v5 of
             (False, v6) \<Rightarrow> ((False, code_frame, stack_frame, False, False), v6)
           | (True, v6) \<Rightarrow>
               (case paging_map_page (PROCESS_USER_STACK_TOP - 0x1000) stack_frame USER_PAGE_FLAGS v6 of
                  (False, v7) \<Rightarrow> ((False, code_frame, stack_frame, True, False), v7)
                | (True, v7) \<Rightarrow> ((True, code_frame, stack_frame, True, True), v7)))"

text \<open>\<open>Some (None, s)\<close> is \<open>return 0\<close>; on success the two frames and the entry point are returned.\<close>

definition process_build_user_image ::
  "u32 \<Rightarrow> u32 \<Rightarrow> string option \<Rightarrow> kfs \<Rightarrow> ((u32 \<times> u32 \<times> u32) option \<times> kfs) option" where
  "process_build_user_image cr3 user_prog_id program_name s =
     (let prev_cr3 = paging_current_directory_phys (km_vm (fs_km s));
          ((ok, code_frame, stack_frame, code_mapped, stack_mapped), v) = build_map_pages cr3 (km_vm (fs_km s));
          s1 = fs_on_vm (\<lambda>_. v) s;
          fail = (\<lambda>s. Some (None, fs_on_vm (build_fail cr3 prev_cr3 code_frame stack_frame code_mapped stack_mapped) s));
          succeed = (\<lambda>entry s. Some (Some (code_frame, stack_frame, entry), fs_on_vm (paging_switch_directory prev_cr3) s))
      in if \<not> ok then fail s1
         else case page_read (PROCESS_USER_STACK_TOP - PROCESS_USER_STACK_SIZE) v of None \<Rightarrow> None
           | Some stack \<Rightarrow>
             (case fs_page_write (PROCESS_USER_STACK_TOP - PROCESS_USER_STACK_SIZE)
                     (mem_zero_u8 stack 0 PROCESS_USER_STACK_SIZE) s1 of None \<Rightarrow> None
              | Some s2 \<Rightarrow>
                (case build_load_image program_name s2 of None \<Rightarrow> None
                 | Some (Failed, s3) \<Rightarrow> fail s3
                 | Some (Loaded entry, s3) \<Rightarrow> succeed entry s3
                 | Some (Not_found, s3) \<Rightarrow>
                     (case build_builtin user_prog_id s3 of None \<Rightarrow> None
                      | Some s4 \<Rightarrow> succeed PROCESS_USER_CODE_VADDR s4))))"

text \<open>The address space of a new process: directory, code frame, stack frame and entry point.\<close>

definition spawn_address_space ::
  "string option \<Rightarrow> u32 \<Rightarrow> u8 \<Rightarrow> ksys \<Rightarrow> ((u32 \<times> u32 \<times> u32 \<times> u32) option \<times> ksys) option" where
  "spawn_address_space name arg is_kernel s =
     (if is_kernel \<noteq> 0 then
        Some (Some (paging_kernel_directory_phys (km_vm (km_of s)), 0, 0, PROCESS_USER_CODE_VADDR), s)
      else
        let user_prog_id = (if arg \<noteq> 0 then arg else PROCESS_USER_PROG_DEFAULT) in
        case paging_clone_kernel_directory (km_vm (km_of s)) of
          (None, v) \<Rightarrow> Some (None, on_vm (\<lambda>_. v) s)
        | (Some cr3, v) \<Rightarrow>
            let s1 = on_vm (\<lambda>_. v) s in
            (case process_build_user_image cr3 user_prog_id name (ks_fs s1) of
               None \<Rightarrow> None
             | Some (None, fs) \<Rightarrow> Some (None, on_vm (vm_free cr3) (s1\<lparr>ks_fs := fs\<rparr>))
             | Some (Some (code_frame, stack_frame, user_entry), fs) \<Rightarrow>
                 Some (Some (cr3, code_frame, stack_frame, user_entry), s1\<lparr>ks_fs := fs\<rparr>)))"

definition spawn_undo :: "u32 \<Rightarrow> u32 \<Rightarrow> u32 \<Rightarrow> vm \<Rightarrow> vm" where
  "spawn_undo cr3 code_frame stack_frame v =
     vm_free cr3 (vm_free code_frame (vm_free stack_frame (process_unmap_user_pages cr3 v)))"

text \<open>The entry that a successful \<open>process_spawn_common\<close> writes.\<close>

definition spawned :: "string option \<Rightarrow> u8 \<Rightarrow> u32 \<Rightarrow> nat \<Rightarrow> u32 \<times> u32 \<times> u32 \<times> u32 \<Rightarrow> process_entry \<Rightarrow> process_entry" where
  "spawned name k pid tid space e =
     (let (cr3, code_frame, stack_frame, user_entry) = space in
      e\<lparr>pe_pid := pid, pe_tid := of_nat tid, pe_cr3 := cr3, pe_user_code_frame := code_frame,
        pe_user_stack_frame := stack_frame, pe_user_entry := user_entry,
        pe_syscall_mask_low := (if k \<noteq> 0 then PROCESS_SYSCALL_MASK_KERNEL else PROCESS_SYSCALL_MASK_USER),
        pe_is_kernel := k, pe_active := 1,
        pe_name := proc_str_copy (pe_name e) 16 (Some (case name of None \<Rightarrow> ''proc'' | Some n \<Rightarrow> n))\<rparr>)"

definition spawn_task :: "symbols \<Rightarrow> string option \<Rightarrow> u32 \<Rightarrow> u32 \<Rightarrow> u8 \<Rightarrow> nat \<Rightarrow> ksys \<Rightarrow> (nat option \<times> ksys) option" where
  "spawn_task sy name entry arg is_kernel slot s =
     (if is_kernel \<noteq> 0 then scheduler_create_task (sym_scheduler_task_bootstrap sy) entry arg name s
      else scheduler_create_task (sym_scheduler_task_bootstrap sy) (sym_process_user_task_entry sy)
             (of_nat (slot + 1)) name s)"

definition process_spawn_common ::
  "symbols \<Rightarrow> string option \<Rightarrow> u32 \<Rightarrow> u32 \<Rightarrow> u8 \<Rightarrow> ksys \<Rightarrow> (int \<times> ksys) option" where
  "process_spawn_common sy name entry arg is_kernel s =
     (if \<not> pt_ready (ks_procs s) then Some (-1, s)
      else if is_kernel \<noteq> 0 \<and> entry = 0 then Some (-1, s)
      else case process_find_free_slot (ks_procs s) of
        None \<Rightarrow> Some (-1, s)
      | Some slot \<Rightarrow>
          (case spawn_address_space name arg is_kernel s of
             None \<Rightarrow> None
           | Some (None, s1) \<Rightarrow> Some (-1, s1)
           | Some (Some (cr3, code_frame, stack_frame, user_entry), s1) \<Rightarrow>
               (case spawn_task sy name entry arg is_kernel slot s1 of
                  None \<Rightarrow> None
                | Some (None, s2) \<Rightarrow>
                    Some (-1, if is_kernel = 0 then on_vm (spawn_undo cr3 code_frame stack_frame) s2 else s2)
                | Some (Some tid, s2) \<Rightarrow>
                    let (pid, procs) = process_alloc_pid (ks_procs s2);
                        e = spawned name is_kernel pid tid (cr3, code_frame, stack_frame, user_entry) (pt_table procs ! slot)
                    in Some (sint pid, s2\<lparr>ks_procs := procs\<lparr>pt_table := (pt_table procs)[slot := e]\<rparr>\<rparr>))))"

definition process_spawn_user :: "symbols \<Rightarrow> string option \<Rightarrow> u32 \<Rightarrow> u32 \<Rightarrow> ksys \<Rightarrow> (int \<times> ksys) option" where
  "process_spawn_user sy name entry arg = process_spawn_common sy name entry arg 0"

definition process_spawn_kernel :: "symbols \<Rightarrow> string option \<Rightarrow> u32 \<Rightarrow> u32 \<Rightarrow> ksys \<Rightarrow> (int \<times> ksys) option" where
  "process_spawn_kernel sy name entry arg = process_spawn_common sy name entry arg 1"

text \<open>What \<open>process_reap\<close> gives back of a finished process, and one round of its loop.\<close>

definition reap_frames :: "process_entry \<Rightarrow> vm \<Rightarrow> vm" where
  "reap_frames e v =
     (let v1 = process_unmap_user_pages (pe_cr3 e) v;
          v2 = (if pe_cr3 e \<noteq> 0 \<and> pe_cr3 e \<noteq> paging_kernel_directory_phys v1 then vm_free (pe_cr3 e) v1 else v1);
          v3 = (if pe_user_code_frame e \<noteq> 0 then vm_free (pe_user_code_frame e) v2 else v2)
      in if pe_user_stack_frame e \<noteq> 0 then vm_free (pe_user_stack_frame e) v3 else v3)"

definition reap_slot :: "nat \<Rightarrow> ksys \<Rightarrow> ksys" where
  "reap_slot i s =
     (let e = pt_table (ks_procs s) ! i in
      if pe_active e \<noteq> 0 \<and> pe_tid e \<noteq> 0 \<and> scheduler_task_is_zombie (pe_tid e) (ks_sched s) then
        let s1 = on_vm (reap_frames e) s;
            s2 = s1\<lparr>ks_procs := (ks_procs s1)\<lparr>pt_table := (pt_table (ks_procs s1))[i := process_clear e]\<rparr>\<rparr>
        in snd (scheduler_reap_task (pe_tid e) s2)
      else s)"

definition process_reap :: "ksys \<Rightarrow> ksys" where
  "process_reap s = (if \<not> pt_ready (ks_procs s) then s else fold reap_slot [0..<PROCESS_MAX] s)"

section \<open>Processes and their tasks\<close>

abbreviation procs_of :: "ksys \<Rightarrow> process_entry list" where
  "procs_of s \<equiv> pt_table (ks_procs s)"

text \<open>Every active entry has an identifier and a task of its own; \<open>reaped\<close>: no such task is finished.\<close>

definition linked :: "ksys \<Rightarrow> bool" where
  "linked s \<longleftrightarrow> proctab_inv (ks_procs s) \<and> proc_tids.keys_distinct (procs_of s) \<and> sched_inv (ks_sched s) \<and>
     (\<forall>i < PROCESS_MAX. pe_active (procs_of s ! i) \<noteq> 0 \<longrightarrow>
        unat (pe_tid (procs_of s ! i)) < MAX_TASKS \<and> st (ks_sched s) (unat (pe_tid (procs_of s ! i))) \<noteq> TASK_UNUSED)"

definition reaped :: "ksys \<Rightarrow> bool" where
  "reaped s \<longleftrightarrow> (\<forall>i < PROCESS_MAX. pe_active (procs_of s ! i) \<noteq> 0 \<longrightarrow>
     st (ks_sched s) (unat (pe_tid (procs_of s ! i))) \<noteq> TASK_ZOMBIE)"

lemma linked_lengths: "linked s \<Longrightarrow> length (procs_of s) = PROCESS_MAX \<and> length (tasks_of s) = MAX_TASKS"
  by (simp add: linked_def proctab_inv_def sched_inv_def)

lemma on_vm_fields [simp]:
  "ks_procs (on_vm f s) = ks_procs s" "ks_sched (on_vm f s) = ks_sched s" "ks_words (on_vm f s) = ks_words s"
  by (simp_all add: on_vm_def)

lemma set_task_fields [simp]: "ks_procs (set_task i t s) = ks_procs s" "tasks_of (set_task i t s) = (tasks_of s)[i := t]"
  by (simp_all add: set_task_def)

lemma set_km_fields [simp]: "ks_procs (set_km k s) = ks_procs s" "ks_sched (set_km k s) = ks_sched s"
  by (simp_all add: set_km_def)

subsection \<open>Reaping\<close>

definition finished :: "ksys \<Rightarrow> nat \<Rightarrow> bool" where
  "finished s i \<longleftrightarrow> pe_active (procs_of s ! i) \<noteq> 0 \<and> pe_tid (procs_of s ! i) \<noteq> 0 \<and>
     scheduler_task_is_zombie (pe_tid (procs_of s ! i)) (ks_sched s)"

lemma reap_slot_effect:
  defines "t s i \<equiv> unat (pe_tid (procs_of s ! i))"
  shows "\<not> finished s i \<Longrightarrow> reap_slot i s = s"
    and "finished s i \<Longrightarrow> ks_procs (reap_slot i s) = (ks_procs s)\<lparr>pt_table := (procs_of s)[i := process_clear (procs_of s ! i)]\<rparr>"
    and "finished s i \<Longrightarrow> ks_sched (reap_slot i s) = (ks_sched s)\<lparr>sc_tasks := (tasks_of s)[t s i := task_clear (tasks_of s ! t s i)]\<rparr>"
    and "finished s i \<Longrightarrow> 0 < t s i \<and> t s i < MAX_TASKS \<and> st (ks_sched s) (t s i) = TASK_ZOMBIE"
proof -
  show "\<not> finished s i \<Longrightarrow> reap_slot i s = s" by (auto simp: reap_slot_def finished_def Let_def)
  assume f: "finished s i"
  then show "0 < t s i \<and> t s i < MAX_TASKS \<and> st (ks_sched s) (t s i) = TASK_ZOMBIE"
    by (auto simp: finished_def scheduler_task_is_zombie_def t_def unat_gt_0 word_less_nat_alt linorder_not_le split: if_splits)
  from f have z: "pe_tid (procs_of s ! i) \<noteq> 0" "\<not> pe_tid (procs_of s ! i) \<ge> 16"
    "st (ks_sched s) (unat (pe_tid (procs_of s ! i))) = TASK_ZOMBIE"
    by (auto simp: finished_def scheduler_task_is_zombie_def split: if_splits)
  with f show "ks_procs (reap_slot i s) = (ks_procs s)\<lparr>pt_table := (procs_of s)[i := process_clear (procs_of s ! i)]\<rparr>"
    "ks_sched (reap_slot i s) = (ks_sched s)\<lparr>sc_tasks := (tasks_of s)[t s i := task_clear (tasks_of s ! t s i)]\<rparr>"
    unfolding reap_slot_def finished_def Let_def
    by (simp_all add: scheduler_reap_task_def Let_def t_def) (simp_all add: set_task_def)
qed

definition reap_prefix :: "ksys \<Rightarrow> nat \<Rightarrow> ksys \<Rightarrow> bool" where
  "reap_prefix s n s' \<longleftrightarrow>
     (\<exists>tab ts. ks_procs s' = (ks_procs s)\<lparr>pt_table := tab\<rparr> \<and> ks_sched s' = (ks_sched s)\<lparr>sc_tasks := ts\<rparr> \<and>
        length tab = PROCESS_MAX \<and> length ts = MAX_TASKS \<and>
        (\<forall>i < PROCESS_MAX. tab ! i = (if i < n \<and> finished s i then process_clear (procs_of s ! i) else procs_of s ! i)) \<and>
        (\<forall>j < MAX_TASKS. ts ! j = (if \<exists>i < n. finished s i \<and> unat (pe_tid (procs_of s ! i)) = j
            then task_clear (tasks_of s ! j) else tasks_of s ! j)))"

lemma reap_prefix_step:
  assumes l: "linked s" and n: "n < PROCESS_MAX" and r: "reap_prefix s n s'"
  shows "reap_prefix s (Suc n) (reap_slot n s')"
proof -
  obtain tab ts where p: "ks_procs s' = (ks_procs s)\<lparr>pt_table := tab\<rparr>" "ks_sched s' = (ks_sched s)\<lparr>sc_tasks := ts\<rparr>"
    and len: "length tab = PROCESS_MAX" "length ts = MAX_TASKS"
    and tab: "\<And>i. i < PROCESS_MAX \<Longrightarrow> tab ! i = (if i < n \<and> finished s i then process_clear (procs_of s ! i) else procs_of s ! i)"
    and ts: "\<And>j. j < MAX_TASKS \<Longrightarrow> ts ! j = (if \<exists>i < n. finished s i \<and> unat (pe_tid (procs_of s ! i)) = j
            then task_clear (tasks_of s ! j) else tasks_of s ! j)"
    using r unfolding reap_prefix_def by blast
  let ?e = "procs_of s ! n" and ?t = "unat (pe_tid (procs_of s ! n))"
  have en: "tab ! n = ?e" using tab [OF n] by simp
  have own: "\<not> (\<exists>i < n. finished s i \<and> unat (pe_tid (procs_of s ! i)) = ?t)" if "pe_active ?e \<noteq> 0"
  proof
    assume "\<exists>i < n. finished s i \<and> unat (pe_tid (procs_of s ! i)) = ?t"
    then obtain i where i: "i < n" "finished s i" "pe_tid (procs_of s ! i) = pe_tid ?e" by (auto simp: unat_inj_u32)
    then have "i = n" using l n that linked_lengths [OF l]
      by (auto simp: linked_def proc_tids.keys_distinct_def finished_def)
    with i(1) show False by simp
  qed
  have tn: "ts ! ?t = tasks_of s ! ?t" if "pe_active ?e \<noteq> 0"
  proof -
    have "?t < MAX_TASKS" using l n that by (simp add: linked_def)
    then show ?thesis using ts [of ?t] own [OF that] by simp
  qed
  have fin: "finished s' n \<longleftrightarrow> finished s n"
    using tn by (auto simp: finished_def p en scheduler_task_is_zombie_def)
  show ?thesis
  proof (cases "finished s n")
    case False
    then have "reap_slot n s' = s'" using fin reap_slot_effect(1) by simp
    moreover have "(\<exists>i < Suc n. finished s i \<and> Q i) \<longleftrightarrow> (\<exists>i < n. finished s i \<and> Q i)" for Q
      using False by (auto simp: less_Suc_eq)
    moreover have "i < Suc n \<and> finished s i \<longleftrightarrow> i < n \<and> finished s i" for i using False by (auto simp: less_Suc_eq)
    ultimately show ?thesis using r by (simp add: reap_prefix_def)
  next
    case True
    then have act: "pe_active ?e \<noteq> 0" by (simp add: finished_def)
    note f = reap_slot_effect(2,3) [of s' n, unfolded fin, OF True] reap_slot_effect(4) [OF True]
    let ?tab = "tab[n := process_clear ?e]" and ?ts = "ts[?t := task_clear (tasks_of s ! ?t)]"
    have "ks_procs (reap_slot n s') = (ks_procs s)\<lparr>pt_table := ?tab\<rparr>" using f(1) by (simp add: p en)
    moreover have "ks_sched (reap_slot n s') = (ks_sched s)\<lparr>sc_tasks := ?ts\<rparr>" using f(2) tn [OF act] by (simp add: p en)
    moreover have "?tab ! i = (if i < Suc n \<and> finished s i then process_clear (procs_of s ! i) else procs_of s ! i)"
      if "i < PROCESS_MAX" for i using tab [OF that] len(1) True that n by (auto simp: nth_list_update less_Suc_eq)
    moreover have "?ts ! j = (if \<exists>i < Suc n. finished s i \<and> unat (pe_tid (procs_of s ! i)) = j
            then task_clear (tasks_of s ! j) else tasks_of s ! j)" if "j < MAX_TASKS" for j
    proof (cases "j = ?t")
      case True
      then show ?thesis using len(2) that \<open>finished s n\<close> by (simp add: nth_list_update) blast
    next
      case False
      then have "(\<exists>i < Suc n. finished s i \<and> unat (pe_tid (procs_of s ! i)) = j) \<longleftrightarrow>
          (\<exists>i < n. finished s i \<and> unat (pe_tid (procs_of s ! i)) = j)" by (auto simp: less_Suc_eq)
      then show ?thesis using ts [OF that] False by (simp only: nth_list_update_neq not_sym)
    qed
    ultimately show ?thesis using len unfolding reap_prefix_def by (intro exI [of _ ?tab] exI [of _ ?ts]) simp
  qed
qed

lemma reap_all:
  assumes "linked s" "pt_ready (ks_procs s)"
  shows "reap_prefix s PROCESS_MAX (process_reap s)"
proof -
  have "reap_prefix s n (fold reap_slot [0..<n] s)" if "n \<le> PROCESS_MAX" for n
    using that
  proof (induction n)
    case 0
    show ?case using linked_lengths [OF assms(1)]
      unfolding reap_prefix_def by (intro exI [of _ "procs_of s"] exI [of _ "tasks_of s"]) simp
  next
    case (Suc n)
    then show ?case using reap_prefix_step [OF assms(1)] by simp
  qed
  then show ?thesis using assms(2) by (simp add: process_reap_def del: upt_Suc)
qed

definition after_reap :: "ksys \<Rightarrow> nat \<Rightarrow> task" where
  "after_reap s j = (if \<exists>i < PROCESS_MAX. finished s i \<and> unat (pe_tid (procs_of s ! i)) = j
     then task_clear (tasks_of s ! j) else tasks_of s ! j)"

lemma reap_result:
  assumes "linked s" "pt_ready (ks_procs s)"
  obtains tab ts where "ks_procs (process_reap s) = (ks_procs s)\<lparr>pt_table := tab\<rparr>"
    "ks_sched (process_reap s) = (ks_sched s)\<lparr>sc_tasks := ts\<rparr>" "length tab = PROCESS_MAX" "length ts = MAX_TASKS"
    "\<And>i. i < PROCESS_MAX \<Longrightarrow> tab ! i = (if finished s i then process_clear (procs_of s ! i) else procs_of s ! i)"
    "\<And>j. j < MAX_TASKS \<Longrightarrow> ts ! j = after_reap s j"
proof -
  obtain tab ts where r: "ks_procs (process_reap s) = (ks_procs s)\<lparr>pt_table := tab\<rparr>"
    "ks_sched (process_reap s) = (ks_sched s)\<lparr>sc_tasks := ts\<rparr>" "length tab = PROCESS_MAX" "length ts = MAX_TASKS"
    and t: "\<forall>i < PROCESS_MAX. tab ! i = (if i < PROCESS_MAX \<and> finished s i then process_clear (procs_of s ! i) else procs_of s ! i)"
    "\<forall>j < MAX_TASKS. ts ! j = after_reap s j"
    using reap_all [OF assms] unfolding reap_prefix_def after_reap_def by blast
  show thesis by (rule that [OF r]) (use t in simp_all)
qed

lemma after_reap_state:
  assumes "linked s" "j < MAX_TASKS"
  shows "tk_state (after_reap s j) = TASK_RUNNING \<longleftrightarrow> st (ks_sched s) j = TASK_RUNNING"
    "length (tk_name (after_reap s j)) = 16" "j = 0 \<Longrightarrow> after_reap s j = tasks_of s ! j"
proof -
  have n: "length (tk_name (tasks_of s ! j)) = 16" using assms by (simp add: linked_def sched_inv_def)
  have "(tk_state (after_reap s j) = TASK_RUNNING \<longleftrightarrow> st (ks_sched s) j = TASK_RUNNING) \<and>
    length (tk_name (after_reap s j)) = 16 \<and> (j = 0 \<longrightarrow> after_reap s j = tasks_of s ! j)"
  proof (cases "\<exists>i < PROCESS_MAX. finished s i \<and> unat (pe_tid (procs_of s ! i)) = j")
    case True
    then have "0 < j" "st (ks_sched s) j = TASK_ZOMBIE" using reap_slot_effect(4) by blast+
    with True n show ?thesis by (simp add: after_reap_def task_clear_def)
  next
    case False
    then have "after_reap s j = tasks_of s ! j" unfolding after_reap_def by (rule if_not_P)
    with n show ?thesis by auto
  qed
  then show "tk_state (after_reap s j) = TASK_RUNNING \<longleftrightarrow> st (ks_sched s) j = TASK_RUNNING"
    "length (tk_name (after_reap s j)) = 16" "j = 0 \<Longrightarrow> after_reap s j = tasks_of s ! j" by simp_all
qed

lemma after_reap_kept:
  assumes l: "linked s" and i: "i < PROCESS_MAX" "pe_active (procs_of s ! i) \<noteq> 0" "\<not> finished s i"
  shows "after_reap s (unat (pe_tid (procs_of s ! i))) = tasks_of s ! unat (pe_tid (procs_of s ! i))"
    "st (ks_sched s) (unat (pe_tid (procs_of s ! i))) \<noteq> TASK_ZOMBIE"
proof -
  have sz: "length (procs_of s) = PROCESS_MAX" using linked_lengths [OF l] by simp
  have d: "proc_tids.keys_distinct (procs_of s)" using l by (simp add: linked_def)
  have "\<not> (\<exists>k < PROCESS_MAX. finished s k \<and> unat (pe_tid (procs_of s ! k)) = unat (pe_tid (procs_of s ! i)))"
    using d i sz by (auto simp: proc_tids.keys_distinct_def finished_def unat_inj_u32)
  then show "after_reap s (unat (pe_tid (procs_of s ! i))) = tasks_of s ! unat (pe_tid (procs_of s ! i))"
    unfolding after_reap_def by (rule if_not_P)
  show "st (ks_sched s) (unat (pe_tid (procs_of s ! i))) \<noteq> TASK_ZOMBIE"
  proof
    assume z: "st (ks_sched s) (unat (pe_tid (procs_of s ! i))) = TASK_ZOMBIE"
    have "unat (pe_tid (procs_of s ! i)) < 16" using l i by (simp add: linked_def)
    then have "\<not> pe_tid (procs_of s ! i) \<ge> 16" by (simp add: word_le_nat_alt)
    moreover have "pe_tid (procs_of s ! i) \<noteq> 0" using z l by (auto simp: linked_def sched_inv_def)
    ultimately show False using z i by (simp add: finished_def scheduler_task_is_zombie_def)
  qed
qed

text \<open>
  C6.  \<open>process_reap\<close> removes exactly the processes whose task has finished: their entries are
  cleared and their tasks become unused, every other entry and task stays as it is, the tables stay
  consistent, and no finished process is left.
\<close>

theorem process_reap_correct:
  assumes "linked s" and "pt_ready (ks_procs s)"
  shows "linked (process_reap s) \<and> reaped (process_reap s) \<and>
    (\<forall>i < 32. procs_of (process_reap s) ! i = (if finished s i then process_clear (procs_of s ! i) else procs_of s ! i)) \<and>
    (\<forall>j < 16. tasks_of (process_reap s) ! j = (if \<exists>i < 32. finished s i \<and> unat (pe_tid (procs_of s ! i)) = j
        then task_clear (tasks_of s ! j) else tasks_of s ! j))"
proof (rule reap_result [OF assms])
  fix tab ts
  let ?s = "process_reap s"
  assume p: "ks_procs ?s = (ks_procs s)\<lparr>pt_table := tab\<rparr>" "ks_sched ?s = (ks_sched s)\<lparr>sc_tasks := ts\<rparr>"
    and len: "length tab = PROCESS_MAX" "length ts = MAX_TASKS"
    and tab: "\<And>i. i < PROCESS_MAX \<Longrightarrow> tab ! i = (if finished s i then process_clear (procs_of s ! i) else procs_of s ! i)"
    and ts: "\<And>j. j < MAX_TASKS \<Longrightarrow> ts ! j = after_reap s j"
  have l: "proctab_inv (ks_procs s)" "proc_tids.keys_distinct (procs_of s)" "sched_inv (ks_sched s)"
    using assms(1) by (simp_all add: linked_def)
  note sz = linked_lengths [OF assms(1)]
  have keep: "tab ! i = procs_of s ! i \<and> \<not> finished s i \<and> pe_active (procs_of s ! i) \<noteq> 0"
    if "i < PROCESS_MAX" "pe_active (tab ! i) \<noteq> 0" for i
    using tab [OF that(1)] that(2) by (auto simp: process_clear_def split: if_splits)
  have own: "unat (pe_tid (tab ! i)) < MAX_TASKS \<and> ts ! unat (pe_tid (tab ! i)) = tasks_of s ! unat (pe_tid (tab ! i)) \<and>
      st (ks_sched s) (unat (pe_tid (tab ! i))) \<noteq> TASK_UNUSED \<and> st (ks_sched s) (unat (pe_tid (tab ! i))) \<noteq> TASK_ZOMBIE"
    if i: "i < PROCESS_MAX" "pe_active (tab ! i) \<noteq> 0" for i
  proof -
    have "unat (pe_tid (procs_of s ! i)) < MAX_TASKS \<and> st (ks_sched s) (unat (pe_tid (procs_of s ! i))) \<noteq> TASK_UNUSED"
      using assms(1) keep [OF i] i(1) unfolding linked_def by blast
    then show ?thesis using after_reap_kept [OF assms(1) i(1)] keep [OF i] ts by simp
  qed
  have "proc_ok (tab ! i)" if "i < PROCESS_MAX" for i
    using tab [OF that] l(1) that sz by (auto simp: proctab_inv_def proc_ok_def process_clear_def)
  moreover have "proc_slots.keys_distinct tab" "proc_tids.keys_distinct tab"
    using l(1,2) keep len sz by (auto simp: proctab_inv_def proc_slots.keys_distinct_def proc_tids.keys_distinct_def)
  moreover have "sched_inv (ks_sched ?s)"
    using l(3) len sz ts after_reap_state [OF assms(1)] unfolding sched_inv_def p all_set_conv_all_nth by simp
  ultimately have "linked ?s" "reaped ?s"
    using len own by (simp_all add: linked_def reaped_def proctab_inv_def p all_set_conv_all_nth)
  then show ?thesis using tab ts unfolding after_reap_def by (simp add: p)
qed

subsection \<open>Creation\<close>

lemma spawn_address_space_frame:
  assumes "spawn_address_space name arg k s = Some (r, s1)"
  shows "ks_procs s1 = ks_procs s" "ks_sched s1 = ks_sched s"
  using assms by (auto simp: spawn_address_space_def Let_def split: if_splits option.splits prod.splits)

lemma spawn_run:
  assumes "pt_ready (ks_procs s)" "\<not> (k \<noteq> 0 \<and> entry = 0)" "process_find_free_slot (ks_procs s) = Some slot"
    "spawn_address_space name arg k s = Some (Some space, s1)"
  shows "process_spawn_common sy name entry arg k s = (case spawn_task sy name entry arg k slot s1 of None \<Rightarrow> None
    | Some (None, s2) \<Rightarrow> Some (-1, if k = 0 then on_vm (spawn_undo (fst space) (fst (snd space)) (fst (snd (snd space)))) s2 else s2)
    | Some (Some tid, s2) \<Rightarrow> (case process_alloc_pid (ks_procs s2) of (pid, procs) \<Rightarrow>
        Some (sint pid, s2\<lparr>ks_procs := procs\<lparr>pt_table := (pt_table procs)[slot :=
          spawned name k pid tid space (pt_table procs ! slot)]\<rparr>\<rparr>)))"
proof -
  obtain cr3 cf sf ue where space: "space = (cr3, cf, sf, ue)" by (cases space) auto
  from assms show ?thesis unfolding process_spawn_common_def space
    by (simp only: not_True_eq_False if_False option.case prod.case Let_def fst_conv snd_conv)
qed

lemma spawn_task_cases:
  assumes inv: "sched_inv (ks_sched s)" and c: "spawn_task sy name entry arg k slot s = Some (x, s2)"
  obtains (none) "x = None" "ks_sched s2 = ks_sched s" "ks_procs s2 = ks_procs s"
  | (some) i t where "x = Some i" "0 < i" "i < MAX_TASKS" "i \<noteq> current_of s"
      "st (ks_sched s) i = TASK_UNUSED \<or> st (ks_sched s) i = TASK_ZOMBIE" "ks_procs s2 = ks_procs s"
      "ks_sched s2 = (ks_sched s)\<lparr>sc_tasks := (tasks_of s)[i := t]\<rparr>" "tk_state t = TASK_RUNNABLE"
      "tk_entry t = (if k \<noteq> 0 then entry else sym_process_user_task_entry sy)" "sched_inv (ks_sched s2)"
proof -
  let ?e = "if k \<noteq> 0 then entry else sym_process_user_task_entry sy"
  let ?a = "if k \<noteq> 0 then arg else of_nat (slot + 1)"
  have c': "scheduler_create_task (sym_scheduler_task_bootstrap sy) ?e ?a name s = Some (x, s2)"
    using c by (simp add: spawn_task_def split: if_splits)
  show thesis
  proof (rule create_cases [OF inv c'])
    assume "x = None" "ks_sched s2 = ks_sched s" "ks_procs s2 = ks_procs s"
    then show thesis by (rule none)
  next
    fix i stack km
    assume a: "x = Some i" "0 < i" "i < MAX_TASKS" "i \<noteq> current_of s"
      "st (ks_sched s) i = TASK_UNUSED \<or> st (ks_sched s) i = TASK_ZOMBIE"
      and s2: "s2 = created i stack km (sym_scheduler_task_bootstrap sy) ?e ?a name s"
    have "ks_sched s2 = (ks_sched s)\<lparr>sc_tasks := (tasks_of s)[i := tasks_of s2 ! i]\<rparr>"
      "tk_state (tasks_of s2 ! i) = TASK_RUNNABLE" "tk_entry (tasks_of s2 ! i) = ?e" "ks_procs s2 = ks_procs s"
      using a(3) inv by (simp_all add: s2 created_def set_task_def sched_inv_def)
    with some [OF a] create_inv [OF inv c'] show thesis by simp
  qed
qed

lemma spawn_cases:
  assumes inv: "sched_inv (ks_sched s)" and len: "length (procs_of s) = PROCESS_MAX"
    and sp: "process_spawn_common sy name entry arg k s = Some (r, s')"
  obtains (failed) "r = -1" "ks_procs s' = ks_procs s" "ks_sched s' = ks_sched s"
  | (success) slot pid tid space t where "process_find_free_slot (ks_procs s) = Some slot" "r = sint pid"
      "pid \<notin> pids (ks_procs s)" "2 \<le> unat pid" "0 < tid" "tid < MAX_TASKS" "tid \<noteq> current_of s"
      "st (ks_sched s) tid = TASK_UNUSED \<or> st (ks_sched s) tid = TASK_ZOMBIE"
      "ks_sched s' = (ks_sched s)\<lparr>sc_tasks := (tasks_of s)[tid := t]\<rparr>" "tk_state t = TASK_RUNNABLE"
      "tk_entry t = (if k \<noteq> 0 then entry else sym_process_user_task_entry sy)"
      "pt_ready (ks_procs s') = pt_ready (ks_procs s)" "sched_inv (ks_sched s')"
      "procs_of s' = (procs_of s)[slot := spawned name k pid tid space (procs_of s ! slot)]"
proof (cases "pt_ready (ks_procs s) \<and> \<not> (k \<noteq> 0 \<and> entry = 0) \<and> process_find_free_slot (ks_procs s) \<noteq> None")
  case False
  with sp failed show thesis by (auto simp: process_spawn_common_def split: if_splits)
next
  case True
  then obtain slot where slot: "process_find_free_slot (ks_procs s) = Some slot" by auto
  have g: "pt_ready (ks_procs s)" "\<not> (k \<noteq> 0 \<and> entry = 0)" using True by simp_all
  obtain q s1 where as: "spawn_address_space name arg k s = Some (q, s1)"
    using sp g slot by (auto simp: process_spawn_common_def split: option.splits if_splits)
  note fr = spawn_address_space_frame [OF as]
  show thesis
  proof (cases q)
    case None
    with sp g slot as fr failed show thesis by (auto simp: process_spawn_common_def split: if_splits)
  next
    case (Some space)
    note run = spawn_run [OF g slot as [unfolded Some], of sy]
    obtain x s2 where c: "spawn_task sy name entry arg k slot s1 = Some (x, s2)"
      using run sp by (cases "spawn_task sy name entry arg k slot s1") auto
    have inv1: "sched_inv (ks_sched s1)" using inv fr by simp
    show thesis
    proof (rule spawn_task_cases [OF inv1 c])
      assume "x = None" "ks_sched s2 = ks_sched s1" "ks_procs s2 = ks_procs s1"
      with run c sp fr failed show thesis by (auto split: if_splits)
    next
      fix i t
      assume a: "x = Some i" "0 < i" "i < MAX_TASKS" "i \<noteq> current_of s1"
        "st (ks_sched s1) i = TASK_UNUSED \<or> st (ks_sched s1) i = TASK_ZOMBIE" "ks_procs s2 = ks_procs s1"
        "ks_sched s2 = (ks_sched s1)\<lparr>sc_tasks := (tasks_of s1)[i := t]\<rparr>" "tk_state t = TASK_RUNNABLE"
        "tk_entry t = (if k \<noteq> 0 then entry else sym_process_user_task_entry sy)" "sched_inv (ks_sched s2)"
      obtain pid procs where al: "process_alloc_pid (ks_procs s) = (pid, procs)" by fastforce
      have "r = sint pid" "s' = s2\<lparr>ks_procs := procs\<lparr>pt_table := (pt_table procs)[slot :=
              spawned name k pid i space (pt_table procs ! slot)]\<rparr>\<rparr>"
        using run sp c a(1,6) al fr by auto
      with slot alloc_pid_fresh [OF len al] a fr show thesis
        by (intro success [of slot pid i t space]) simp_all
    qed
  qed
qed

lemma free_slot_facts:
  assumes "length (procs_of s) = PROCESS_MAX" "process_find_free_slot (ks_procs s) = Some slot"
  shows "slot < PROCESS_MAX" "pe_active (procs_of s ! slot) = 0" "i < slot \<Longrightarrow> pe_active (procs_of s ! i) \<noteq> 0"
  using first_idx_SomeD [of "\<lambda>e. pe_active e = 0" "procs_of s" slot] assms by (auto simp: process_find_free_slot_def)

lemma spawned_fields [simp]:
  "pe_pid (spawned name k pid tid space e) = pid" "pe_tid (spawned name k pid tid space e) = of_nat tid"
  "pe_active (spawned name k pid tid space e) = 1" "pe_is_kernel (spawned name k pid tid space e) = k"
  "pe_syscall_mask_low (spawned name k pid tid space e) =
     (if k \<noteq> 0 then PROCESS_SYSCALL_MASK_KERNEL else PROCESS_SYSCALL_MASK_USER)"
  "length (pe_name e) = 16 \<Longrightarrow> length (pe_name (spawned name k pid tid space e)) = 16"
  using proc_copy.copy_size [of 16 "pe_name e"]
  by (simp_all add: spawned_def Let_def split: prod.split)

lemma unat_tid: "tid < MAX_TASKS \<Longrightarrow> unat (of_nat tid :: u32) = tid"
  by (simp add: unat_of_nat)

lemma spawn_linked:
  assumes l: "linked s" and r: "reaped s" and slot: "process_find_free_slot (ks_procs s) = Some slot"
    and pid: "pid \<notin> pids (ks_procs s)" "2 \<le> unat pid" and tid: "0 < tid" "tid < MAX_TASKS" "tid \<noteq> current_of s"
      "st (ks_sched s) tid = TASK_UNUSED \<or> st (ks_sched s) tid = TASK_ZOMBIE"
    and sch: "ks_sched s' = (ks_sched s)\<lparr>sc_tasks := (tasks_of s)[tid := t]\<rparr>" "tk_state t = TASK_RUNNABLE"
      "sched_inv (ks_sched s')"
    and tab: "procs_of s' = (procs_of s)[slot := spawned name k pid tid space (procs_of s ! slot)]"
  shows "linked s' \<and> reaped s'"
proof -
  let ?e = "spawned name k pid tid space (procs_of s ! slot)"
  have len: "length (procs_of s) = PROCESS_MAX" "length (tasks_of s) = MAX_TASKS" using linked_lengths [OF l] by simp_all
  note sl = free_slot_facts [OF len(1) slot]
  have other: "pe_tid (procs_of s ! i) \<noteq> of_nat tid \<and> unat (pe_tid (procs_of s ! i)) < MAX_TASKS \<and>
      st (ks_sched s') (unat (pe_tid (procs_of s ! i))) = st (ks_sched s) (unat (pe_tid (procs_of s ! i)))"
    if i: "i < PROCESS_MAX" "pe_active (procs_of s ! i) \<noteq> 0" for i
  proof -
    have s: "unat (pe_tid (procs_of s ! i)) < MAX_TASKS \<and> st (ks_sched s) (unat (pe_tid (procs_of s ! i))) \<noteq> TASK_UNUSED \<and>
        st (ks_sched s) (unat (pe_tid (procs_of s ! i))) \<noteq> TASK_ZOMBIE"
      using l r i unfolding linked_def reaped_def by blast
    then have "unat (pe_tid (procs_of s ! i)) \<noteq> tid" using tid(4) by auto
    then show ?thesis using s unat_tid [OF tid(2)] by (auto simp: sch(1))
  qed
  have "pid \<noteq> 1" "1 \<le> pid" using pid(2) by (auto simp: word_le_nat_alt)
  moreover have "(of_nat tid :: u32) \<noteq> 0" using unat_tid [OF tid(2)] tid(1) by auto
  moreover have "length (pe_name (procs_of s ! slot)) = 16" using l len sl(1) by (simp add: linked_def proctab_inv_def proc_ok_def)
  ultimately have "proc_ok ?e" by (simp add: proc_ok_def)
  then have ok: "\<forall>e \<in> set (procs_of s'). proc_ok e"
    using l set_update_subset_insert [of "procs_of s" slot ?e] unfolding tab linked_def proctab_inv_def by blast
  have pids: "proc_slots.keys_distinct (procs_of s')"
    unfolding tab using l pid(1) len by (intro proc_slots.keys_distinct_update) (auto simp: linked_def proctab_inv_def pids_def)
  have tids: "proc_tids.keys_distinct (procs_of s')"
    unfolding tab using l other len by (intro proc_tids.keys_distinct_update) (auto simp: linked_def)
  have new: "st (ks_sched s') tid = TASK_RUNNABLE" using sch(1,2) tid(2) len by simp
  have each: "unat (pe_tid (procs_of s' ! i)) < MAX_TASKS \<and> st (ks_sched s') (unat (pe_tid (procs_of s' ! i))) \<noteq> TASK_UNUSED \<and>
      st (ks_sched s') (unat (pe_tid (procs_of s' ! i))) \<noteq> TASK_ZOMBIE"
    if i: "i < PROCESS_MAX" "pe_active (procs_of s' ! i) \<noteq> 0" for i
  proof (cases "i = slot")
    case True
    then show ?thesis using new len sl(1) tid(2) unat_tid [OF tid(2)] by (simp add: tab)
  next
    case False
    then have e: "procs_of s' ! i = procs_of s ! i" by (simp add: tab)
    show ?thesis using other [of i] l r i unfolding e linked_def reaped_def by simp
  qed
  show ?thesis using ok pids tids sch(3) each len unfolding linked_def reaped_def proctab_inv_def by (simp add: tab)
qed

text \<open>
  C11.  \<open>process_spawn_common\<close> either fails with -1 and leaves both tables as they were, or adds one process: in a
  free slot, under an identifier no active process has, bound to a task that was unused and is now
  ready to run at the right entry point, with the system call mask of its kind.  If every finished process
  has been reaped before, all active processes have distinct identifiers and distinct live tasks afterwards.
\<close>

theorem process_spawn_correct:
  assumes "linked s" and "reaped s" and "process_spawn_common sy name entry arg k s = Some (r, s')"
  shows "linked s' \<and> reaped s' \<and>
    (r = -1 \<and> ks_procs s' = ks_procs s \<and> ks_sched s' = ks_sched s \<or>
     (\<exists>slot tid. slot < 32 \<and> pe_active (procs_of s ! slot) = 0 \<and> 0 < tid \<and> tid < 16 \<and>
        (\<exists>e. procs_of s' = (procs_of s)[slot := e] \<and> r = sint (pe_pid e) \<and> \<not> process_pid_in_use (pe_pid e) (ks_procs s) \<and>
          pe_active e = 1 \<and> pe_tid e = of_nat tid \<and> pe_is_kernel e = k \<and>
          pe_syscall_mask_low e = (if k = 0 then PROCESS_SYSCALL_MASK_USER else PROCESS_SYSCALL_MASK_KERNEL)) \<and>
        st (ks_sched s) tid \<in> {TASK_UNUSED, TASK_ZOMBIE} \<and> st (ks_sched s') tid = TASK_RUNNABLE \<and>
        tk_entry (tasks_of s' ! tid) = (if k = 0 then sym_process_user_task_entry sy else entry) \<and>
        (\<forall>j < 16. j \<noteq> tid \<longrightarrow> tasks_of s' ! j = tasks_of s ! j)))"
proof -
  have inv: "sched_inv (ks_sched s)" using assms(1) by (simp add: linked_def)
  have len: "length (procs_of s) = PROCESS_MAX" "length (tasks_of s) = MAX_TASKS" using linked_lengths [OF assms(1)] by simp_all
  show ?thesis
  proof (rule spawn_cases [OF inv len(1) assms(3)])
    assume "r = -1" "ks_procs s' = ks_procs s" "ks_sched s' = ks_sched s"
    then show ?thesis using assms(1,2) by (simp add: linked_def reaped_def)
  next
    fix slot pid tid space t
    assume a: "process_find_free_slot (ks_procs s) = Some slot" "r = sint pid"
      "pid \<notin> pids (ks_procs s)" "2 \<le> unat pid" "0 < tid" "tid < MAX_TASKS" "tid \<noteq> current_of s"
      "st (ks_sched s) tid = TASK_UNUSED \<or> st (ks_sched s) tid = TASK_ZOMBIE"
      "ks_sched s' = (ks_sched s)\<lparr>sc_tasks := (tasks_of s)[tid := t]\<rparr>" "tk_state t = TASK_RUNNABLE"
      "tk_entry t = (if k \<noteq> 0 then entry else sym_process_user_task_entry sy)" "sched_inv (ks_sched s')"
      "procs_of s' = (procs_of s)[slot := spawned name k pid tid space (procs_of s ! slot)]"
    have "linked s' \<and> reaped s'" by (rule spawn_linked [OF assms(1,2) a(1,3-10,12,13)])
    moreover have "\<not> process_pid_in_use pid (ks_procs s)" using a(3) by (simp add: pid_in_use_iff)
    moreover have "tasks_of s' ! tid = t" "\<forall>j < 16. j \<noteq> tid \<longrightarrow> tasks_of s' ! j = tasks_of s ! j" using a(6,9) len by simp_all
    ultimately show ?thesis using a free_slot_facts(1,2) [OF len(1) a(1)]
      by (intro conjI disjI2 exI [of _ slot] exI [of _ tid] exI [of _ "spawned name k pid tid space (procs_of s ! slot)"])
        simp_all
  qed
qed

text \<open>
  C32.  The proviso is needed: \<open>scheduler_create_task\<close> takes the slot of a finished task whose process has not been
  reaped yet.  Then two active processes, the dead one and the new one, share the task, and the entry that comes
  first in the process table decides the system calls of the task.  When that is the entry of the dead process, the
  new process runs with the mask of the dead one and not with its own: a user process started on the task
  of a dead kernel process is not filtered, and a kernel process on the task of a dead user process is.
\<close>

theorem process_spawn_inherits_stale_mask:
  assumes "linked s" and "process_spawn_common sy name entry arg k s = Some (r, s')"
    and "process_find_free_slot (ks_procs s) = Some slot"
    and "j < 32" and "pe_active (procs_of s ! j) \<noteq> 0" and "pe_tid (procs_of s ! j) = of_nat tid"
    and "tid < 16" and "st (ks_sched s) tid = TASK_ZOMBIE" and "st (ks_sched s') tid = TASK_RUNNABLE"
  shows "procs_of s' ! j = procs_of s ! j \<and> pe_active (procs_of s' ! slot) \<noteq> 0 \<and> pe_tid (procs_of s' ! slot) = of_nat tid \<and>
    pe_pid (procs_of s' ! j) \<noteq> pe_pid (procs_of s' ! slot) \<and>
    pe_syscall_mask_low (procs_of s' ! slot) = (if k = 0 then PROCESS_SYSCALL_MASK_USER else PROCESS_SYSCALL_MASK_KERNEL) \<and>
    process_find_by_tid (of_nat tid) (ks_procs s') = Some (min j slot) \<and>
    (process_syscall_allowed n (of_nat tid) (ks_procs s') \<longleftrightarrow>
      n < 32 \<and> pe_syscall_mask_low (procs_of s' ! min j slot) AND push_bit (unat n) 1 \<noteq> 0)"
proof -
  have inv: "sched_inv (ks_sched s)" using assms(1) by (simp add: linked_def)
  have len: "length (procs_of s) = PROCESS_MAX" "length (tasks_of s) = MAX_TASKS" using linked_lengths [OF assms(1)] by simp_all
  note sl = free_slot_facts [OF len(1) assms(3)]
  have ne: "j \<noteq> slot" using sl(2) assms(5) by auto
  have old: "first_idx (\<lambda>e. pe_active e \<noteq> 0 \<and> pe_tid e = of_nat tid) (procs_of s) = Some j"
    using assms(1,4-6) len proc_tids.lookup_eqI [of "procs_of s" j] by (simp add: proc_tids.lookup_def linked_def)
  have rdy: "pt_ready (ks_procs s)"
  proof (rule ccontr)
    assume "\<not> pt_ready (ks_procs s)"
    then have "s' = s" using assms(2) by (simp add: process_spawn_common_def)
    then show False using assms(8,9) by simp
  qed
  show ?thesis
  proof (rule spawn_cases [OF inv len(1) assms(2)])
    assume "ks_sched s' = ks_sched s"
    then show ?thesis using assms(8,9) by simp
  next
    fix slot' pid i space t
    assume a: "process_find_free_slot (ks_procs s) = Some slot'" "pid \<notin> pids (ks_procs s)"
      "ks_sched s' = (ks_sched s)\<lparr>sc_tasks := (tasks_of s)[i := t]\<rparr>" "pt_ready (ks_procs s') = pt_ready (ks_procs s)"
      and tab: "procs_of s' = (procs_of s)[slot' := spawned name k pid i space (procs_of s ! slot')]"
    have "i = tid"
    proof (rule ccontr)
      assume "i \<noteq> tid"
      then have "st (ks_sched s') tid = st (ks_sched s) tid" by (simp add: a(3))
      then show False using assms(8,9) by simp
    qed
    with a(1) assms(3) have eq: "slot' = slot" "i = tid" by simp_all
    have j: "procs_of s' ! j = procs_of s ! j" using ne by (simp add: tab eq)
    have new: "procs_of s' ! slot = spawned name k pid tid space (procs_of s ! slot)" using sl(1) len by (simp add: tab eq)
    have sp: "pe_active (procs_of s' ! slot) = 1" "pe_tid (procs_of s' ! slot) = of_nat tid" "pe_pid (procs_of s' ! slot) = pid"
      "pe_syscall_mask_low (procs_of s' ! slot) = (if k = 0 then PROCESS_SYSCALL_MASK_USER else PROCESS_SYSCALL_MASK_KERNEL)"
      by (simp_all add: new spawned_def split: prod.split)
    have "procs_of s ! j \<in> set (procs_of s)" using assms(4) len by simp
    then have pid: "pe_pid (procs_of s ! j) \<noteq> pid" using a(2) assms(5) by (auto simp: pids_def)
    have at: "procs_of s' ! m = (if m = slot then procs_of s' ! slot else procs_of s ! m)" for m using tab eq by simp
    have find: "process_find_by_tid (of_nat tid) (ks_procs s') = Some (min j slot)"
    proof -
      have "\<not> (pe_active (procs_of s' ! m) \<noteq> 0 \<and> pe_tid (procs_of s' ! m) = of_nat tid)" if "m < min j slot" for m
        using that old at [of m] by (simp add: first_idx_Some)
      moreover have "pe_active (procs_of s' ! min j slot) \<noteq> 0 \<and> pe_tid (procs_of s' ! min j slot) = of_nat tid"
        using sp(1,2) assms(5,6) j by (simp add: min_def)
      moreover have "min j slot < length (procs_of s')" using assms(4) len by (simp add: tab min_less_iff_disj)
      ultimately show ?thesis unfolding process_find_by_tid_def first_idx_Some by blast
    qed
    have "process_syscall_allowed n (of_nat tid) (ks_procs s') \<longleftrightarrow>
        n < 32 \<and> pe_syscall_mask_low (procs_of s' ! min j slot) AND push_bit (unat n) 1 \<noteq> 0"
      using find rdy a(4) by (cases "n < 32") (simp_all only: process_syscall_allowed_def linorder_not_less [symmetric], simp_all)
    then show ?thesis using j sp pid find by simp
  qed
qed

text \<open>A booted system, and one with a kernel process whose task 1 has finished.\<close>

definition demo_kernel :: "pmm \<Rightarrow> ksys" where
  "demo_kernel p = (demo_sys p)\<lparr>ks_procs := snd (process_init 0x200000 demo_procs)\<rparr>"

definition demo_stale :: "pmm \<Rightarrow> ksys" where
  "demo_stale p =
     (let s = demo_kernel p in
      set_task 1 ((tasks_of s ! 1)\<lparr>tk_state := TASK_ZOMBIE\<rparr>)
        (s\<lparr>ks_procs := (ks_procs s)\<lparr>pt_table := (procs_of s)[1 := (procs_of s ! 1)\<lparr>pe_pid := 2, pe_tid := 1, pe_cr3 := 0x200000,
           pe_syscall_mask_low := PROCESS_SYSCALL_MASK_USER, pe_is_kernel := 0, pe_active := 1\<rparr>]\<rparr>\<rparr>))"

lemma demo_kernel_shape:
  obtains c e0 where "procs_of (demo_kernel p) = (replicate 32 c)[0 := e0]" "pe_active c = 0" "length (pe_name c) = 16"
    "pe_active e0 = 1" "pe_tid e0 = 0" "pe_pid e0 = 1" "pt_ready (ks_procs (demo_kernel p))"
proof -
  define c where "c = process_clear (pt_table demo_procs ! 0)"
  have "procs_of (demo_kernel p) = (replicate 32 c)[0 := c\<lparr>pe_pid := 1, pe_tid := 0, pe_cr3 := 0x200000,
      pe_user_code_frame := 0, pe_user_stack_frame := 0, pe_user_entry := 0,
      pe_syscall_mask_low := PROCESS_SYSCALL_MASK_KERNEL, pe_is_kernel := 1, pe_active := 1,
      pe_name := proc_str_copy (pe_name c) 16 (Some ''kernel'')\<rparr>]"
    unfolding demo_kernel_def process_init_def demo_procs_def c_def Let_def by simp
  then show thesis by (rule that) (simp_all add: c_def process_clear_def demo_procs_def demo_kernel_def process_init_def Let_def)
qed

lemma demo_kernel_procs:
  "length (procs_of (demo_kernel p)) = PROCESS_MAX" "pt_ready (ks_procs (demo_kernel p))"
  "pe_tid (procs_of (demo_kernel p) ! 0) = 0" "pe_pid (procs_of (demo_kernel p) ! 0) = 1"
  "i < PROCESS_MAX \<Longrightarrow> pe_active (procs_of (demo_kernel p) ! i) \<noteq> 0 \<longleftrightarrow> i = 0"
  by (rule demo_kernel_shape [of p]; simp add: nth_list_update)+

lemma demo_kernel_tasks:
  "length (tasks_of (demo_kernel p)) = MAX_TASKS" "st (ks_sched (demo_kernel p)) 0 = TASK_RUNNING"
  "st (ks_sched (demo_kernel p)) 1 = TASK_UNUSED" "tk_stack_base (tasks_of (demo_kernel p) ! 1) = 0"
  "current_of (demo_kernel p) = 0"
  by (simp_all add: demo_kernel_def demo_sys_def scheduler_init_def task_clear_def Let_def)

lemma demo_kernel_linked: "linked (demo_kernel p)" "reaped (demo_kernel p)"
proof -
  have pi: "proctab_inv (ks_procs (demo_kernel p))"
    unfolding demo_kernel_def using process_init_inv(1) [of demo_procs] by (simp add: demo_procs_def)
  have kd: "proc_tids.keys_distinct (procs_of (demo_kernel p))"
    unfolding proc_tids.keys_distinct_def demo_kernel_procs(1) using demo_kernel_procs(5) by blast
  have si: "sched_inv (ks_sched (demo_kernel p))" using demo_sys_inv by (simp add: demo_kernel_def)
  have "pe_tid (procs_of (demo_kernel p) ! i) = 0" if "i < PROCESS_MAX" "pe_active (procs_of (demo_kernel p) ! i) \<noteq> 0" for i
    using demo_kernel_procs(3,5) that by auto
  then show "linked (demo_kernel p)" "reaped (demo_kernel p)"
    using pi kd si demo_kernel_tasks(2) [of p] by (simp_all add: linked_def reaped_def)
qed

lemma demo_stale_procs:
  "length (procs_of (demo_stale p)) = PROCESS_MAX" "pt_ready (ks_procs (demo_stale p))"
  "procs_of (demo_stale p) ! 0 = procs_of (demo_kernel p) ! 0"
  "pe_tid (procs_of (demo_stale p) ! 1) = 1" "pe_pid (procs_of (demo_stale p) ! 1) = 2"
  "i < PROCESS_MAX \<Longrightarrow> pe_active (procs_of (demo_stale p) ! i) \<noteq> 0 \<longleftrightarrow> i = 0 \<or> i = 1"
  "i < PROCESS_MAX \<Longrightarrow> pe_name (procs_of (demo_stale p) ! i) = pe_name (procs_of (demo_kernel p) ! i)"
  using demo_kernel_procs(1,2) [of p] demo_kernel_procs(5) [of i p] by (simp_all add: demo_stale_def Let_def nth_list_update)

lemma demo_stale_tasks:
  "tasks_of (demo_stale p) = (tasks_of (demo_kernel p))[1 := (tasks_of (demo_kernel p) ! 1)\<lparr>tk_state := TASK_ZOMBIE\<rparr>]"
  "st (ks_sched (demo_stale p)) 0 = TASK_RUNNING" "st (ks_sched (demo_stale p)) 1 = TASK_ZOMBIE"
  "tk_stack_base (tasks_of (demo_stale p) ! 1) = 0"
  using demo_kernel_tasks [of p] by (simp_all add: demo_stale_def Let_def)

lemma demo_stale_linked: "linked (demo_stale p)"
proof -
  note ds = demo_stale_procs [where p = p] and dk = demo_kernel_procs [where p = p]
  have l: "proctab_inv (ks_procs (demo_kernel p))" "sched_inv (ks_sched (demo_kernel p))"
    using demo_kernel_linked(1) [of p] by (simp_all add: linked_def)
  have nm: "length (pe_name (procs_of (demo_stale p) ! i)) = 16" if "i < PROCESS_MAX" for i
    using l(1) that ds(7) [OF that] dk(1) by (simp add: proctab_inv_def proc_ok_def)
  have two: "i = 0 \<or> i = 1" if "i < PROCESS_MAX" "pe_active (procs_of (demo_stale p) ! i) \<noteq> 0" for i using ds(6) that by blast
  have "proc_ok (procs_of (demo_stale p) ! i)" if "i < PROCESS_MAX" for i
    using nm [OF that] two [OF that] ds(3-5) dk(3,4) by (auto simp: proc_ok_def)
  moreover have "proc_slots.keys_distinct (procs_of (demo_stale p))" "proc_tids.keys_distinct (procs_of (demo_stale p))"
  proof -
    have ne: "pe_pid (procs_of (demo_stale p) ! 0) \<noteq> pe_pid (procs_of (demo_stale p) ! 1)"
      "pe_tid (procs_of (demo_stale p) ! 0) \<noteq> pe_tid (procs_of (demo_stale p) ! 1)" unfolding ds(3-5) dk(3,4) by simp_all
    show "proc_slots.keys_distinct (procs_of (demo_stale p))" "proc_tids.keys_distinct (procs_of (demo_stale p))"
      unfolding proc_slots.keys_distinct_def proc_tids.keys_distinct_def ds(1) by (metis two ne)+
  qed
  moreover have "sched_inv (ks_sched (demo_stale p))"
  proof -
    have "length (tk_name (tasks_of (demo_kernel p) ! 1)) = 16" using l(2) by (simp add: sched_inv_def)
    then show ?thesis unfolding demo_stale_def Let_def using l(2) demo_kernel_tasks(5) [of p]
      by (intro set_task_inv) simp_all
  qed
  moreover have "unat (pe_tid (procs_of (demo_stale p) ! i)) < MAX_TASKS \<and>
      st (ks_sched (demo_stale p)) (unat (pe_tid (procs_of (demo_stale p) ! i))) \<noteq> TASK_UNUSED"
    if "i < PROCESS_MAX" "pe_active (procs_of (demo_stale p) ! i) \<noteq> 0" for i
    using two [OF that] ds(3,4) dk(3) demo_stale_tasks(2,3) [of p] by auto
  ultimately show ?thesis using ds(1) unfolding linked_def proctab_inv_def all_set_conv_all_nth by simp
qed

text \<open>Starting a kernel process in either of them takes task 1.\<close>

lemma demo_spawn:
  assumes s: "s = demo_kernel p \<or> s = demo_stale p" and p: "heap_ok {0x100000} [(16368, True)] (demo_heap p)"
  obtains r s' where "process_spawn_common sy (Some ''app'') 0x102000 0 1 s = Some (r, s')"
    "st (ks_sched s') 1 = TASK_RUNNABLE"
proof -
  obtain km where k: "kmalloc 8192 (demo_heap p) = Some (0xD0000010, km)" by (rule demo_heap_first [OF p, of 8192]) simp_all
  have km: "km_of s = demo_heap p"
    using s by (auto simp: demo_stale_def demo_kernel_def demo_sys_def demo_fs_def scheduler_init_def set_task_def Let_def)
  have l: "linked s" "pt_ready (ks_procs s)" using s demo_kernel_linked(1) demo_stale_linked demo_kernel_procs(2) demo_stale_procs(2) by auto
  have len: "length (tasks_of s) = MAX_TASKS" "length (procs_of s) = PROCESS_MAX" using linked_lengths [OF l(1)] by simp_all
  have t1: "st (ks_sched s) 1 = TASK_UNUSED \<or> st (ks_sched s) 1 = TASK_ZOMBIE" "tk_stack_base (tasks_of s ! 1) = 0"
    using s demo_kernel_tasks(3,4) [of p] demo_stale_tasks(3,4) [of p] by auto
  have "pe_active (procs_of s ! 2) = 0" using s demo_kernel_procs(5) [of 2 p] demo_stale_procs(6) [of 2 p] by auto
  then have "process_find_free_slot (ks_procs s) \<noteq> None"
    using len(2) nth_mem [of 2 "procs_of s"] by (auto simp: process_find_free_slot_def first_idx_None)
  then obtain slot where slot: "process_find_free_slot (ks_procs s) = Some slot" by auto
  have f: "first_idx (\<lambda>t. tk_state t = TASK_UNUSED \<or> tk_state t = TASK_ZOMBIE) (drop 1 (tasks_of s)) = Some 0"
    using t1 len by (simp add: first_idx_Some)
  have st: "sc_started (ks_sched s)" using l(1) by (simp add: linked_def sched_inv_def)
  obtain s2 where c: "scheduler_create_task (sym_scheduler_task_bootstrap sy) 0x102000 0 (Some ''app'') s = Some (Some 1, s2)"
      "st (ks_sched s2) 1 = TASK_RUNNABLE"
    using k km t1 len f st by (simp add: scheduler_create_task_def Let_def)
  obtain pid procs where "process_alloc_pid (ks_procs s2) = (pid, procs)" by fastforce
  with that c slot l(2) show thesis
    by (simp add: process_spawn_common_def spawn_address_space_def spawn_task_def Let_def)
qed

theorem process_spawn_correct_witness:
  "\<exists>p sy r s'. process_spawn_common sy (Some ''app'') 0x102000 0 1 (demo_kernel p) = Some (r, s') \<and> linked s' \<and> reaped s' \<and>
     ks_sched s' \<noteq> ks_sched (demo_kernel p)"
proof -
  fix sy
  obtain p where p: "heap_ok {0x100000} [(16368, True)] (demo_heap p)" by (rule demo_heap_inv)
  obtain r s' where s: "process_spawn_common sy (Some ''app'') 0x102000 0 1 (demo_kernel p) = Some (r, s')"
    "st (ks_sched s') 1 = TASK_RUNNABLE" by (rule demo_spawn [OF disjI1 [OF refl] p])
  then have "ks_sched s' \<noteq> ks_sched (demo_kernel p)" using demo_kernel_tasks(3) [of p] by auto
  with s process_spawn_correct [OF demo_kernel_linked s(1)] show ?thesis by blast
qed

theorem process_spawn_inherits_stale_mask_witness:
  "\<exists>p sy r s'. process_spawn_common sy (Some ''app'') 0x102000 0 1 (demo_stale p) = Some (r, s') \<and>
     pe_active (procs_of s' ! 1) \<noteq> 0 \<and> pe_active (procs_of s' ! 2) \<noteq> 0 \<and> pe_tid (procs_of s' ! 1) = pe_tid (procs_of s' ! 2) \<and>
     process_find_by_tid 1 (ks_procs s') = Some 1 \<and> pe_syscall_mask_low (procs_of s' ! 2) = PROCESS_SYSCALL_MASK_KERNEL \<and>
     \<not> process_syscall_allowed 8 1 (ks_procs s')"
proof -
  fix sy
  obtain p where p: "heap_ok {0x100000} [(16368, True)] (demo_heap p)" by (rule demo_heap_inv)
  obtain r s' where s: "process_spawn_common sy (Some ''app'') 0x102000 0 1 (demo_stale p) = Some (r, s')"
    "st (ks_sched s') 1 = TASK_RUNNABLE" by (rule demo_spawn [OF disjI2 [OF refl] p])
  have free: "pe_active (procs_of (demo_stale p) ! 2) = 0" "pe_active (procs_of (demo_stale p) ! 1) \<noteq> 0"
    "pe_active (procs_of (demo_stale p) ! 0) \<noteq> 0"
    using demo_stale_procs(6) [of 2 p] demo_stale_procs(6) [of 1 p] demo_stale_procs(6) [of 0 p] by auto
  have "j = 0 \<or> j = 1" if "j < 2" for j :: nat using that by auto
  then have f: "process_find_free_slot (ks_procs (demo_stale p)) = Some 2"
    using free demo_stale_procs(1) [of p] by (auto simp: process_find_free_slot_def first_idx_Some)
  have t: "pe_tid (procs_of (demo_stale p) ! 1) = of_nat 1" using demo_stale_procs(4) by simp
  have mask: "pe_syscall_mask_low (procs_of (demo_stale p) ! 1) AND push_bit 8 1 = 0"
    using demo_kernel_procs(1) [of p] by (simp add: demo_stale_def Let_def PROCESS_SYSCALL_MASK_USER_def SYSCALL_BIT_def)
  show ?thesis
    using process_spawn_inherits_stale_mask [OF demo_stale_linked s(1) f _ free(2) t _ demo_stale_tasks(3) s(2), of 8] s(1) mask t free(2)
    by (intro exI [of _ p] exI [of _ sy] exI [of _ r] exI [of _ s']) simp
qed

theorem process_reap_correct_witness:
  "\<exists>p. linked (process_reap (demo_stale p)) \<and> reaped (process_reap (demo_stale p)) \<and>
   pe_active (procs_of (process_reap (demo_stale p)) ! 1) = 0"
proof -
  fix p
  have "finished (demo_stale p) 1"
    using demo_stale_procs(4) [of p] demo_stale_procs(6) [of 1 p] demo_stale_tasks(3) [of p]
    by (simp add: finished_def scheduler_task_is_zombie_def word_le_nat_alt)
  with process_reap_correct [OF demo_stale_linked demo_stale_procs(2), of p] have
    "linked (process_reap (demo_stale p))" "reaped (process_reap (demo_stale p))"
    "procs_of (process_reap (demo_stale p)) ! 1 = process_clear (procs_of (demo_stale p) ! 1)" by auto
  then show ?thesis by (auto simp: process_clear_def)
qed

end
