(* ===== verification/Address_Space.thy ===== *)
theory Address_Space
  imports Process
begin

text \<open>
  The life of a user address space: the directory cloned from the kernel's, the page table, the code page and the
  stack page that \<open>process_build_user_image\<close> adds to it, and what \<open>process_reap\<close> takes down again.
  The four frames are fresh, no other directory sees a change, and after reaping exactly the frames of
  before are free.
\<close>

section \<open>The two user pages\<close>

lemma user_indices:
  "pd_index PROCESS_USER_CODE_VADDR = 256" "pt_index PROCESS_USER_CODE_VADDR = 0"
  "pd_index (PROCESS_USER_STACK_TOP - 0x1000) = 256" "pt_index (PROCESS_USER_STACK_TOP - 0x1000) = 1"
  by (simp_all add: pd_index_eq pt_index_eq)

text \<open>Memory that differs at most in the given pages, as far as arrays of words are concerned.\<close>

definition same_outside :: "u32 set \<Rightarrow> mem \<Rightarrow> mem \<Rightarrow> bool" where
  "same_outside S m m' \<longleftrightarrow> (\<forall>t i. page_addr t \<longrightarrow> t \<notin> S \<longrightarrow> i < 1024 \<longrightarrow> entry_get m' t i = entry_get m t i)"

lemma same_outside_refl [simp]: "same_outside S m m"
  by (simp add: same_outside_def)

lemma same_outside_trans: "same_outside S m m' \<Longrightarrow> same_outside S m' m'' \<Longrightarrow> same_outside S m m''"
  by (simp add: same_outside_def)

lemma same_outside_set: "page_addr t \<Longrightarrow> i < 1024 \<Longrightarrow> t \<in> S \<Longrightarrow> same_outside S m (entry_set m t i v)"
  by (auto simp: same_outside_def entry_get_set)

lemma same_outside_fill: "page_addr t \<Longrightarrow> t \<in> S \<Longrightarrow> same_outside S m (table_fill t f m)"
  by (auto simp: same_outside_def entry_get_fill)

lemma same_outside_wf:
  assumes "pt_wf D A m" "same_outside S m m'" "S \<subseteq> A"
  shows "pt_wf D A m'" and "d \<in> D \<Longrightarrow> pte_at m' d v = pte_at m d v"
proof -
  have same: "entry_get m' d i = entry_get m d i" if "d \<in> D" "i < 1024" for d i
    using that assms pt_wfD(1,2) [OF assms(1) that(1)] by (auto simp: same_outside_def)
  then show "pt_wf D A m'" by (rule pt_wf_cong [OF assms(1)])
  assume d: "d \<in> D"
  show "pte_at m' d v = pte_at m d v"
  proof (cases "pres (entry_get m d (pd_index v))")
    case True
    then have "table_of (entry_get m d (pd_index v)) \<notin> S"
      using pt_wfD(4) [OF assms(1) d pd_index_less] assms(3) by blast
    then have "entry_get m' (table_of (entry_get m d (pd_index v))) (pt_index v) =
        entry_get m (table_of (entry_get m d (pd_index v))) (pt_index v)"
      using assms(2) table_of_page by (simp add: same_outside_def)
    then show ?thesis using same [OF d pd_index_less] by (simp add: pte_at_def Let_def)
  qed (use same [OF d pd_index_less] in \<open>simp add: pte_at_def Let_def\<close>)
qed

section \<open>Taking the address space down\<close>

lemma unmap_at:
  assumes "pg_is_enabled (vm_pg s)" "virt AND 0xFFF = 0"
    "pres (entry_get (vm_mem s) (paging_active_directory s) (pd_index virt))"
  defines "t \<equiv> table_of (entry_get (vm_mem s) (paging_active_directory s) (pd_index virt))"
  shows "snd (paging_unmap_page virt s) = s\<lparr>vm_mem := if pres (entry_get (vm_mem s) t (pt_index virt))
    then entry_set (vm_mem s) t (pt_index virt) 0 else vm_mem s\<rparr>"
  using assms by (simp add: paging_unmap_page_def Let_def)

lemma unmap_absent:
  assumes "\<not> pres (entry_get (vm_mem s) (paging_active_directory s) (pd_index virt))"
  shows "snd (paging_unmap_page virt s) = s"
  using assms by (simp add: paging_unmap_page_def Let_def)

lemma vm_free_ok:
  assumes "pmm_ok (vm_pmm v)" "f \<in> pool_frames (vm_pmm v) - avail_frames (vm_pmm v)"
  shows "pmm_ok (vm_pmm (vm_free f v))" "avail_frames (vm_pmm (vm_free f v)) = insert f (avail_frames (vm_pmm v))"
    "pool_frames (vm_pmm (vm_free f v)) = pool_frames (vm_pmm v)" "vm_pg (vm_free f v) = vm_pg v" "vm_mem (vm_free f v) = vm_mem v"
  using pmm_frames.release_ok [OF assms(1), of f "fst (pmm_free_frame f (vm_pmm v))" "snd (pmm_free_frame f (vm_pmm v))"] assms
  by (simp_all add: vm_free_def)

text \<open>
  The address space of a running process: its directory holds, at the slot of the user addresses, a table of
  its own with nothing outside the two user pages; the four frames are taken and used by no
  directory of \<open>D\<close>.
\<close>

definition user_space :: "u32 set \<Rightarrow> u32 \<Rightarrow> u32 \<Rightarrow> u32 \<Rightarrow> u32 \<Rightarrow> vm \<Rightarrow> bool" where
  "user_space D cr3 cf sf t v \<longleftrightarrow>
     pmm_ok (vm_pmm v) \<and> pg_is_enabled (vm_pg v) \<and> pg_kernel_dir_phys (vm_pg v) \<in> D \<and>
     pg_current_dir_phys (vm_pg v) \<in> D \<and> pg_current_dir_phys (vm_pg v) \<noteq> 0 \<and>
     pt_wf D (avail_frames (vm_pmm v) \<union> {cr3, cf, sf, t}) (vm_mem v) \<and>
     {cr3, cf, sf, t} \<subseteq> pool_frames (vm_pmm v) - avail_frames (vm_pmm v) \<and> distinct [cr3, cf, sf, t] \<and>
     entry_get (vm_mem v) cr3 256 = t OR 7 \<and> (\<forall>i < 1024. 1 < i \<longrightarrow> \<not> pres (entry_get (vm_mem v) t i))"

lemma user_space_pages:
  assumes "user_space D cr3 cf sf t v"
  shows "page_addr cr3" "page_addr t" "cr3 \<noteq> 0" "t \<noteq> cr3" "cf \<noteq> 0" "sf \<noteq> 0" "cr3 \<noteq> pg_kernel_dir_phys (vm_pg v)"
    "page_addr (pg_current_dir_phys (vm_pg v))"
proof -
  have ok: "pmm_ok (vm_pmm v)" and wf: "pt_wf D (avail_frames (vm_pmm v) \<union> {cr3, cf, sf, t}) (vm_mem v)"
    and D: "pg_kernel_dir_phys (vm_pg v) \<in> D" "pg_current_dir_phys (vm_pg v) \<in> D"
    and P: "{cr3, cf, sf, t} \<subseteq> pool_frames (vm_pmm v)" and ne: "t \<noteq> cr3"
    using assms by (auto simp: user_space_def)
  from P show "page_addr cr3" "page_addr t" "cr3 \<noteq> 0" "cf \<noteq> 0" "sf \<noteq> 0" using pmm_frames.pool_pages [OF ok] by auto
  show "t \<noteq> cr3" by (rule ne)
  show "cr3 \<noteq> pg_kernel_dir_phys (vm_pg v)" using pt_wfD(2) [OF wf D(1)] by auto
  show "page_addr (pg_current_dir_phys (vm_pg v))" using pt_wfD(1) [OF wf D(2)] .
qed

lemma user_entry_bits:
  assumes "page_addr t"
  shows "pres (t OR 7)" "(t OR 7) AND 4 \<noteq> 0" "table_of (t OR 7) = t"
  using assms flag_of_or [OF assms, of 1 7] flag_of_or [OF assms, of 4 7] table_of_or [OF assms, of 7] by (simp_all add: low_consts)

lemma unmap_user_pages:
  assumes us: "user_space D cr3 cf sf t v"
  obtains v' where "process_unmap_user_pages cr3 v = v'" "vm_pg v' = vm_pg v" "pmm_ok (vm_pmm v')"
    "avail_frames (vm_pmm v') = insert t (avail_frames (vm_pmm v))" "pool_frames (vm_pmm v') = pool_frames (vm_pmm v)"
    "same_outside {cr3, t} (vm_mem v) (vm_mem v')"
proof -
  note pg = user_space_pages [OF us]
  note ub = user_entry_bits [OF pg(2)]
  have en: "pg_is_enabled (vm_pg v)" and e: "entry_get (vm_mem v) cr3 256 = t OR 7"
    and rest: "\<forall>i < 1024. 1 < i \<longrightarrow> \<not> pres (entry_get (vm_mem v) t i)" and cur: "pg_current_dir_phys (vm_pg v) \<noteq> 0"
    and own: "pmm_ok (vm_pmm v)" "t \<in> pool_frames (vm_pmm v) - avail_frames (vm_pmm v)"
    using us by (auto simp: user_space_def)
  let ?m = "vm_mem v"
  define v1 where "v1 = paging_switch_directory cr3 v"
  have v1: "v1 = v\<lparr>vm_pg := (vm_pg v)\<lparr>pg_current_dir_phys := cr3\<rparr>\<rparr>"
    using en pg(1,3) by (simp add: v1_def paging_switch_directory_def page_addr_offset)
  have act: "paging_active_directory (v1\<lparr>vm_mem := x\<rparr>) = cr3" for x using pg(3) by (simp add: v1 paging_active_directory_def)
  define m1 where "m1 = (if pres (entry_get ?m t 0) then entry_set ?m t 0 0 else ?m)"
  define m2 where "m2 = (if pres (entry_get m1 t 1) then entry_set m1 t 1 0 else m1)"
  have m1e: "entry_get m1 cr3 256 = t OR 7" using e pg(1,2,4) by (simp add: m1_def entry_get_set)
  have m2e: "entry_get m2 cr3 256 = t OR 7" using m1e pg(1,2,4) by (simp add: m2_def entry_get_set)
  have u1: "snd (paging_unmap_page PROCESS_USER_CODE_VADDR v1) = v1\<lparr>vm_mem := m1\<rparr>"
    using unmap_at [of v1 PROCESS_USER_CODE_VADDR] en e ub act [of ?m] unfolding user_indices by (simp add: v1 m1_def)
  have u2: "snd (paging_unmap_page (PROCESS_USER_STACK_TOP - 0x1000) (v1\<lparr>vm_mem := m1\<rparr>)) = v1\<lparr>vm_mem := m2\<rparr>"
    using unmap_at [of "v1\<lparr>vm_mem := m1\<rparr>" "PROCESS_USER_STACK_TOP - 0x1000"] en m1e ub act [of m1]
    unfolding user_indices by (simp add: v1 m2_def)
  have ret: "paging_switch_directory (pg_current_dir_phys (vm_pg v)) (v1\<lparr>vm_mem := m2\<rparr>) = v\<lparr>vm_mem := m2\<rparr>"
    using en cur pg(8) by (simp add: v1 paging_switch_directory_def page_addr_offset)
  have "\<not> pres (entry_get m2 t i)" if "i < 1024" for i
    using that rest pg(2) by (cases "i = 0 \<or> i = 1") (auto simp: m2_def m1_def entry_get_set)
  then have none: "process_table_is_empty m2 t" by (simp add: process_table_is_empty_def first_idx_None)
  define v' where "v' = (vm_free t (v\<lparr>vm_mem := m2\<rparr>))\<lparr>vm_mem := entry_set m2 cr3 256 0\<rparr>"
  have "process_unmap_user_pages cr3 v = v'"
    using en pg(3,7) u1 u2 ret m2e ub none
    unfolding process_unmap_user_pages_def Let_def process_release_user_table_def v1_def [symmetric] user_indices
    by (simp add: paging_current_directory_phys_def paging_kernel_directory_phys_def v'_def vm_free_def)
  moreover have "same_outside {cr3, t} ?m (entry_set m2 cr3 256 0)"
  proof -
    have "same_outside {cr3, t} ?m m1" "same_outside {cr3, t} m1 m2"
      using pg(2) by (simp_all add: m1_def m2_def same_outside_set)
    moreover have "same_outside {cr3, t} m2 (entry_set m2 cr3 256 0)" using pg(1) by (simp add: same_outside_set)
    ultimately show ?thesis using same_outside_trans by blast
  qed
  ultimately show thesis
    using that [of v'] vm_free_ok [of "v\<lparr>vm_mem := m2\<rparr>" t] own by (simp add: v'_def)
qed

text \<open>\<open>process_reap\<close> on such an address space.\<close>

lemma reap_frames_ok:
  assumes us: "user_space D cr3 cf sf t v"
    and e: "pe_cr3 e = cr3" "pe_user_code_frame e = cf" "pe_user_stack_frame e = sf"
  defines "v' \<equiv> reap_frames e v"
  shows "vm_ok D v'" and "vm_pg v' = vm_pg v" and "avail_frames (vm_pmm v') = avail_frames (vm_pmm v) \<union> {cr3, cf, sf, t}"
    and "d \<in> D \<Longrightarrow> pte_at (vm_mem v') d x = pte_at (vm_mem v) d x"
proof -
  note pg = user_space_pages [OF us]
  obtain v1 where v1: "process_unmap_user_pages cr3 v = v1" "vm_pg v1 = vm_pg v" "pmm_ok (vm_pmm v1)"
    "avail_frames (vm_pmm v1) = insert t (avail_frames (vm_pmm v))" "pool_frames (vm_pmm v1) = pool_frames (vm_pmm v)"
    "same_outside {cr3, t} (vm_mem v) (vm_mem v1)" by (rule unmap_user_pages [OF us])
  have own: "{cr3, cf, sf, t} \<subseteq> pool_frames (vm_pmm v) - avail_frames (vm_pmm v)" "distinct [cr3, cf, sf, t]"
    and wf: "pt_wf D (avail_frames (vm_pmm v) \<union> {cr3, cf, sf, t}) (vm_mem v)"
    and D: "pg_is_enabled (vm_pg v)" "pg_kernel_dir_phys (vm_pg v) \<in> D" "pg_current_dir_phys (vm_pg v) \<in> D"
      "pg_current_dir_phys (vm_pg v) \<noteq> 0"
    using us by (auto simp: user_space_def)
  have v': "v' = vm_free sf (vm_free cf (vm_free cr3 v1))"
    using e pg v1(1,2) by (simp add: v'_def reap_frames_def Let_def paging_kernel_directory_phys_def)
  note f1 = vm_free_ok [OF v1(3), of cr3]
  have cr3: "cr3 \<in> pool_frames (vm_pmm v1) - avail_frames (vm_pmm v1)" using own v1(4,5) by auto
  note f1 = f1 [OF this]
  have "cf \<in> pool_frames (vm_pmm (vm_free cr3 v1)) - avail_frames (vm_pmm (vm_free cr3 v1))"
    using own v1(4,5) f1(2,3) by auto
  note f2 = vm_free_ok [OF f1(1) this]
  have "sf \<in> pool_frames (vm_pmm (vm_free cf (vm_free cr3 v1))) - avail_frames (vm_pmm (vm_free cf (vm_free cr3 v1)))"
    using own v1(4,5) f1(2,3) f2(2,3) by auto
  note f3 = vm_free_ok [OF f2(1) this, folded v']
  show pgv: "vm_pg v' = vm_pg v" using f1(4) f2(4) f3(4) v1(2) by simp
  show av: "avail_frames (vm_pmm v') = avail_frames (vm_pmm v) \<union> {cr3, cf, sf, t}" using f1(2) f2(2) f3(2) v1(4) by auto
  have mem: "vm_mem v' = vm_mem v1" using f1(5) f2(5) f3(5) by simp
  have "{cr3, t} \<subseteq> avail_frames (vm_pmm v) \<union> {cr3, cf, sf, t}" by auto
  note so = same_outside_wf [OF wf v1(6) this]
  have "paging_active_directory v' \<in> D" using D pgv by (simp add: paging_active_directory_def)
  then show "vm_ok D v'" using f3(1) so(1) av mem pgv D by (simp add: vm_ok_def)
  show "d \<in> D \<Longrightarrow> pte_at (vm_mem v') d x = pte_at (vm_mem v) d x" using so(2) mem by simp
qed

section \<open>Building the address space\<close>

lemma user_page_flags: "USER_PAGE_FLAGS = 7"
  by (simp add: USER_PAGE_FLAGS_def)

text \<open>The first page goes into a new table, the second into the same one.\<close>

lemma map_code_page:
  assumes ok: "pmm_ok (vm_pmm v)" and en: "pg_is_enabled (vm_pg v)" and d: "paging_active_directory v = d" "page_addr d"
    and d': "d \<notin> avail_frames (vm_pmm v)" and e: "\<not> pres (entry_get (vm_mem v) d 256)" and f: "page_addr f"
    and mp: "paging_map_page PROCESS_USER_CODE_VADDR f USER_PAGE_FLAGS v = (True, v')"
  obtains t p where "t \<in> avail_frames (vm_pmm v)" "page_addr t" "t \<noteq> 0" "pmm_ok p"
    "avail_frames p = avail_frames (vm_pmm v) - {t}" "pool_frames p = pool_frames (vm_pmm v)"
    "v' = v\<lparr>vm_pmm := p, vm_mem := entry_set (entry_set (table_fill t (\<lambda>_. 0) (vm_mem v)) d 256 (t OR 7)) t 0 (f OR 7)\<rparr>"
proof (rule paging_alloc_table_cases [OF ok])
  assume "paging_alloc_table v = (None, v)"
  then show thesis
    using mp en e f d unfolding paging_map_page_def Let_def user_indices user_page_flags
    by (simp add: paging_ensure_table_def page_addr_offset)
next
  fix t p
  assume a: "t \<in> avail_frames (vm_pmm v)" "page_addr t" "t \<noteq> 0" "pmm_ok p"
    "avail_frames p = avail_frames (vm_pmm v) - {t}" "pool_frames p = pool_frames (vm_pmm v)"
    "paging_alloc_table v = (Some t, v\<lparr>vm_pmm := p, vm_mem := table_fill t (\<lambda>_. 0) (vm_mem v)\<rparr>)"
  have ne: "t \<noteq> d" using a(1) d' by auto
  define m1 where "m1 = entry_set (table_fill t (\<lambda>_. 0) (vm_mem v)) d 256 (t OR 7)"
  have ens: "paging_ensure_table d 256 7 v = (True, v\<lparr>vm_pmm := p, vm_mem := m1\<rparr>)"
    using e a(7) by (simp add: paging_ensure_table_def m1_def)
  have "entry_get m1 d 256 = t OR 7" "entry_get m1 t 0 = 0"
    using ne a(2) d(2) by (simp_all add: m1_def entry_get_set entry_get_fill)
  then have "paging_map_page PROCESS_USER_CODE_VADDR f USER_PAGE_FLAGS v = (True, v\<lparr>vm_pmm := p, vm_mem := entry_set m1 t 0 (f OR 7)\<rparr>)"
    using en f d(1) ens user_entry_bits(3) [OF a(2)] page_addr_and_high [OF f]
    unfolding paging_map_page_def Let_def user_indices user_page_flags by (simp add: page_addr_offset)
  with mp that [OF a(1-6)] show thesis by (simp add: m1_def)
qed

lemma map_stack_page:
  assumes en: "pg_is_enabled (vm_pg v)" and d: "paging_active_directory v = d" "page_addr d"
    and e: "entry_get (vm_mem v) d 256 = t OR 7" "page_addr t" "t \<noteq> d" "\<not> pres (entry_get (vm_mem v) t 1)" and f: "page_addr f"
  shows "paging_map_page (PROCESS_USER_STACK_TOP - 0x1000) f USER_PAGE_FLAGS v =
    (True, v\<lparr>vm_mem := entry_set (entry_set (vm_mem v) d 256 (t OR 7)) t 1 (f OR 7)\<rparr>)"
proof -
  note ub = user_entry_bits [OF e(2)]
  define m1 where "m1 = entry_set (vm_mem v) d 256 (t OR 7)"
  have ens: "paging_ensure_table d 256 7 v = (True, v\<lparr>vm_mem := m1\<rparr>)"
    using e(1) ub by (simp add: paging_ensure_table_def m1_def or.assoc)
  have "entry_get m1 d 256 = t OR 7" "entry_get m1 t 1 = entry_get (vm_mem v) t 1"
    using e(2,3) d(2) by (simp_all add: m1_def entry_get_set)
  then show ?thesis
    using en f d(1) ens ub(3) e(4) page_addr_and_high [OF f]
    unfolding paging_map_page_def Let_def user_indices user_page_flags m1_def [symmetric] by (simp add: page_addr_offset)
qed

lemma vm_alloc_ok:
  assumes "pmm_ok (vm_pmm v)" "vm_alloc v = (f, v')" "f \<noteq> 0"
  shows "f \<in> avail_frames (vm_pmm v)" "page_addr f" "pmm_ok (vm_pmm v')"
    "avail_frames (vm_pmm v') = avail_frames (vm_pmm v) - {f}" "pool_frames (vm_pmm v') = pool_frames (vm_pmm v)"
    "vm_pg v' = vm_pg v" "vm_mem v' = vm_mem v"
proof -
  obtain p where p: "pmm_alloc_frame (vm_pmm v) = (f, p)" and v': "v' = v\<lparr>vm_pmm := p\<rparr>"
    using assms(2) by (auto simp: vm_alloc_def split: prod.splits)
  note fr = pmm_frames.alloc_fresh [OF assms(1) p assms(3)]
  show "f \<in> avail_frames (vm_pmm v)" "page_addr f" "pmm_ok (vm_pmm v')"
    "avail_frames (vm_pmm v') = avail_frames (vm_pmm v) - {f}" "pool_frames (vm_pmm v') = pool_frames (vm_pmm v)"
    "vm_pg v' = vm_pg v" "vm_mem v' = vm_mem v"
    using fr(3-5) pmm_frames.alloc_inv [OF assms(1) p] v' by simp_all
qed

text \<open>What the two mappings leave in memory.\<close>

definition user_tables :: "u32 \<Rightarrow> u32 \<Rightarrow> u32 \<Rightarrow> u32 \<Rightarrow> mem \<Rightarrow> mem \<Rightarrow> bool" where
  "user_tables cr3 cf sf t m m' \<longleftrightarrow> same_outside {cr3, t} m m' \<and> entry_get m' cr3 256 = t OR 7 \<and>
     entry_get m' t 0 = cf OR 7 \<and> entry_get m' t 1 = sf OR 7 \<and> (\<forall>i < 1024. 1 < i \<longrightarrow> entry_get m' t i = 0) \<and>
     (\<forall>i < 1024. i \<noteq> 256 \<longrightarrow> entry_get m' cr3 i = entry_get m cr3 i)"

lemma map_user_pages:
  assumes ok: "pmm_ok (vm_pmm v)" and en: "pg_is_enabled (vm_pg v)" and d: "paging_active_directory v = cr3" "page_addr cr3"
    and d': "cr3 \<notin> avail_frames (vm_pmm v)" "\<not> pres (entry_get (vm_mem v) cr3 256)" and f: "page_addr cf" "page_addr sf"
    and m1: "paging_map_page PROCESS_USER_CODE_VADDR cf USER_PAGE_FLAGS v = (True, v6)"
    and m2: "paging_map_page (PROCESS_USER_STACK_TOP - 0x1000) sf USER_PAGE_FLAGS v6 = (True, v7)"
  obtains t where "t \<in> avail_frames (vm_pmm v)" "page_addr t" "t \<noteq> cr3" "pmm_ok (vm_pmm v7)" "vm_pg v7 = vm_pg v"
    "avail_frames (vm_pmm v7) = avail_frames (vm_pmm v) - {t}" "pool_frames (vm_pmm v7) = pool_frames (vm_pmm v)"
    "user_tables cr3 cf sf t (vm_mem v) (vm_mem v7)"
proof -
  obtain t p where t: "t \<in> avail_frames (vm_pmm v)" "page_addr t" "t \<noteq> 0" "pmm_ok p"
    "avail_frames p = avail_frames (vm_pmm v) - {t}" "pool_frames p = pool_frames (vm_pmm v)"
    and v6: "v6 = v\<lparr>vm_pmm := p, vm_mem := entry_set (entry_set (table_fill t (\<lambda>_. 0) (vm_mem v)) cr3 256 (t OR 7)) t 0 (cf OR 7)\<rparr>"
    by (rule map_code_page [OF ok en d d' f(1) m1])
  have tc: "t \<noteq> cr3" using t(1) d'(1) by auto
  define m6 where "m6 = vm_mem v6"
  have g6: "entry_get m6 cr3 256 = t OR 7" "entry_get m6 t 0 = cf OR 7" "\<And>i. i < 1024 \<Longrightarrow> 0 < i \<Longrightarrow> entry_get m6 t i = 0"
    "\<And>i. i < 1024 \<Longrightarrow> i \<noteq> 256 \<Longrightarrow> entry_get m6 cr3 i = entry_get (vm_mem v) cr3 i"
    using t(2) d(2) tc by (simp_all add: m6_def v6 entry_get_set entry_get_fill)
  have s6: "same_outside {cr3, t} (vm_mem v) m6"
    using t(2) d(2) by (auto simp: m6_def v6 same_outside_def entry_get_set entry_get_fill)
  have "paging_active_directory v6 = cr3" using d(1) active_dir_cong [of v6 v] by (simp add: v6)
  moreover have "\<not> pres (entry_get (vm_mem v6) t 1)" using g6(3) [of 1] by (simp add: m6_def)
  ultimately have v7: "v7 = v6\<lparr>vm_mem := entry_set (entry_set m6 cr3 256 (t OR 7)) t 1 (sf OR 7)\<rparr>"
    using map_stack_page [of v6 cr3 t sf] en d(2) g6(1) t(2) tc f(2) m2 by (simp add: m6_def v6)
  have "user_tables cr3 cf sf t (vm_mem v) (entry_set (entry_set m6 cr3 256 (t OR 7)) t 1 (sf OR 7))"
  proof -
    have "same_outside {cr3, t} m6 (entry_set m6 cr3 256 (t OR 7))" using d(2) by (simp add: same_outside_set)
    moreover have "same_outside {cr3, t} (entry_set m6 cr3 256 (t OR 7)) (entry_set (entry_set m6 cr3 256 (t OR 7)) t 1 (sf OR 7))"
      using t(2) by (simp add: same_outside_set)
    ultimately have "same_outside {cr3, t} (vm_mem v) (entry_set (entry_set m6 cr3 256 (t OR 7)) t 1 (sf OR 7))"
      using s6 same_outside_trans by blast
    then show ?thesis using g6 t(2) d(2) tc by (simp add: user_tables_def entry_get_set)
  qed
  with that [of t] t tc show thesis by (simp add: v6 v7)
qed

lemma build_map_pages_ok:
  assumes ok: "pmm_ok (vm_pmm v)" and en: "pg_is_enabled (vm_pg v)"
    and c: "page_addr cr3" "cr3 \<noteq> 0" "cr3 \<notin> avail_frames (vm_pmm v)" "\<not> pres (entry_get (vm_mem v) cr3 256)"
    and b: "build_map_pages cr3 v = ((True, cf, sf, cm, sm), v')"
  obtains t where "{cf, sf, t} \<subseteq> avail_frames (vm_pmm v)" "distinct [cr3, cf, sf, t]" "page_addr t" "pmm_ok (vm_pmm v')"
    "avail_frames (vm_pmm v') = avail_frames (vm_pmm v) - {cf, sf, t}" "pool_frames (vm_pmm v') = pool_frames (vm_pmm v)"
    "vm_pg v' = (vm_pg v)\<lparr>pg_current_dir_phys := cr3\<rparr>" "user_tables cr3 cf sf t (vm_mem v) (vm_mem v')"
proof -
  define v1 where "v1 = paging_switch_directory cr3 v"
  have v1: "v1 = v\<lparr>vm_pg := (vm_pg v)\<lparr>pg_current_dir_phys := cr3\<rparr>\<rparr>"
    using en c(1,2) by (simp add: v1_def paging_switch_directory_def page_addr_offset)
  have act: "paging_active_directory w = cr3" if "vm_pg w = vm_pg v1" for w
    using that c(2) by (simp add: v1 paging_active_directory_def)
  have un: "snd (paging_unmap_page PROCESS_USER_CODE_VADDR v1) = v1" "snd (paging_unmap_page (PROCESS_USER_STACK_TOP - 0x1000) v1) = v1"
    using c(4) act [OF refl] by (intro unmap_absent; simp only: user_indices; simp add: v1)+
  obtain cf' v4 where a1: "vm_alloc v1 = (cf', v4)" by fastforce
  obtain sf' v5 where a2: "vm_alloc v4 = (sf', v5)" by fastforce
  obtain r6 v6 where m1: "paging_map_page PROCESS_USER_CODE_VADDR cf' USER_PAGE_FLAGS v5 = (r6, v6)" by fastforce
  obtain r7 v7 where m2: "paging_map_page (PROCESS_USER_STACK_TOP - 0x1000) sf' USER_PAGE_FLAGS v6 = (r7, v7)" by fastforce
  have f: "cf' \<noteq> 0" "sf' \<noteq> 0" "r6 = True" "r7 = True" and eq: "cf' = cf" "sf' = sf" "v7 = v'"
    using b a1 a2 m1 m2 unfolding build_map_pages_def v1_def [symmetric] un Let_def by (auto split: if_splits bool.splits)
  have ok1: "pmm_ok (vm_pmm v1)" using ok by (simp add: v1)
  note A = vm_alloc_ok [OF ok1 a1 f(1)]
  note B = vm_alloc_ok [OF A(3) a2 f(2)]
  have h: "pg_is_enabled (vm_pg v5)" "cr3 \<notin> avail_frames (vm_pmm v5)" "\<not> pres (entry_get (vm_mem v5) cr3 256)"
    using en c(3,4) A(4,6,7) B(4,6,7) by (auto simp: v1)
  have act5: "paging_active_directory v5 = cr3" using A(6) B(6) by (intro act) simp
  obtain t where t: "t \<in> avail_frames (vm_pmm v5)" "page_addr t" "t \<noteq> cr3" "pmm_ok (vm_pmm v7)" "vm_pg v7 = vm_pg v5"
    "avail_frames (vm_pmm v7) = avail_frames (vm_pmm v5) - {t}" "pool_frames (vm_pmm v7) = pool_frames (vm_pmm v5)"
    "user_tables cr3 cf' sf' t (vm_mem v5) (vm_mem v7)"
    by (rule map_user_pages [OF B(3) h(1) act5 c(1) h(2,3) A(2) B(2) m1 [unfolded f(3)] m2 [unfolded f(4)]])
  have av: "avail_frames (vm_pmm v1) = avail_frames (vm_pmm v)" "pool_frames (vm_pmm v1) = pool_frames (vm_pmm v)" by (simp_all add: v1)
  have sub: "{cf', sf', t} \<subseteq> avail_frames (vm_pmm v)" "distinct [cf', sf', t]" using A(1,4) B(1,4) t(1) av by auto
  then have ne: "distinct [cr3, cf', sf', t]" using c(3) by auto
  have "avail_frames (vm_pmm v7) = avail_frames (vm_pmm v) - {cf', sf', t}" unfolding t(6) B(4) A(4) av by blast
  moreover have "vm_pg v7 = (vm_pg v)\<lparr>pg_current_dir_phys := cr3\<rparr>" using t(5) A(6) B(6) by (simp add: v1)
  moreover have "vm_mem v5 = vm_mem v" using A(7) B(7) by (simp add: v1)
  ultimately show thesis using that [of t] sub(1) ne t(2,4,7,8) A(5) B(5) av(2) unfolding eq by simp
qed

text \<open>The build returns the address space invariant, also after the process has written to its two pages.\<close>

lemma build_user_space:
  assumes ok: "vm_ok D v" "pg_is_enabled (vm_pg v)" "pg_current_dir_phys (vm_pg v) \<in> D" "pg_current_dir_phys (vm_pg v) \<noteq> 0"
    and slot: "\<not> pres (clone_entry (entry_get (vm_mem v) (pg_kernel_dir_phys (vm_pg v)) 256))"
    and cl: "paging_clone_kernel_directory v = (Some cr3, v1)" and b: "build_map_pages cr3 v1 = ((True, cf, sf, cm, sm), v2)"
    and run: "vm_pmm v3 = vm_pmm v2" "vm_pg v3 = vm_pg v" "same_outside {cf, sf} (vm_mem v2) (vm_mem v3)"
  obtains t where "user_space D cr3 cf sf t v3" "avail_frames (vm_pmm v3) \<union> {cr3, cf, sf, t} = avail_frames (vm_pmm v)"
    "user_tables cr3 cf sf t (vm_mem v1) (vm_mem v2)" "page_addr t" "distinct [cr3, cf, sf, t]"
proof -
  note ce = clone_effect [OF ok(1) cl]
  have D: "pg_kernel_dir_phys (vm_pg v) \<in> D" and wf: "pt_wf D (avail_frames (vm_pmm v)) (vm_mem v)" and pok: "pmm_ok (vm_pmm v)"
    using ok(1,2) by (simp_all add: vm_ok_def)
  have h: "pmm_ok (vm_pmm v1)" "pg_is_enabled (vm_pg v1)" "cr3 \<notin> avail_frames (vm_pmm v1)"
    "\<not> pres (entry_get (vm_mem v1) cr3 256)"
    using ce(1,2,8) ce(10) [of 256] ok(2) slot by (auto simp: vm_ok_def)
  obtain t where t: "{cf, sf, t} \<subseteq> avail_frames (vm_pmm v1)" "distinct [cr3, cf, sf, t]" "page_addr t" "pmm_ok (vm_pmm v2)"
    "avail_frames (vm_pmm v2) = avail_frames (vm_pmm v1) - {cf, sf, t}" "pool_frames (vm_pmm v2) = pool_frames (vm_pmm v1)"
    "vm_pg v2 = (vm_pg v1)\<lparr>pg_current_dir_phys := cr3\<rparr>" "user_tables cr3 cf sf t (vm_mem v1) (vm_mem v2)"
    by (rule build_map_pages_ok [OF h(1,2) ce(4,5) h(3,4) b])
  have av: "avail_frames (vm_pmm v3) \<union> {cr3, cf, sf, t} = avail_frames (vm_pmm v)"
    using t(1,5) ce(7,8) run(1) by auto
  have own: "{cr3, cf, sf, t} \<subseteq> pool_frames (vm_pmm v3) - avail_frames (vm_pmm v3)"
    using av t(2,5,6) ce(6,7,8) run(1) pmm_frames.avail_pool [OF pok] by auto
  have so: "same_outside {cr3, cf, sf, t} (vm_mem v1) (vm_mem v3)"
    using t(8) run(3) unfolding user_tables_def same_outside_def by auto
  have "entry_get (vm_mem v1) d i = entry_get (vm_mem v) d i" if "d \<in> D" "i < 1024" for d i using ce(9) that .
  then have "pt_wf D (avail_frames (vm_pmm v)) (vm_mem v1)" by (rule pt_wf_cong [OF wf])
  then have wf3: "pt_wf D (avail_frames (vm_pmm v)) (vm_mem v3)" by (rule same_outside_wf(1) [OF _ so]) (use av in auto)
  have mem: "entry_get (vm_mem v3) cr3 256 = t OR 7" "\<forall>i < 1024. 1 < i \<longrightarrow> \<not> pres (entry_get (vm_mem v3) t i)"
    using t(2,3,8) run(3) ce(4) unfolding user_tables_def same_outside_def by auto
  have "user_space D cr3 cf sf t v3"
    unfolding user_space_def using run(1,2) t(2,4) ok D wf3 own mem av by simp
  then show thesis using that av t(2,3,8) by blast
qed

lemma user_tables_pte:
  assumes "user_tables cr3 cf sf t m m'" "page_addr t" "page_addr cf" "page_addr sf"
  shows "pd_index x = 256 \<Longrightarrow> pte_at m' cr3 x =
      (if pt_index x = 0 then Some (cf OR 7) else if pt_index x = 1 then Some (sf OR 7) else None)"
    and "pd_index x \<noteq> 256 \<Longrightarrow> pres (entry_get m cr3 (pd_index x)) \<longrightarrow> table_of (entry_get m cr3 (pd_index x)) \<notin> {cr3, t} \<Longrightarrow>
      pte_at m' cr3 x = pte_at m cr3 x"
proof -
  note ut = assms(1) [unfolded user_tables_def]
  assume "pd_index x = 256"
  then have e: "entry_get m' cr3 (pd_index x) = t OR 7" using ut by simp
  show "pte_at m' cr3 x = (if pt_index x = 0 then Some (cf OR 7) else if pt_index x = 1 then Some (sf OR 7) else None)"
  proof (cases "pt_index x = 0 \<or> pt_index x = 1")
    case True
    then show ?thesis using ut user_entry_bits [OF assms(2)] user_entry_bits(1) [OF assms(3)] user_entry_bits(1) [OF assms(4)]
      unfolding pte_at_def Let_def e by auto
  next
    case False
    then have "entry_get m' t (pt_index x) = 0" using ut pt_index_less [of x] by auto
    with False show ?thesis using user_entry_bits [OF assms(2)] unfolding pte_at_def Let_def e by simp
  qed
next
  note ut = assms(1) [unfolded user_tables_def]
  assume a: "pd_index x \<noteq> 256" "pres (entry_get m cr3 (pd_index x)) \<longrightarrow> table_of (entry_get m cr3 (pd_index x)) \<notin> {cr3, t}"
  then have e: "entry_get m' cr3 (pd_index x) = entry_get m cr3 (pd_index x)" using ut pd_index_less by blast
  show "pte_at m' cr3 x = pte_at m cr3 x"
  proof (cases "pres (entry_get m cr3 (pd_index x))")
    case True
    then have "entry_get m' (table_of (entry_get m cr3 (pd_index x))) (pt_index x) = entry_get m (table_of (entry_get m cr3 (pd_index x))) (pt_index x)"
      using a(2) ut table_of_page pt_index_less unfolding same_outside_def by blast
    then show ?thesis by (simp add: pte_at_def Let_def e)
  qed (simp add: pte_at_def Let_def e)
qed

section \<open>Properties\<close>

lemma user_page_of:
  "page_of x = page_of PROCESS_USER_CODE_VADDR \<longleftrightarrow> pd_index x = 256 \<and> pt_index x = 0"
  "page_of x = page_of (PROCESS_USER_STACK_TOP - 0x1000) \<longleftrightarrow> pd_index x = 256 \<and> pt_index x = 1"
  using same_page_iff [of x PROCESS_USER_CODE_VADDR] same_page_iff [of x "PROCESS_USER_STACK_TOP - 0x1000"]
  unfolding user_indices by auto

text \<open>
  C2.  Isolation and accounting of address spaces.  Assume that the kernel has no table of its own at the user
  addresses, that is, no identity map above 1 GiB.  A user address space is built from a clone of the kernel
  directory, and the process writes what it likes to its two pages.  Then every existing directory translates
  every address as before, and the new directory has exactly the kernel's non-user mappings and the two user
  pages.  Reaping the process from there restores the set of free frames and all translations.  Reaping it
  from any later state, whatever has happened to other frames and directories while its own four frames
  kept their roles, frees exactly these four frames and changes no translation of another directory.
\<close>

theorem user_space_lifecycle:
  assumes "vm_ok D v" "pg_is_enabled (vm_pg v)" "pg_current_dir_phys (vm_pg v) \<in> D" "pg_current_dir_phys (vm_pg v) \<noteq> 0"
    and "\<not> pres (clone_entry (entry_get (vm_mem v) (pg_kernel_dir_phys (vm_pg v)) 256))"
    and "paging_clone_kernel_directory v = (Some cr3, v1)" and "build_map_pages cr3 v1 = ((True, cf, sf, cm, sm), v2)"
    and "vm_pmm v3 = vm_pmm v2" "vm_pg v3 = vm_pg v" "same_outside {cf, sf} (vm_mem v2) (vm_mem v3)"
    and "pe_cr3 e = cr3" "pe_user_code_frame e = cf" "pe_user_stack_frame e = sf"
  shows "(\<forall>d \<in> D. \<forall>x. pte_at (vm_mem v3) d x = pte_at (vm_mem v) d x) \<and>
    (\<forall>x. pte_at (vm_mem v2) cr3 x =
      (if page_of x = page_of 0x40000000 then Some (cf OR 7) else if page_of x = page_of 0x40001000 then Some (sf OR 7)
       else if entry_get (vm_mem v) (pg_kernel_dir_phys (vm_pg v)) (pd_index x) AND 4 \<noteq> 0 then None
       else pte_at (vm_mem v) (pg_kernel_dir_phys (vm_pg v)) x)) \<and>
    avail_frames (vm_pmm (reap_frames e v3)) = avail_frames (vm_pmm v) \<and> vm_ok D (reap_frames e v3) \<and>
    (\<forall>d \<in> D. \<forall>x. pte_at (vm_mem (reap_frames e v3)) d x = pte_at (vm_mem v) d x) \<and>
    (\<exists>t. user_space D cr3 cf sf t v3 \<and> avail_frames (vm_pmm v) = avail_frames (vm_pmm v3) \<union> {cr3, cf, sf, t} \<and>
      (\<forall>D' v'. user_space D' cr3 cf sf t v' \<longrightarrow>
        avail_frames (vm_pmm (reap_frames e v')) = avail_frames (vm_pmm v') \<union> {cr3, cf, sf, t} \<and> vm_ok D' (reap_frames e v') \<and>
        (\<forall>d \<in> D'. \<forall>x. pte_at (vm_mem (reap_frames e v')) d x = pte_at (vm_mem v') d x)))"
proof -
  let ?kd = "pg_kernel_dir_phys (vm_pg v)"
  obtain t where t: "user_space D cr3 cf sf t v3" "avail_frames (vm_pmm v3) \<union> {cr3, cf, sf, t} = avail_frames (vm_pmm v)"
    and ut: "user_tables cr3 cf sf t (vm_mem v1) (vm_mem v2)" and pt: "page_addr t" "distinct [cr3, cf, sf, t]"
    by (rule build_user_space [OF assms(1-10)])
  note ce = clone_effect [OF assms(1,6)] and rp = reap_frames_ok [OF t(1) assms(11-13)]
  have wf: "pt_wf D (avail_frames (vm_pmm v)) (vm_mem v)" and kd: "?kd \<in> D" and pok: "pmm_ok (vm_pmm v)"
    using assms(1,2) by (simp_all add: vm_ok_def)
  have so: "same_outside {cr3, cf, sf, t} (vm_mem v1) (vm_mem v3)"
    using ut assms(10) unfolding user_tables_def same_outside_def by auto
  have wf1: "pt_wf D (avail_frames (vm_pmm v)) (vm_mem v1)" using ce(9) by (intro pt_wf_cong [OF wf]) simp
  have old: "pte_at (vm_mem v3) d x = pte_at (vm_mem v) d x" if "d \<in> D" for d x
    using same_outside_wf(2) [OF wf1 so _ that] t(2) ce(11) [OF that] by auto
  have pages: "page_addr cf" "page_addr sf"
    using t(1) pmm_frames.pool_pages [of "vm_pmm v3"] by (auto simp: user_space_def)
  have new: "pte_at (vm_mem v2) cr3 x = (if page_of x = page_of 0x40000000 then Some (cf OR 7)
      else if page_of x = page_of 0x40001000 then Some (sf OR 7)
      else if entry_get (vm_mem v) ?kd (pd_index x) AND 4 \<noteq> 0 then None else pte_at (vm_mem v) ?kd x)" for x
  proof (cases "pd_index x = 256")
    case True
    have "entry_get (vm_mem v) ?kd 256 AND 4 \<noteq> 0 \<or> \<not> pres (entry_get (vm_mem v) ?kd 256)"
      using assms(5) by (simp add: clone_entry_def split: if_splits)
    then have "entry_get (vm_mem v) ?kd 256 AND 4 \<noteq> 0 \<or> pte_at (vm_mem v) ?kd x = None" using True by (auto simp: pte_at_def Let_def)
    then show ?thesis using user_tables_pte(1) [OF ut pt(1) pages True] True user_page_of [of x] by auto
  next
    case False
    have "table_of (entry_get (vm_mem v1) cr3 (pd_index x)) \<notin> {cr3, t}" if "pres (entry_get (vm_mem v1) cr3 (pd_index x))"
      using that ce(10) [OF pd_index_less] pt_wfD(4) [OF wf kd pd_index_less] t(2) by (auto simp: clone_entry_def split: if_splits)
    then have "pte_at (vm_mem v2) cr3 x = pte_at (vm_mem v1) cr3 x" by (intro user_tables_pte(2) [OF ut pt(1) pages False]) simp
    then show ?thesis using ce(12) [of x] False user_page_of [of x] by simp
  qed
  have later: "\<forall>D' v'. user_space D' cr3 cf sf t v' \<longrightarrow>
      avail_frames (vm_pmm (reap_frames e v')) = avail_frames (vm_pmm v') \<union> {cr3, cf, sf, t} \<and> vm_ok D' (reap_frames e v') \<and>
      (\<forall>d \<in> D'. \<forall>x. pte_at (vm_mem (reap_frames e v')) d x = pte_at (vm_mem v') d x)"
    using reap_frames_ok [OF _ assms(11-13)] by blast
  show ?thesis
  proof (intro conjI)
    show "\<exists>t. user_space D cr3 cf sf t v3 \<and> avail_frames (vm_pmm v) = avail_frames (vm_pmm v3) \<union> {cr3, cf, sf, t} \<and>
      (\<forall>D' v'. user_space D' cr3 cf sf t v' \<longrightarrow>
        avail_frames (vm_pmm (reap_frames e v')) = avail_frames (vm_pmm v') \<union> {cr3, cf, sf, t} \<and> vm_ok D' (reap_frames e v') \<and>
        (\<forall>d \<in> D'. \<forall>x. pte_at (vm_mem (reap_frames e v')) d x = pte_at (vm_mem v') d x))"
      using t(1) t(2) [symmetric] later by blast
  qed (use old new rp(1) rp(3) rp(4) t(2) in auto)
qed

text \<open>
  C33.  The proviso matters.  With more than 1 GiB of memory the identity map of the kernel covers the user
  addresses, the clone shares that table, and building a process rewrites it: the kernel's own directory then
  maps \<open>0x40000000\<close> to the code frame of the process, no longer to the physical memory there.
\<close>

theorem user_space_clobbers_kernel_map:
  assumes "vm_ok D v" "pg_is_enabled (vm_pg v)" and "pres (clone_entry (entry_get (vm_mem v) (pg_kernel_dir_phys (vm_pg v)) 256))"
    and "paging_clone_kernel_directory v = (Some cr3, v1)" and "build_map_pages cr3 v1 = ((True, cf, sf, cm, sm), v2)"
  shows "pte_at (vm_mem v2) (pg_kernel_dir_phys (vm_pg v)) 0x40000000 = Some (cf OR 7)"
proof -
  let ?kd = "pg_kernel_dir_phys (vm_pg v)" and ?D = "insert cr3 D"
  note ce = clone_effect [OF assms(1,4)]
  have kd: "?kd \<in> D" "?kd \<noteq> cr3" using assms(1,2) ce(3) by (auto simp: vm_ok_def)
  define w where "w = paging_switch_directory cr3 v1"
  have w: "w = v1\<lparr>vm_pg := (vm_pg v1)\<lparr>pg_current_dir_phys := cr3\<rparr>\<rparr>"
    using assms(2) ce(2,4,5) by (simp add: w_def paging_switch_directory_def page_addr_offset)
  have okw: "vm_ok ?D w" using ce(1,2,5) kd by (auto simp: vm_ok_def w paging_active_directory_def)
  have act: "paging_active_directory x = cr3" if "vm_pg x = vm_pg w" for x using that ce(5) by (simp add: w paging_active_directory_def)
  obtain r1 w1 where u1: "paging_unmap_page PROCESS_USER_CODE_VADDR w = (r1, w1)" by fastforce
  note U1 = unmap_page [OF okw u1]
  obtain r2 w2 where u2: "paging_unmap_page (PROCESS_USER_STACK_TOP - 0x1000) w1 = (r2, w2)" by fastforce
  note U2 = unmap_page [OF U1(1) u2]
  obtain cf' w3 where a1: "vm_alloc w2 = (cf', w3)" by fastforce
  obtain sf' w4 where a2: "vm_alloc w3 = (sf', w4)" by fastforce
  obtain r5 w5 where m1: "paging_map_page PROCESS_USER_CODE_VADDR cf' USER_PAGE_FLAGS w4 = (r5, w5)" by fastforce
  obtain r6 w6 where m2: "paging_map_page (PROCESS_USER_STACK_TOP - 0x1000) sf' USER_PAGE_FLAGS w5 = (r6, w6)" by fastforce
  have f: "cf' \<noteq> 0" "sf' \<noteq> 0" "r5" "cf' = cf" "w6 = v2"
    using assms(5) u1 u2 a1 a2 m1 m2 unfolding build_map_pages_def w_def [symmetric] Let_def by (auto split: if_splits bool.splits)
  have ok2: "pmm_ok (vm_pmm w2)" using U2(1) by (simp add: vm_ok_def)
  note A = vm_alloc_ok [OF ok2 a1 f(1)]
  note B = vm_alloc_ok [OF A(3) a2 f(2)]
  have pg: "vm_pg w4 = vm_pg w" "vm_mem w4 = vm_mem w2" using A(6,7) B(6,7) U1(2) U2(2) by simp_all
  have ok4: "vm_ok ?D w4"
    using U2(1) B(3) pg act [OF pg(1)] act [of w2] U1(2) U2(2) pt_wf_avail [of ?D "avail_frames (vm_pmm w2)" "vm_mem w2" "avail_frames (vm_pmm w4)"] A(4) B(4)
    by (auto simp: vm_ok_def)
  have dirs: "entry_get (vm_mem w4) d 256 = entry_get (vm_mem v1) d 256" if "d \<in> ?D" for d
    using U1(7) [OF that, of 256] U2(7) [OF that, of 256] pg(2) by (simp add: w)
  have "entry_get (vm_mem v1) ?kd 256 = entry_get (vm_mem v) ?kd 256" "entry_get (vm_mem v1) cr3 256 = entry_get (vm_mem v) ?kd 256"
    using ce(9) [OF kd(1), of 256] ce(10) [of 256] assms(3) by (simp_all add: clone_entry_def split: if_splits)
  then have sh: "shares (vm_mem w4) cr3 ?kd 256"
    using assms(3) dirs [of cr3] dirs [of ?kd] kd(1) by (simp add: shares_def clone_entry_def split: if_splits)
  note M1 = map_page [OF ok4 m1]
  note M2 = map_page(6) [OF M1(1) m2, of ?kd PROCESS_USER_CODE_VADDR]
  have "pte_at (vm_mem w5) ?kd PROCESS_USER_CODE_VADDR = Some (cf' OR ((USER_PAGE_FLAGS OR 1) AND 0xFFF))"
    using M1(6) [of ?kd PROCESS_USER_CODE_VADDR] f(3) sh act [OF pg(1)] kd(1) unfolding user_indices by simp
  moreover have "page_of PROCESS_USER_CODE_VADDR \<noteq> page_of (PROCESS_USER_STACK_TOP - 0x1000)" by (simp add: page_of_def)
  ultimately show ?thesis using M2 f kd(1) by (simp add: user_page_flags)
qed

subsection \<open>Instances\<close>

text \<open>Three frames are enough to build the pages.\<close>

lemma build_succeeds:
  assumes ok: "vm_ok D v" "cr3 \<in> D" and en: "pg_is_enabled (vm_pg v)" and cr3: "cr3 \<noteq> 0" and fr: "3 \<le> card (avail_frames (vm_pmm v))"
  obtains cf sf v' where "build_map_pages cr3 v = ((True, cf, sf, True, True), v')"
proof -
  have pa: "page_addr cr3" using ok pt_wfD(1) [of D _ _ cr3] by (auto simp: vm_ok_def)
  define w where "w = paging_switch_directory cr3 v"
  have w: "w = v\<lparr>vm_pg := (vm_pg v)\<lparr>pg_current_dir_phys := cr3\<rparr>\<rparr>"
    using en cr3 pa by (simp add: w_def paging_switch_directory_def page_addr_offset)
  have act: "paging_active_directory x = cr3" if "vm_pg x = vm_pg w" for x using that cr3 by (simp add: w paging_active_directory_def)
  have okw: "vm_ok D w" using ok en cr3 by (auto simp: vm_ok_def w paging_active_directory_def)
  obtain r1 w1 where u1: "paging_unmap_page PROCESS_USER_CODE_VADDR w = (r1, w1)" by fastforce
  note U1 = unmap_page [OF okw u1]
  obtain r2 w2 where u2: "paging_unmap_page (PROCESS_USER_STACK_TOP - 0x1000) w1 = (r2, w2)" by fastforce
  note U2 = unmap_page [OF U1(1) u2]
  have pg2: "vm_pg w2 = vm_pg w" "vm_pmm w2 = vm_pmm v" using U1(2,3) U2(2,3) by (simp_all add: w)
  have none1: "pte_at (vm_mem w1) cr3 PROCESS_USER_CODE_VADDR = None"
    using U1(4,5) U1(6) [OF ok(2), of PROCESS_USER_CODE_VADDR] act [OF refl] en by (cases r1) (auto simp: w)
  have none: "pte_at (vm_mem w2) cr3 PROCESS_USER_CODE_VADDR = None" "pte_at (vm_mem w2) cr3 (PROCESS_USER_STACK_TOP - 0x1000) = None"
    using U2(4,5) U2(6) [OF ok(2)] act [OF U1(2)] none1 en U1(2) by (cases r2; auto simp: w)+
  have fin: "finite (avail_frames (vm_pmm v))" using fr card.infinite by fastforce
  have ok2: "pmm_ok (vm_pmm w2)" using U2(1) by (simp add: vm_ok_def)
  obtain cf w3 where a1: "vm_alloc w2 = (cf, w3)" by fastforce
  have cf: "cf \<noteq> 0" using a1 pmm_frames.alloc_zero_iff [OF ok2] fr pg2(2) by (auto simp: vm_alloc_def split: prod.splits)
  note A = vm_alloc_ok [OF ok2 a1 cf]
  have c3: "2 \<le> card (avail_frames (vm_pmm w3))" using A(1,4) fr fin pg2(2) by simp
  obtain sf w4 where a2: "vm_alloc w3 = (sf, w4)" by fastforce
  have sf: "sf \<noteq> 0" using a2 pmm_frames.alloc_zero_iff [OF A(3)] c3 by (auto simp: vm_alloc_def split: prod.splits)
  note B = vm_alloc_ok [OF A(3) a2 sf]
  have "1 \<le> card (avail_frames (vm_pmm w4))" using B(1,4) c3 card.infinite by (cases "finite (avail_frames (vm_pmm w3))") auto
  then have av: "avail_frames (vm_pmm w4) \<noteq> {}" by auto
  have pg: "vm_pg w4 = vm_pg w" "vm_mem w4 = vm_mem w2" using A(6,7) B(6,7) pg2 by simp_all
  have ok4: "vm_ok D w4"
    using U2(1) B(3) pg act [OF pg(1)] act [OF pg2(1)] pg2 pt_wf_avail [of D "avail_frames (vm_pmm w2)" "vm_mem w2" "avail_frames (vm_pmm w4)"] A(4) B(4)
    by (auto simp: vm_ok_def)
  obtain r5 w5 where m1: "paging_map_page PROCESS_USER_CODE_VADDR cf USER_PAGE_FLAGS w4 = (r5, w5)" by fastforce
  note M1 = map_page [OF ok4 m1]
  have r5: "r5" using M1(5) none(1) av pg en A(2) act [OF pg(1)] by (simp add: page_addr_offset w)
  obtain r6 w6 where m2: "paging_map_page (PROCESS_USER_STACK_TOP - 0x1000) sf USER_PAGE_FLAGS w5 = (r6, w6)" by fastforce
  note M2 = map_page(5) [OF M1(1) m2]
  have ne: "page_of (PROCESS_USER_STACK_TOP - 0x1000) \<noteq> page_of PROCESS_USER_CODE_VADDR" by (simp add: page_of_def)
  have "pte_at (vm_mem w5) cr3 PROCESS_USER_CODE_VADDR \<noteq> None" "pte_at (vm_mem w5) cr3 (PROCESS_USER_STACK_TOP - 0x1000) = None"
    using M1(6) [OF ok(2)] r5 act [OF pg(1)] none(2) pg(2) ne by simp_all
  moreover from this(1) have "pres (entry_get (vm_mem w5) cr3 256)" by (auto simp: pte_at_def Let_def user_indices split: if_splits)
  moreover have "paging_active_directory w5 = cr3" "vm_pg w5 = vm_pg w" using M1(2) pg(1) by (auto intro: act)
  ultimately have "r6" using M2 en B(2) unfolding user_indices by (simp add: page_addr_offset w)
  then show thesis
    using that u1 u2 a1 a2 cf sf m1 m2 r5 unfolding build_map_pages_def w_def [symmetric] Let_def by simp
qed

text \<open>Eight free frames from 0x200000 on.\<close>

definition demo_pmm :: pmm where
  "demo_pmm = \<lparr>pmm_region_start = (replicate 32 0)[0 := 0x200000], pmm_region_end = (replicate 32 0)[0 := 0x208000],
     pmm_region_count = 1, pmm_total = 8, pmm_used = 0, pmm_bitmap = (\<lambda>w. if w = 16 then 0xFFFFFF00 else 0xFFFFFFFF),
     pmm_hint_frame = 0, pmm_highest_end = 0x208000, pmm_initialized = True\<rparr>"

lemma demo_pmm_sets: "free_set demo_pmm = {512..<520}" "region_set demo_pmm = {512..<520}"
proof -
  have "bit (0xFFFFFF00 :: u32) k \<longleftrightarrow> 8 \<le> k" "bit (0xFFFFFFFF :: u32) k" if "k < 32" for k
  proof -
    have e: "(0xFFFFFF00 :: u32) = NOT (mask 8)" "(0xFFFFFFFF :: u32) = mask 32" by (simp_all add: mask_eq_exp_minus_1)
    show "bit (0xFFFFFF00 :: u32) k \<longleftrightarrow> 8 \<le> k" "bit (0xFFFFFFFF :: u32) k"
      using that unfolding e by (simp_all add: bit_simps not_less del: mask_numeral)
  qed
  then have "taken demo_pmm n \<longleftrightarrow> \<not> (n div 32 = 16 \<and> n mod 32 < 8)" for n by (simp add: taken_def demo_pmm_def not_less)
  moreover have "n div 32 = 16 \<and> n mod 32 < 8 \<longleftrightarrow> n \<in> {512..<520}" for n :: nat
  proof -
    have "q = 16 \<and> r < 8 \<longleftrightarrow> 512 \<le> 32 * q + r \<and> 32 * q + r < 520" if "r < 32" for q r :: nat
      using that by (cases "q = 16"; cases "q < 16") auto
    from this [of "n mod 32" "n div 32"] show ?thesis by simp
  qed
  ultimately have t: "taken demo_pmm n \<longleftrightarrow> n \<notin> {512..<520}" for n by simp
  show "free_set demo_pmm = {512..<520}" unfolding free_set_def t by auto
  have "pmm_frame_in_regions demo_pmm (of_nat n * 4096) \<longleftrightarrow> n \<in> {512..<520}" if "n < PMM_MAX_FRAMES" for n
    using unat_frame_addr [OF that] by (auto simp: in_regions_iff demo_pmm_def word_le_nat_alt word_less_nat_alt)
  then show "region_set demo_pmm = {512..<520}" by (auto simp: region_set_def)
qed

lemma demo_pmm_ok: "pmm_ok demo_pmm" "card (avail_frames demo_pmm) = 8" "f \<in> avail_frames demo_pmm \<Longrightarrow> 0x200000 \<le> f \<and> f < 0x208000"
proof -
  show "pmm_ok demo_pmm" unfolding pmm_ok_def pmm_inv_def demo_pmm_sets by (simp add: demo_pmm_def)
  have "inj_on frame_addr {512..<520}" by (rule inj_on_subset [OF frame_addr_inj]) auto
  then show "card (avail_frames demo_pmm) = 8" unfolding avail_frames_def demo_pmm_sets by (simp add: card_image)
  assume "f \<in> avail_frames demo_pmm"
  then obtain n where "n \<in> {512..<520}" "f = of_nat n * 4096" unfolding avail_frames_def demo_pmm_sets frame_addr_def by auto
  then show "0x200000 \<le> f \<and> f < 0x208000" using unat_frame_addr [of n] by (auto simp: word_le_nat_alt word_less_nat_alt)
qed

text \<open>A kernel directory at 0x100000, empty but for slot 256.\<close>

definition demo_space :: "u32 \<Rightarrow> vm" where
  "demo_space e = (demo_vm demo_pmm)\<lparr>vm_mem := entry_set (\<lambda>_. 0) 0x100000 256 e\<rparr>"

lemma demo_space:
  assumes "e = 0 \<or> e = 0x300003"
  shows "vm_ok {0x100000} (demo_space e)" "entry_get (vm_mem (demo_space e)) 0x100000 256 = e"
    "pg_kernel_dir_phys (vm_pg (demo_space e)) = 0x100000" "pg_current_dir_phys (vm_pg (demo_space e)) = 0x100000"
    "pg_is_enabled (vm_pg (demo_space e))" "vm_pmm (demo_space e) = demo_pmm"
proof -
  have pa: "page_addr 0x100000" by (simp add: page_addr_def)
  have "entry_get (\<lambda>_. 0) t i = 0" for t i by (simp add: entry_get_def load32_def)
  then have d: "entry_get (vm_mem (demo_space e)) 0x100000 i = (if i = 256 then e else 0)" if "i < 1024" for i
    using pa that by (simp add: demo_space_def entry_get_set)
  then show "entry_get (vm_mem (demo_space e)) 0x100000 256 = e" by simp
  have "0x100000 \<notin> avail_frames demo_pmm" "0x300000 \<notin> avail_frames demo_pmm" using demo_pmm_ok(3) by fastforce+
  then show "vm_ok {0x100000} (demo_space e)"
    using assms demo_pmm_ok(1) pa d by (auto simp: vm_ok_def pt_wf_def demo_space_def demo_vm_def paging_active_directory_def)
qed (simp_all add: demo_space_def demo_vm_def)

lemma demo_build:
  assumes "e = 0 \<or> e = 0x300003"
  obtains cr3 v1 cf sf v2 where "paging_clone_kernel_directory (demo_space e) = (Some cr3, v1)"
    "build_map_pages cr3 v1 = ((True, cf, sf, True, True), v2)"
proof -
  note d = demo_space [OF assms]
  obtain cr3 v1 where c: "paging_clone_kernel_directory (demo_space e) = (Some cr3, v1)"
    by (rule clone_cases [OF d(1,5)]) (use demo_pmm_ok(2) d(6) in auto)
  note ce = clone_effect [OF d(1) c]
  have fin: "finite (avail_frames demo_pmm)" using demo_pmm_ok(2) card.infinite by fastforce
  then have "3 \<le> card (avail_frames (vm_pmm v1))" using ce(7,8) d(6) demo_pmm_ok(2) by simp
  then obtain cf sf v2 where "build_map_pages cr3 v1 = ((True, cf, sf, True, True), v2)"
    using build_succeeds [OF ce(1) _ _ ce(5)] ce(2) d(5) by (metis insertI1)
  with that c show thesis by blast
qed

theorem user_space_lifecycle_witness:
  "\<exists>cr3 v1 cf sf v2 e. paging_clone_kernel_directory (demo_space 0) = (Some cr3, v1) \<and>
     build_map_pages cr3 v1 = ((True, cf, sf, True, True), v2) \<and> pte_at (vm_mem v2) cr3 0x40000000 = Some (cf OR 7) \<and>
     avail_frames (vm_pmm (reap_frames e (v2\<lparr>vm_pg := vm_pg (demo_space 0)\<rparr>))) = avail_frames demo_pmm"
proof -
  obtain cr3 v1 cf sf v2 where b: "paging_clone_kernel_directory (demo_space 0) = (Some cr3, v1)"
    "build_map_pages cr3 v1 = ((True, cf, sf, True, True), v2)" by (rule demo_build [of 0]) simp_all
  note d = demo_space [of 0, simplified]
  define e where "e = (pt_table demo_procs ! 0)\<lparr>pe_cr3 := cr3, pe_user_code_frame := cf, pe_user_stack_frame := sf\<rparr>"
  have "pte_at (vm_mem v2) cr3 0x40000000 = Some (cf OR 7) \<and>
      avail_frames (vm_pmm (reap_frames e (v2\<lparr>vm_pg := vm_pg (demo_space 0)\<rparr>))) = avail_frames demo_pmm"
    using user_space_lifecycle [OF d(1,5) _ _ _ b, of "v2\<lparr>vm_pg := vm_pg (demo_space 0)\<rparr>" e] d
    by (simp add: e_def clone_entry_def)
  with b show ?thesis by blast
qed

theorem user_space_clobbers_kernel_map_witness:
  "\<exists>cr3 v1 cf sf v2. paging_clone_kernel_directory (demo_space 0x300003) = (Some cr3, v1) \<and>
     build_map_pages cr3 v1 = ((True, cf, sf, True, True), v2) \<and> pte_at (vm_mem v2) 0x100000 0x40000000 = Some (cf OR 7) \<and>
     pte_at (vm_mem (demo_space 0x300003)) 0x100000 0x40000000 \<noteq> Some (cf OR 7)"
proof -
  obtain cr3 v1 cf sf v2 where b: "paging_clone_kernel_directory (demo_space 0x300003) = (Some cr3, v1)"
    "build_map_pages cr3 v1 = ((True, cf, sf, True, True), v2)" by (rule demo_build [of "0x300003"]) simp_all
  note d = demo_space [of "0x300003", simplified]
  have pa: "page_addr 0x100000" "page_addr 0x300000" by (simp_all add: page_addr_def)
  have "entry_get (\<lambda>_. 0) t i = 0" for t i by (simp add: entry_get_def load32_def)
  then have "entry_get (vm_mem (demo_space 0x300003)) 0x300000 0 = 0" using pa by (simp add: demo_space_def entry_get_set)
  then have "pte_at (vm_mem (demo_space 0x300003)) 0x100000 0x40000000 = None"
    using d(2) by (simp add: pte_at_def user_indices)
  moreover have "pte_at (vm_mem v2) 0x100000 0x40000000 = Some (cf OR 7)"
    using user_space_clobbers_kernel_map [OF d(1,5) _ b] d by (simp add: clone_entry_def)
  ultimately show ?thesis using b by auto
qed

end
