(* ===== verification/Console.thy ===== *)
theory Console
  imports Mars_Prelude
begin

text \<open>
  The output devices.  \<open>vga.c\<close>: the text buffer at 0xB8000 as a function of the cell index (so that a
  write outside the 2000 cells of the screen shows), the cursor, printing of texts and numbers.  The
  specification is a terminal whose screen is a list of 25 rows; \<open>vga_abs\<close> relates the two.
  \<open>serial.c\<close>: the UART as a stream of line status values that the driver polls and the log of port
  writes; a wait that never ends is the value None.
\<close>

section \<open>The text screen\<close>

abbreviation VGA_WIDTH :: u32 where "VGA_WIDTH \<equiv> 80"
abbreviation VGA_HEIGHT :: u32 where "VGA_HEIGHT \<equiv> 25"

record vga =
  vg_cells :: "u32 \<Rightarrow> u16"
  vg_row :: u32
  vg_col :: u32

definition vga_color :: u8 where "vga_color = 0x07"

definition vga_cell :: "char \<Rightarrow> u16" where
  "vga_cell c = push_bit 8 (ucast vga_color) OR of_char c"

definition vga_set :: "u32 \<Rightarrow> u16 \<Rightarrow> vga \<Rightarrow> vga" where
  "vga_set i v s = s\<lparr>vg_cells := (vg_cells s)(i := v)\<rparr>"

definition scroll_cell :: "nat \<Rightarrow> nat \<Rightarrow> vga \<Rightarrow> vga" where
  "scroll_cell row col t =
     vga_set ((of_nat row - 1) * VGA_WIDTH + of_nat col) (vg_cells t (of_nat row * VGA_WIDTH + of_nat col)) t"

definition vga_scroll :: "vga \<Rightarrow> vga" where
  "vga_scroll s =
     (let s1 = fold (\<lambda>row. fold (scroll_cell row) [0..<80]) [1..<25] s
      in fold (\<lambda>col. vga_set ((VGA_HEIGHT - 1) * VGA_WIDTH + of_nat col) (vga_cell CHR '' '')) [0..<80] s1)"

definition vga_newline :: "vga \<Rightarrow> vga" where
  "vga_newline s =
     (let s1 = s\<lparr>vg_col := 0, vg_row := vg_row s + 1\<rparr> in
      if vg_row s1 \<ge> VGA_HEIGHT then (vga_scroll s1)\<lparr>vg_row := VGA_HEIGHT - 1\<rparr> else s1)"

definition vga_backspace :: "vga \<Rightarrow> vga" where
  "vga_backspace s =
     (if vg_col s = 0 \<and> vg_row s = 0 then s
      else let s1 = (if vg_col s = 0 then s\<lparr>vg_row := vg_row s - 1, vg_col := VGA_WIDTH\<rparr> else s);
               s2 = s1\<lparr>vg_col := vg_col s1 - 1\<rparr>
           in vga_set (vg_row s2 * VGA_WIDTH + vg_col s2) (vga_cell CHR '' '') s2)"

definition vga_putc :: "char \<Rightarrow> vga \<Rightarrow> vga" where
  "vga_putc c s =
     (if c = CHR 0x0A then vga_newline s
      else if c = CHR 0x08 then vga_backspace s
      else let s1 = (if vg_col s \<ge> VGA_WIDTH then vga_newline s else s);
               idx = vg_row s1 * VGA_WIDTH + vg_col s1
           in (vga_set idx (vga_cell c) s1)\<lparr>vg_col := vg_col s1 + 1\<rparr>)"

definition vga_puts :: "string \<Rightarrow> vga \<Rightarrow> vga" where
  "vga_puts t = fold vga_putc (cstr t)"

definition hex_digits :: string where "hex_digits = ''0123456789ABCDEF''"

definition vga_put_hex32 :: "u32 \<Rightarrow> vga \<Rightarrow> vga" where
  "vga_put_hex32 value s =
     fold (\<lambda>shift. vga_putc (hex_digits ! unat (drop_bit shift value AND 0xF))) [28, 24, 20, 16, 12, 8, 4, 0] (vga_puts ''0x'' s)"

definition vga_put_hex64 :: "u64 \<Rightarrow> vga \<Rightarrow> vga" where
  "vga_put_hex64 value s =
     fold (\<lambda>shift. vga_putc (hex_digits ! unat (ucast (drop_bit shift value AND 0xF) :: u8)))
       [60, 56, 52, 48, 44, 40, 36, 32, 28, 24, 20, 16, 12, 8, 4, 0] (vga_puts ''0x'' s)"

text \<open>
  The digits of a decimal number go into \<open>buf[10]\<close> from the least significant on.  The buffer is a
  function of the index, so that the model would also show a digit stored past its end.
\<close>

function dec_loop :: "u32 \<Rightarrow> nat \<Rightarrow> (nat \<Rightarrow> char) \<Rightarrow> nat \<times> (nat \<Rightarrow> char)" where
  "dec_loop value i buf =
     (if value > 0 then dec_loop (value div 10) (i + 1) (buf(i := char_of (48 + unat (value mod 10)))) else (i, buf))"
  by pat_completeness auto
termination
  by (relation "measure (\<lambda>(v, i, b). unat v)") (auto simp: unat_div unat_gt_0)

declare dec_loop.simps [simp del]

definition vga_put_dec32 :: "u32 \<Rightarrow> vga \<Rightarrow> vga" where
  "vga_put_dec32 value s =
     (if value = 0 then vga_putc CHR ''0'' s
      else let (i, buf) = dec_loop value 0 (\<lambda>_. NUL) in fold vga_putc (rev (map buf [0..<i])) s)"

definition vga_clear :: "vga \<Rightarrow> vga" where
  "vga_clear s = (fold (\<lambda>i. vga_set (of_nat i) (vga_cell CHR '' '')) [0..<2000] s)\<lparr>vg_row := 0, vg_col := 0\<rparr>"

section \<open>The terminal\<close>

record terminal =
  te_rows :: "u16 list list"
  te_row :: nat
  te_col :: nat

abbreviation blank :: u16 where "blank \<equiv> vga_cell CHR '' ''"

definition te_newline :: "terminal \<Rightarrow> terminal" where
  "te_newline t =
     (if te_row t + 1 < 25 then t\<lparr>te_row := te_row t + 1, te_col := 0\<rparr>
      else t\<lparr>te_rows := tl (te_rows t) @ [replicate 80 blank], te_row := 24, te_col := 0\<rparr>)"

definition te_put :: "nat \<Rightarrow> nat \<Rightarrow> u16 \<Rightarrow> u16 list list \<Rightarrow> u16 list list" where
  "te_put r k v rows = rows[r := (rows ! r)[k := v]]"

definition te_back :: "terminal \<Rightarrow> terminal" where
  "te_back t =
     (if te_col t = 0 \<and> te_row t = 0 then t
      else let (r, k) = (if te_col t = 0 then (te_row t - 1, 79) else (te_row t, te_col t - 1))
           in t\<lparr>te_rows := te_put r k blank (te_rows t), te_row := r, te_col := k\<rparr>)"

definition te_putc :: "char \<Rightarrow> terminal \<Rightarrow> terminal" where
  "te_putc c t =
     (if c = CHR 0x0A then te_newline t
      else if c = CHR 0x08 then te_back t
      else let t1 = (if te_col t = 80 then te_newline t else t)
           in t1\<lparr>te_rows := te_put (te_row t1) (te_col t1) (vga_cell c) (te_rows t1), te_col := te_col t1 + 1\<rparr>)"

definition cell_at :: "vga \<Rightarrow> nat \<Rightarrow> nat \<Rightarrow> u16" where
  "cell_at s r k = vg_cells s (of_nat (80 * r + k))"

definition vga_abs :: "vga \<Rightarrow> terminal" where
  "vga_abs s = \<lparr>te_rows = map (\<lambda>r. map (cell_at s r) [0..<80]) [0..<25], te_row = unat (vg_row s), te_col = unat (vg_col s)\<rparr>"

definition vga_inv :: "vga \<Rightarrow> bool" where
  "vga_inv s \<longleftrightarrow> vg_row s < VGA_HEIGHT \<and> vg_col s \<le> VGA_WIDTH"

definition offscreen_same :: "vga \<Rightarrow> vga \<Rightarrow> bool" where
  "offscreen_same s s' \<longleftrightarrow> (\<forall>i \<ge> 2000. vg_cells s' i = vg_cells s i)"

subsection \<open>Writes to cells\<close>

lemma vga_set_simps [simp]:
  "vg_row (vga_set i v s) = vg_row s" "vg_col (vga_set i v s) = vg_col s"
  by (simp_all add: vga_set_def)

lemma cell_at_cursor [simp]: "cell_at (s\<lparr>vg_row := r\<rparr>) = cell_at s" "cell_at (s\<lparr>vg_col := c\<rparr>) = cell_at s"
  by (simp_all add: cell_at_def fun_eq_iff)

lemma grid_eq: "k < 80 \<Longrightarrow> k' < 80 \<Longrightarrow> 80 * r + k = 80 * r' + k' \<longleftrightarrow> r = r' \<and> k = (k' :: nat)"
proof
  assume k: "k < 80" "k' < 80" and e: "80 * r + k = 80 * r' + k'"
  from e have "(80 * r + k) div 80 = (80 * r' + k') div 80" by simp
  with k have "r = r'" by simp
  with e show "r = r' \<and> k = k'" by simp
qed auto

lemma cell_set:
  assumes "r < 25" "k < 80" "r' < 25" "k' < 80"
  shows "cell_at (vga_set (of_nat (80 * r' + k')) v s) r k = (if r = r' \<and> k = k' then v else cell_at s r k)"
  using assms of_nat_u32_eq [of "80 * r + k" "80 * r' + k'"] grid_eq [of k k' r r']
  by (simp add: cell_at_def vga_set_def del: of_nat_add of_nat_mult)

lemma unat_grid: "n < 2000 \<Longrightarrow> unat (of_nat n :: u32) = n"
  by (simp add: unat_of_nat)

lemma offscreen_set: "n < 2000 \<Longrightarrow> offscreen_same s (vga_set (of_nat n) v s)"
  using unat_grid [of n] by (auto simp: offscreen_same_def vga_set_def word_le_nat_alt)

lemma offscreen_refl: "offscreen_same s s"
  by (simp add: offscreen_same_def)

lemma offscreen_trans: "offscreen_same s t \<Longrightarrow> offscreen_same t u \<Longrightarrow> offscreen_same s u"
  by (simp add: offscreen_same_def)

lemma offscreen_cursor [simp]: "offscreen_same s (t\<lparr>vg_row := r\<rparr>) = offscreen_same s t" "offscreen_same s (t\<lparr>vg_col := c\<rparr>) = offscreen_same s t"
  "offscreen_same (s\<lparr>vg_row := r\<rparr>) t = offscreen_same s t" "offscreen_same (s\<lparr>vg_col := c\<rparr>) t = offscreen_same s t"
  by (simp_all add: offscreen_same_def)

text \<open>Filling a row from values that the loop does not overwrite.\<close>

definition row_filled :: "nat \<Rightarrow> nat \<Rightarrow> (nat \<Rightarrow> u16) \<Rightarrow> vga \<Rightarrow> vga \<Rightarrow> bool" where
  "row_filled r n f s t \<longleftrightarrow> vg_row t = vg_row s \<and> vg_col t = vg_col s \<and> offscreen_same s t \<and>
     (\<forall>r' < 25. \<forall>k < 80. cell_at t r' k = (if r' = r \<and> k < n then f k else cell_at s r' k))"

lemma row_filled_0: "row_filled r 0 f s s"
  by (simp add: row_filled_def offscreen_refl)

lemma row_filled_Suc:
  assumes "row_filled r n f s t" "r < 25" "n < 80" "v = f n"
  shows "row_filled r (Suc n) f s (vga_set (of_nat (80 * r + n)) v t)"
proof -
  have o: "offscreen_same t (vga_set (of_nat (80 * r + n)) v t)" using assms by (intro offscreen_set) linarith
  have "cell_at (vga_set (of_nat (80 * r + n)) v t) r' k = (if r' = r \<and> k < Suc n then f k else cell_at s r' k)"
    if "r' < 25" "k < 80" for r' k
    using that assms cell_set [OF that assms(2,3), of v t] by (auto simp: row_filled_def less_Suc_eq simp del: of_nat_add of_nat_mult)
  with o assms(1) show ?thesis using offscreen_trans [of s t] by (simp add: row_filled_def del: of_nat_add of_nat_mult)
qed

lemma scroll_row:
  assumes "1 \<le> r" "r < 25" "n \<le> 80"
  shows "row_filled (r - 1) n (cell_at s r) s (fold (scroll_cell r) [0..<n] s)"
  using assms(3)
proof (induction n)
  case 0
  then show ?case by (simp add: row_filled_0)
next
  case (Suc n)
  define t where "t = fold (scroll_cell r) [0..<n] s"
  have ih: "row_filled (r - 1) n (cell_at s r) s t" using Suc by (simp add: t_def)
  have i: "(of_nat r - 1) * VGA_WIDTH + of_nat n = of_nat (80 * (r - 1) + n)" "of_nat r * VGA_WIDTH + of_nat n = of_nat (80 * r + n)"
    using assms(1) by (simp_all add: of_nat_diff mult.commute)
  have "scroll_cell r n t = vga_set (of_nat (80 * (r - 1) + n)) (cell_at t r n) t"
    unfolding scroll_cell_def i cell_at_def ..
  moreover have "cell_at t r n = cell_at s r n" using ih assms Suc.prems by (auto simp: row_filled_def)
  moreover have "r - 1 < 25" "n < 80" using assms Suc.prems by simp_all
  ultimately have "row_filled (r - 1) (Suc n) (cell_at s r) s (scroll_cell r n t)"
    by (simp only: row_filled_Suc [OF ih])
  then show ?case by (simp add: t_def)
qed

lemma fill_row:
  assumes "r < 25" "n \<le> 80"
  shows "row_filled r n (\<lambda>_. v) s (fold (\<lambda>col. vga_set (of_nat r * VGA_WIDTH + of_nat col) v) [0..<n] s)"
  using assms(2)
proof (induction n)
  case 0
  then show ?case by (simp add: row_filled_0)
next
  case (Suc n)
  have i: "of_nat r * VGA_WIDTH + of_nat n = (of_nat (80 * r + n) :: u32)" by (simp add: mult.commute)
  show ?case using row_filled_Suc [of r n "\<lambda>_. v" s _ v] Suc assms(1) unfolding i [symmetric] by simp
qed

lemma scroll_rows:
  assumes "1 \<le> m" "m \<le> 25"
  shows "let t = fold (\<lambda>row. fold (scroll_cell row) [0..<80]) [1..<m] s in
    vg_row t = vg_row s \<and> vg_col t = vg_col s \<and> offscreen_same s t \<and>
    (\<forall>r < 25. \<forall>k < 80. cell_at t r k = (if r + 1 < m then cell_at s (r + 1) k else cell_at s r k))"
  using assms
proof (induction m rule: nat_induct_at_least)
  case base
  then show ?case by (simp add: offscreen_refl)
next
  case (Suc m)
  define u where "u = fold (\<lambda>row. fold (scroll_cell row) [0..<80]) [1..<m] s"
  define t where "t = fold (scroll_cell m) [0..<80] u"
  have ih: "vg_row u = vg_row s" "vg_col u = vg_col s" "offscreen_same s u"
    "\<And>r k. r < 25 \<Longrightarrow> k < 80 \<Longrightarrow> cell_at u r k = (if r + 1 < m then cell_at s (r + 1) k else cell_at s r k)"
    using Suc by (simp_all add: u_def Let_def)
  have f: "row_filled (m - 1) 80 (cell_at u m) u t" unfolding t_def using scroll_row [of m 80 u] Suc by simp
  have "cell_at t r k = (if r + 1 < Suc m then cell_at s (r + 1) k else cell_at s r k)" if "r < 25" "k < 80" for r k
    using f that ih(4) [OF that] ih(4) [of m k] Suc by (cases "r + 1 = m") (auto simp: row_filled_def)
  moreover have "offscreen_same s t" using f ih(3) offscreen_trans by (auto simp: row_filled_def)
  moreover have "fold (\<lambda>row. fold (scroll_cell row) [0..<80]) [1..<Suc m] s = t" using Suc by (simp add: t_def u_def)
  ultimately show ?case using f ih(1,2) by (simp add: row_filled_def Let_def)
qed

lemma vga_scroll_cells:
  "vg_row (vga_scroll s) = vg_row s" "vg_col (vga_scroll s) = vg_col s" "offscreen_same s (vga_scroll s)"
  "r < 25 \<Longrightarrow> k < 80 \<Longrightarrow> cell_at (vga_scroll s) r k = (if r < 24 then cell_at s (r + 1) k else blank)"
proof -
  define t where "t = fold (\<lambda>row. fold (scroll_cell row) [0..<80]) [1..<25] s"
  have t: "vg_row t = vg_row s" "vg_col t = vg_col s" "offscreen_same s t"
    "\<And>r k. r < 25 \<Longrightarrow> k < 80 \<Longrightarrow> cell_at t r k = (if r + 1 < 25 then cell_at s (r + 1) k else cell_at s r k)"
    using scroll_rows [of 25 s] by (simp_all add: t_def Let_def)
  have e: "vga_scroll s = fold (\<lambda>col. vga_set (of_nat 24 * VGA_WIDTH + of_nat col) blank) [0..<80] t"
    by (simp add: vga_scroll_def t_def)
  have f: "row_filled 24 80 (\<lambda>_. blank) t (vga_scroll s)" unfolding e by (rule fill_row) simp_all
  then show "vg_row (vga_scroll s) = vg_row s" "vg_col (vga_scroll s) = vg_col s" "offscreen_same s (vga_scroll s)"
    using t(1-3) offscreen_trans by (auto simp: row_filled_def)
  show "cell_at (vga_scroll s) r k = (if r < 24 then cell_at s (r + 1) k else blank)" if "r < 25" "k < 80"
    using f t(4) [OF that] that by (auto simp: row_filled_def)
qed

subsection \<open>Refinement of the terminal\<close>

lemma inv_unat: "vga_inv s \<longleftrightarrow> unat (vg_row s) < 25 \<and> unat (vg_col s) \<le> 80"
  by (simp add: vga_inv_def word_less_nat_alt word_le_nat_alt)

lemma unat_step: "unat w < 4294967295 \<Longrightarrow> unat (w + 1 :: u32) = unat w + 1" "0 < unat w \<Longrightarrow> unat (w - 1 :: u32) = unat w - 1"
  by (simp_all add: unat_word_ariths unat_sub word_le_nat_alt)

lemma cell_index: "w * VGA_WIDTH + x = of_nat (80 * unat w + unat x)"
  by (simp add: mult.commute)

lemma screen_rows_eq:
  assumes "\<And>r k. r < 25 \<Longrightarrow> k < 80 \<Longrightarrow> cell_at s r k = g r k"
  shows "te_rows (vga_abs s) = map (\<lambda>r. map (g r) [0..<80]) [0..<25]"
  using assms by (auto simp: vga_abs_def)

lemma te_rows_nth: "r < 25 \<Longrightarrow> te_rows (vga_abs s) ! r = map (cell_at s r) [0..<80]" "length (te_rows (vga_abs s)) = 25"
  by (simp_all add: vga_abs_def)

lemma vga_abs_cursor:
  "te_row (vga_abs s) = unat (vg_row s)" "te_col (vga_abs s) = unat (vg_col s)"
  "te_rows (vga_abs (s\<lparr>vg_row := r\<rparr>)) = te_rows (vga_abs s)" "te_rows (vga_abs (s\<lparr>vg_col := c\<rparr>)) = te_rows (vga_abs s)"
  by (simp_all add: vga_abs_def)

lemma terminal_eqI: "te_rows t = te_rows u \<Longrightarrow> te_row t = te_row u \<Longrightarrow> te_col t = te_col u \<Longrightarrow> t = (u :: terminal)"
  by simp

lemma set_rows:
  assumes "r < 25" "k < 80"
  shows "te_rows (vga_abs (vga_set (of_nat (80 * r + k)) v s)) = te_put r k v (te_rows (vga_abs s))"
proof (rule nth_equalityI)
  show "length (te_rows (vga_abs (vga_set (of_nat (80 * r + k)) v s))) = length (te_put r k v (te_rows (vga_abs s)))"
    by (simp add: te_rows_nth te_put_def)
  fix i assume "i < length (te_rows (vga_abs (vga_set (of_nat (80 * r + k)) v s)))"
  then have i: "i < 25" by (simp add: te_rows_nth)
  have "map (cell_at (vga_set (of_nat (80 * r + k)) v s) i) [0..<80] =
    (if i = r then (map (cell_at s i) [0..<80])[k := v] else map (cell_at s i) [0..<80])"
    using assms i by (auto simp: list_eq_iff_nth_eq cell_set nth_upd simp del: of_nat_add of_nat_mult)
  then show "te_rows (vga_abs (vga_set (of_nat (80 * r + k)) v s)) ! i = te_put r k v (te_rows (vga_abs s)) ! i"
    using i assms by (auto simp: te_rows_nth te_put_def nth_upd simp del: of_nat_add of_nat_mult)
qed

lemma newline_refines:
  assumes "vga_inv s"
  shows "vga_abs (vga_newline s) = te_newline (vga_abs s)" "vga_inv (vga_newline s)" "offscreen_same s (vga_newline s)"
    "vg_col (vga_newline s) = 0"
proof -
  have r: "unat (vg_row s + 1) = unat (vg_row s) + 1" using assms unat_step(1) [of "vg_row s"] by (simp add: inv_unat)
  have sc: "te_rows (vga_abs (vga_scroll s')) = tl (te_rows (vga_abs s')) @ [replicate 80 blank]" for s'
    by (rule nth_equalityI)
      (auto simp: te_rows_nth nth_append nth_tl list_eq_iff_nth_eq vga_scroll_cells(4) simp del: upt_Suc)
  have "vga_abs (vga_newline s) = te_newline (vga_abs s) \<and> vga_inv (vga_newline s) \<and> offscreen_same s (vga_newline s) \<and>
      vg_col (vga_newline s) = 0"
  proof (cases "unat (vg_row s) + 1 < 25")
    case True
    then have "vga_newline s = s\<lparr>vg_col := 0, vg_row := vg_row s + 1\<rparr>"
      using r by (simp add: vga_newline_def Let_def word_le_nat_alt)
    with True r show ?thesis by (simp add: te_newline_def inv_unat vga_abs_def offscreen_refl)
  next
    case False
    then have "vga_newline s = (vga_scroll (s\<lparr>vg_col := 0, vg_row := vg_row s + 1\<rparr>))\<lparr>vg_row := 24\<rparr>"
      using r by (simp add: vga_newline_def Let_def word_le_nat_alt)
    moreover define u where "u = s\<lparr>vg_col := 0, vg_row := vg_row s + 1\<rparr>"
    ultimately have n: "vga_newline s = (vga_scroll u)\<lparr>vg_row := 24\<rparr>" by simp
    have "te_rows (vga_abs u) = te_rows (vga_abs s)" "vg_col u = 0" by (simp_all add: u_def vga_abs_cursor)
    then have "vga_abs (vga_newline s) = te_newline (vga_abs s)"
      using False unfolding n
      by (intro terminal_eqI) (simp_all add: te_newline_def vga_abs_cursor sc vga_scroll_cells(2))
    moreover have "offscreen_same s (vga_newline s)"
      using vga_scroll_cells(3) [of u] by (simp add: n u_def)
    ultimately show ?thesis using \<open>vg_col u = 0\<close> by (simp add: n inv_unat vga_scroll_cells(2))
  qed
  then show "vga_abs (vga_newline s) = te_newline (vga_abs s)" "vga_inv (vga_newline s)" "offscreen_same s (vga_newline s)"
    "vg_col (vga_newline s) = 0" by simp_all
qed

lemma set_refines:
  assumes "unat (vg_row s) < 25" "unat (vg_col s) < 80"
  shows "te_rows (vga_abs (vga_set (vg_row s * VGA_WIDTH + vg_col s) v s)) =
      te_put (unat (vg_row s)) (unat (vg_col s)) v (te_rows (vga_abs s))"
    "offscreen_same s (vga_set (vg_row s * VGA_WIDTH + vg_col s) v s)"
  using assms set_rows [of "unat (vg_row s)" "unat (vg_col s)" v s]
    offscreen_set [of "80 * unat (vg_row s) + unat (vg_col s)" s v]
  unfolding cell_index by simp_all

lemma back_refines:
  assumes "vga_inv s"
  shows "vga_abs (vga_backspace s) = te_back (vga_abs s) \<and> vga_inv (vga_backspace s) \<and> offscreen_same s (vga_backspace s)"
proof (cases "vg_col s = 0 \<and> vg_row s = 0")
  case True
  then show ?thesis using assms by (simp add: vga_backspace_def te_back_def vga_abs_cursor offscreen_refl)
next
  case False
  define s1 where "s1 = (if vg_col s = 0 then s\<lparr>vg_row := vg_row s - 1, vg_col := VGA_WIDTH\<rparr> else s)"
  define s2 where "s2 = s1\<lparr>vg_col := vg_col s1 - 1\<rparr>"
  define q where "q = (if unat (vg_col s) = 0 then (unat (vg_row s) - 1, 79) else (unat (vg_row s), unat (vg_col s) - 1))"
  have z: "unat (w :: u32) = 0 \<longleftrightarrow> w = 0" for w by (simp add: unat_eq_0)
  have q: "unat (vg_row s2) = fst q" "unat (vg_col s2) = snd q" "fst q < 25" "snd q < 80"
    using assms False z [of "vg_col s"] z [of "vg_row s"] unat_step(2) [of "vg_row s"] unat_step(2) [of "vg_col s"]
    by (auto simp: s2_def s1_def q_def inv_unat split: if_splits)
  have b: "vga_backspace s = vga_set (vg_row s2 * VGA_WIDTH + vg_col s2) blank s2"
    unfolding vga_backspace_def s1_def s2_def Let_def by (rule if_not_P [OF False])
  have rows: "te_rows (vga_abs s2) = te_rows (vga_abs s)" "offscreen_same s s2"
    by (simp_all add: s2_def s1_def vga_abs_cursor offscreen_refl)
  have "te_back (vga_abs s) = (vga_abs s)\<lparr>te_rows := te_put (fst q) (snd q) blank (te_rows (vga_abs s)), te_row := fst q, te_col := snd q\<rparr>"
    using False z [of "vg_col s"] z [of "vg_row s"] by (simp add: te_back_def vga_abs_cursor q_def)
  then have "vga_abs (vga_backspace s) = te_back (vga_abs s)"
    using set_refines(1) [of s2 blank] q rows(1) by (intro terminal_eqI) (simp_all add: b vga_abs_cursor)
  moreover have "offscreen_same s (vga_backspace s)"
    using set_refines(2) [of s2 blank] q rows(2) offscreen_trans unfolding b by simp
  moreover have "vga_inv (vga_backspace s)" using q unfolding b by (simp add: inv_unat)
  ultimately show ?thesis by simp
qed

lemma putc_refines:
  assumes "vga_inv s"
  shows "vga_abs (vga_putc c s) = te_putc c (vga_abs s) \<and> vga_inv (vga_putc c s) \<and> offscreen_same s (vga_putc c s)"
proof -
  consider "c = CHR 0x0A" | "c = CHR 0x08" | "c \<noteq> CHR 0x0A" "c \<noteq> CHR 0x08" by blast
  then show ?thesis
  proof cases
    case 1
    then show ?thesis using newline_refines [OF assms] by (simp add: vga_putc_def te_putc_def)
  next
    case 2
    then show ?thesis using back_refines [OF assms] by (simp add: vga_putc_def te_putc_def)
  next
    case 3
    define s1 where "s1 = (if vg_col s \<ge> VGA_WIDTH then vga_newline s else s)"
    define t1 where "t1 = (if te_col (vga_abs s) = 80 then te_newline (vga_abs s) else vga_abs s)"
    have full: "vg_col s \<ge> VGA_WIDTH \<longleftrightarrow> unat (vg_col s) = 80" using assms by (auto simp: inv_unat word_le_nat_alt)
    have s1: "vga_abs s1 = t1" "vga_inv s1" "offscreen_same s s1" "unat (vg_col s1) < 80"
      using assms full newline_refines [OF assms] by (auto simp: s1_def t1_def vga_abs_cursor offscreen_refl inv_unat)
    have r: "unat (vg_row s1) < 25" using s1(2) by (simp add: inv_unat)
    have p: "vga_putc c s = (vga_set (vg_row s1 * VGA_WIDTH + vg_col s1) (vga_cell c) s1)\<lparr>vg_col := vg_col s1 + 1\<rparr>"
      using 3 by (simp add: vga_putc_def s1_def Let_def)
    have c1: "unat (vg_col s1 + 1) = unat (vg_col s1) + 1" using s1(4) by (simp add: unat_step(1))
    have "te_putc c (vga_abs s) = t1\<lparr>te_rows := te_put (te_row t1) (te_col t1) (vga_cell c) (te_rows t1), te_col := te_col t1 + 1\<rparr>"
      using 3 by (simp add: te_putc_def t1_def Let_def)
    then have "vga_abs (vga_putc c s) = te_putc c (vga_abs s)"
      using set_refines(1) [OF r s1(4), of "vga_cell c"] s1(1) c1 by (intro terminal_eqI) (auto simp: p vga_abs_cursor)
    moreover have "offscreen_same s (vga_putc c s)"
      using set_refines(2) [OF r s1(4), of "vga_cell c"] s1(3) offscreen_trans unfolding p by simp
    moreover have "vga_inv (vga_putc c s)" using r c1 s1(4) unfolding p by (simp add: inv_unat)
    ultimately show ?thesis by simp
  qed
qed

lemma fold_putc_refines:
  "vga_inv s \<Longrightarrow> vga_abs (fold vga_putc cs s) = fold te_putc cs (vga_abs s) \<and> vga_inv (fold vga_putc cs s) \<and>
     offscreen_same s (fold vga_putc cs s)"
proof (induction cs arbitrary: s)
  case Nil
  then show ?case by (simp add: offscreen_refl)
next
  case (Cons c cs)
  then show ?case using putc_refines [OF Cons.prems, of c] offscreen_trans by fastforce
qed

lemma clear_cells:
  "vga_abs (vga_clear s) = \<lparr>te_rows = replicate 25 (replicate 80 blank), te_row = 0, te_col = 0\<rparr>"
  "vga_inv (vga_clear s)" "offscreen_same s (vga_clear s)"
proof -
  have f: "offscreen_same s (fold (\<lambda>i. vga_set (of_nat i) blank) [0..<n] s) \<and>
      (\<forall>i < n. vg_cells (fold (\<lambda>i. vga_set (of_nat i) blank) [0..<n] s) (of_nat i) = blank)" if "n \<le> 2000" for n
    using that
  proof (induction n)
    case 0
    then show ?case by (simp add: offscreen_refl)
  next
    case (Suc n)
    have "(of_nat i :: u32) = of_nat n \<longleftrightarrow> i = n" if "i < Suc n" for i using that Suc.prems by (intro of_nat_u32_eq) simp_all
    moreover have "offscreen_same t (vga_set (of_nat n) blank t)" for t using Suc.prems by (intro offscreen_set) simp
    ultimately show ?case using Suc offscreen_trans by (auto simp: vga_set_def less_Suc_eq)
  qed
  have "cell_at (vga_clear s) r k = blank" if "r < 25" "k < 80" for r k
  proof -
    have "80 * r + k < 2000" using that by linarith
    then show ?thesis using f [of 2000] unfolding cell_at_def vga_clear_def by (simp del: of_nat_add of_nat_mult)
  qed
  then show "vga_abs (vga_clear s) = \<lparr>te_rows = replicate 25 (replicate 80 blank), te_row = 0, te_col = 0\<rparr>"
    by (auto simp: vga_abs_def vga_clear_def list_eq_iff_nth_eq simp del: upt_Suc)
  show "vga_inv (vga_clear s)" "offscreen_same s (vga_clear s)" using f [of 2000] by (simp_all add: vga_clear_def vga_inv_def)
qed

section \<open>Numbers\<close>

definition dec_text :: "u32 \<Rightarrow> string" where
  "dec_text value = (if value = 0 then ''0'' else let (i, buf) = dec_loop value 0 (\<lambda>_. NUL) in rev (map buf [0..<i]))"

definition dec_val :: "string \<Rightarrow> nat" where
  "dec_val = foldl (\<lambda>a c. a * 10 + (of_char c - 48)) 0"

definition is_digit :: "char \<Rightarrow> bool" where
  "is_digit c \<longleftrightarrow> 48 \<le> (of_char c :: nat) \<and> (of_char c :: nat) \<le> 57"

lemma digit_char: "d < 10 \<Longrightarrow> of_char (char_of (48 + d :: nat)) = 48 + d \<and> is_digit (char_of (48 + d))"
  by (simp add: is_digit_def of_char_of)

lemma dec_loop_spec:
  "dec_loop v i buf = (n, b) \<Longrightarrow> i \<le> n \<and> (\<forall>j < i. b j = buf j) \<and> (\<forall>j. i \<le> j \<and> j < n \<longrightarrow> is_digit (b j)) \<and>
     foldr (\<lambda>c a. (of_char c - 48) + 10 * a) (map b [i..<n]) 0 = unat v \<and> (v \<noteq> 0 \<longrightarrow> i < n \<and> 10 ^ (n - i - 1) \<le> unat v)"
proof (induction v i buf rule: dec_loop.induct)
  case (1 v i buf)
  show ?case
  proof (cases "v = 0")
    case True
    then show ?thesis using "1.prems" by (auto simp: dec_loop.simps [of 0])
  next
    case False
    define c where "c = char_of (48 + unat (v mod 10))"
    have "unat (v mod 10) = unat v mod 10" by (simp add: unat_mod)
    then have c: "of_char c = 48 + unat v mod 10" "is_digit c" using digit_char [of "unat v mod 10"] by (simp_all add: c_def)
    have d: "unat (v div 10) = unat v div 10" by (simp add: unat_div)
    have nz: "0 < v" using False by (simp add: word_gt_0)
    have "dec_loop (v div 10) (i + 1) (buf(i := c)) = (n, b)"
      using "1.prems" nz unfolding dec_loop.simps [of v] c_def by simp
    note rec = "1.IH" [OF nz, folded c_def, OF this]
    have ih: "i + 1 \<le> n" "\<forall>j < i + 1. b j = (buf(i := c)) j" "\<forall>j. i + 1 \<le> j \<and> j < n \<longrightarrow> is_digit (b j)"
      "foldr (\<lambda>c a. (of_char c - 48) + 10 * a) (map b [i + 1..<n]) 0 = unat v div 10"
      "v div 10 \<noteq> 0 \<longrightarrow> i + 1 < n \<and> 10 ^ (n - (i + 1) - 1) \<le> unat v div 10"
      using rec unfolding d by blast+
    have bi: "b i = c" using ih(2) by simp
    have u: "[i..<n] = i # [i + 1..<n]" using ih(1) by (simp add: upt_conv_Cons)
    have "10 ^ (n - i - 1) \<le> unat v"
    proof (cases "v div 10 = 0")
      case True
      have "n = i + 1" using "1.prems" True nz by (simp add: dec_loop.simps [of v] dec_loop.simps [of 0])
      then show ?thesis using False unat_gt_0 [of v] by simp
    next
      case F: False
      with ih(5) have n: "n - i - 1 = Suc (n - (i + 1) - 1)" "10 ^ (n - (i + 1) - 1) \<le> unat v div 10" by auto
      then show ?thesis using mult_le_mono2 [OF n(2), of 10] div_times_less_eq_dividend [of "unat v" 10] by (simp add: mult.commute)
    qed
    moreover have "is_digit (b j)" if "i \<le> j" "j < n" for j using that ih(3) bi c(2) by (cases "j = i") auto
    moreover have "\<forall>j < i. b j = buf j" using ih(2) by auto
    ultimately show ?thesis using ih(1,4) bi c(1) unfolding u by simp
  qed
qed

text \<open>The 10-byte buffer is long enough for every value.\<close>

lemma dec_loop_fits:
  assumes "dec_loop v 0 b = (n, c)"
  shows "n \<le> 10"
proof (rule ccontr)
  assume n: "\<not> n \<le> 10"
  then have "10 ^ 10 \<le> (10 :: nat) ^ (n - 1)" by (intro power_increasing) auto
  moreover have "v \<noteq> 0" using assms n by (auto simp: dec_loop.simps [of 0])
  ultimately show False using dec_loop_spec [OF assms] unat_u32_less [of v] by simp
qed

lemma dec_text:
  shows "dec_val (dec_text v) = unat v" "dec_text v \<noteq> []" "length (dec_text v) \<le> 10" "list_all is_digit (dec_text v)"
proof -
  have foldl_rev: "foldl (\<lambda>a c. a * 10 + (of_char c - 48)) 0 (rev xs) = foldr (\<lambda>c a. (of_char c - 48) + 10 * a) xs (0 :: nat)" for xs
    by (simp add: foldr_conv_foldl mult.commute add.commute)
  obtain n b where l: "dec_loop v 0 (\<lambda>_. NUL) = (n, b)" by fastforce
  note sp = dec_loop_spec [OF l, simplified]
  have "dec_val (dec_text v) = unat v \<and> dec_text v \<noteq> [] \<and> length (dec_text v) \<le> 10 \<and> list_all is_digit (dec_text v)"
  proof (cases "v = 0")
    case True
    then show ?thesis by (simp add: dec_text_def dec_val_def is_digit_def)
  next
    case False
    then have t: "dec_text v = rev (map b [0..<n])" using l by (simp add: dec_text_def)
    then show ?thesis using sp False foldl_rev dec_loop_fits [OF l] by (auto simp: t dec_val_def list_all_iff)
  qed
  then show "dec_val (dec_text v) = unat v" "dec_text v \<noteq> []" "length (dec_text v) \<le> 10" "list_all is_digit (dec_text v)" by simp_all
qed

lemma vga_put_dec32_text: "vga_put_dec32 v = fold vga_putc (dec_text v)"
  by (simp add: fun_eq_iff vga_put_dec32_def dec_text_def split: prod.splits)

definition hex_text :: "u32 \<Rightarrow> string" where
  "hex_text v = ''0x'' @ map (\<lambda>shift. hex_digits ! unat (drop_bit shift v AND 0xF)) [28, 24, 20, 16, 12, 8, 4, 0]"

lemma vga_put_hex32_text: "vga_put_hex32 v = fold vga_putc (hex_text v)"
  by (simp add: fun_eq_iff vga_put_hex32_def hex_text_def vga_puts_def cstr_def)

section \<open>The serial port\<close>

text \<open>
  The argument \<open>lsr\<close> gives the value of the line status register at each read; \<open>se_reads\<close> counts the reads
  done and \<open>se_out\<close> holds the port writes in order.
\<close>

record serial =
  se_ready :: bool
  se_reads :: nat
  se_out :: "(u16 \<times> u8) list"

abbreviation COM1 :: u16 where "COM1 \<equiv> 0x3F8"

definition serial_outb :: "u16 \<Rightarrow> u8 \<Rightarrow> serial \<Rightarrow> serial" where
  "serial_outb port v s = s\<lparr>se_out := se_out s @ [(port, v)]\<rparr>"

definition serial_can_transmit :: "(nat \<Rightarrow> u8) \<Rightarrow> nat \<Rightarrow> bool" where
  "serial_can_transmit lsr n = (lsr n AND 0x20 \<noteq> 0)"

definition serial_init :: "serial \<Rightarrow> serial" where
  "serial_init s =
     (fold (\<lambda>(p, v). serial_outb p v)
        [(COM1 + 1, 0), (COM1 + 3, 0x80), (COM1, 3), (COM1 + 1, 0), (COM1 + 3, 3), (COM1 + 2, 0xC7), (COM1 + 4, 0x0B)] s)
       \<lparr>se_ready := True\<rparr>"

text \<open>\<open>while (!serial_can_transmit()) {}\<close>; the result is the number of reads done so far.\<close>

partial_function (option) serial_wait :: "(nat \<Rightarrow> u8) \<Rightarrow> nat \<Rightarrow> nat option" where
  "serial_wait lsr n = (if serial_can_transmit lsr n then Some (n + 1) else serial_wait lsr (n + 1))"

definition serial_putc :: "(nat \<Rightarrow> u8) \<Rightarrow> char \<Rightarrow> serial \<Rightarrow> serial option" where
  "serial_putc lsr c s =
     (if \<not> se_ready s then Some s
      else map_option (\<lambda>n. serial_outb COM1 (of_char c) (s\<lparr>se_reads := n\<rparr>)) (serial_wait lsr (se_reads s)))"

fun serial_put_list :: "(nat \<Rightarrow> u8) \<Rightarrow> string \<Rightarrow> serial \<Rightarrow> serial option" where
  "serial_put_list lsr [] s = Some s"
| "serial_put_list lsr (c # cs) s = Option.bind (serial_putc lsr c s) (serial_put_list lsr cs)"

fun serial_puts_loop :: "(nat \<Rightarrow> u8) \<Rightarrow> string \<Rightarrow> serial \<Rightarrow> serial option" where
  "serial_puts_loop lsr [] s = Some s"
| "serial_puts_loop lsr (c # cs) s =
     Option.bind (if c = CHR 0x0A then serial_putc lsr CHR 0x0D s else Some s)
       (\<lambda>s1. Option.bind (serial_putc lsr c s1) (serial_puts_loop lsr cs))"

definition serial_puts :: "(nat \<Rightarrow> u8) \<Rightarrow> string \<Rightarrow> serial \<Rightarrow> serial option" where
  "serial_puts lsr t = serial_puts_loop lsr (cstr t)"

definition serial_put_hex32 :: "(nat \<Rightarrow> u8) \<Rightarrow> u32 \<Rightarrow> serial \<Rightarrow> serial option" where
  "serial_put_hex32 lsr value s =
     Option.bind (serial_puts lsr ''0x'' s)
       (serial_put_list lsr (map (\<lambda>shift. hex_digits ! unat (drop_bit shift value AND 0xF)) [28, 24, 20, 16, 12, 8, 4, 0]))"

definition crlf :: "string \<Rightarrow> string" where
  "crlf t = concat (map (\<lambda>c. if c = CHR 0x0A then [CHR 0x0D, CHR 0x0A] else [c]) t)"

definition sent :: "string \<Rightarrow> serial \<Rightarrow> (u16 \<times> u8) list" where
  "sent t s = (if se_ready s then map (\<lambda>c. (COM1, of_char c)) t else [])"

lemma serial_wait_returns:
  assumes "serial_can_transmit lsr m" "n \<le> m"
  shows "\<exists>k. serial_wait lsr n = Some k"
  using assms(2)
proof (induction "m - n" arbitrary: n)
  case 0
  then show ?case using assms(1) by (simp add: serial_wait.simps [of lsr n])
next
  case (Suc d)
  then show ?case by (simp add: serial_wait.simps [of lsr n])
qed

lemma serial_wait_stuck:
  assumes "\<And>m. \<not> serial_can_transmit lsr m"
  shows "serial_wait lsr n = None"
proof -
  have "\<exists>m. serial_can_transmit lsr m" if "serial_wait lsr n = Some k" for k
    by (rule serial_wait.raw_induct [OF _ that, where P = "\<lambda>lsr n k. \<exists>m. serial_can_transmit lsr m"]) (auto split: if_splits)
  then show ?thesis using assms by (cases "serial_wait lsr n") auto
qed

lemma serial_putc_sent:
  assumes "\<And>n. \<exists>m \<ge> n. serial_can_transmit lsr m"
  obtains s' where "serial_putc lsr c s = Some s'" "se_out s' = se_out s @ sent [c] s" "se_ready s' = se_ready s"
proof -
  obtain m where m: "se_reads s \<le> m" "serial_can_transmit lsr m" using assms [of "se_reads s"] by (elim exE conjE)
  obtain k where k: "serial_wait lsr (se_reads s) = Some k" using serial_wait_returns [OF m(2,1)] by (elim exE)
  show thesis
  proof (cases "se_ready s")
    case True
    show thesis by (rule that [of "serial_outb COM1 (of_char c) (s\<lparr>se_reads := k\<rparr>)"])
        (simp_all add: True k serial_putc_def sent_def serial_outb_def)
  next
    case False
    show thesis by (rule that [of s]) (simp_all add: False serial_putc_def sent_def)
  qed
qed

lemma sent_append: "sent (a @ b) s = sent a s @ sent b s"
  by (simp add: sent_def)

lemma sent_cong: "se_ready s' = se_ready s \<Longrightarrow> sent t s' = sent t s"
  by (simp add: sent_def)

lemma serial_puts_loop_sent:
  assumes "\<And>n. \<exists>m \<ge> n. serial_can_transmit lsr m"
  shows "\<exists>s'. serial_puts_loop lsr t s = Some s' \<and> se_out s' = se_out s @ sent (crlf t) s \<and> se_ready s' = se_ready s"
proof (induction t arbitrary: s)
  case Nil
  then show ?case by (simp add: crlf_def sent_def)
next
  case (Cons c t)
  define p where "p = (if c = CHR 0x0A then [CHR 0x0D] else [])"
  obtain s1 where s1: "(if c = CHR 0x0A then serial_putc lsr CHR 0x0D s else Some s) = Some s1"
    "se_out s1 = se_out s @ sent p s" "se_ready s1 = se_ready s"
  proof (cases "c = CHR 0x0A")
    case True
    obtain s' where "serial_putc lsr CHR 0x0D s = Some s'" "se_out s' = se_out s @ sent [CHR 0x0D] s" "se_ready s' = se_ready s"
      by (rule serial_putc_sent [OF assms])
    then show thesis by (intro that [of s']) (simp_all add: True p_def)
  next
    case False
    show thesis by (rule that [of s]) (simp_all add: False p_def sent_def)
  qed
  obtain s2 where s2: "serial_putc lsr c s1 = Some s2" "se_out s2 = se_out s1 @ sent [c] s1" "se_ready s2 = se_ready s1"
    by (rule serial_putc_sent [OF assms, of c s1])
  obtain s3 where s3: "serial_puts_loop lsr t s2 = Some s3" "se_out s3 = se_out s2 @ sent (crlf t) s2" "se_ready s3 = se_ready s2"
    using Cons.IH [of s2] by blast
  have "crlf (c # t) = p @ [c] @ crlf t" by (simp add: crlf_def p_def)
  then have "se_out s3 = se_out s @ sent (crlf (c # t)) s"
    using s1(2,3) s2(2,3) s3(2) sent_cong [of s1 s] sent_cong [of s2 s1] by (simp only: sent_append append_assoc)
  then show ?case using s1 s2 s3 by simp
qed

section \<open>Properties\<close>

text \<open>
  C23. The screen driver implements the terminal: whatever is printed from a state with the cursor on
  the screen, the rows and the cursor are those of a terminal with a 25-row list that wraps, scrolls and
  erases; the cursor stays on the screen and no cell outside the 2000 cells is written.
\<close>

theorem vga_puts_refines:
  assumes "vga_inv s"
  shows "vga_abs (vga_puts t s) = fold te_putc (cstr t) (vga_abs s) \<and> vga_inv (vga_puts t s) \<and> offscreen_same s (vga_puts t s)"
  using fold_putc_refines [OF assms] by (simp add: vga_puts_def)

theorem vga_puts_refines_witness:
  "\<exists>s. vga_inv s \<and> te_row (vga_abs (vga_puts ''hi'' s)) = 0 \<and> te_col (vga_abs (vga_puts ''hi'' s)) = 2 \<and>
     te_rows (vga_abs (vga_puts ''hi'' s)) ! 0 ! 0 = 0x0768 \<and> te_rows (vga_abs (vga_puts ''hi'' s)) ! 0 ! 1 = 0x0769"
proof -
  define s where "s = vga_clear \<lparr>vg_cells = (\<lambda>_. 0), vg_row = 7, vg_col = 3\<rparr>"
  have i: "vga_inv s" by (simp add: s_def clear_cells)
  have "vga_abs (vga_puts ''hi'' s) = fold te_putc (cstr ''hi'') \<lparr>te_rows = replicate 25 (replicate 80 blank), te_row = 0, te_col = 0\<rparr>"
    using vga_puts_refines [OF i, of "''hi''"] clear_cells(1) by (simp add: s_def)
  then have "te_row (vga_abs (vga_puts ''hi'' s)) = 0 \<and> te_col (vga_abs (vga_puts ''hi'' s)) = 2 \<and>
     te_rows (vga_abs (vga_puts ''hi'' s)) ! 0 ! 0 = 0x0768 \<and> te_rows (vga_abs (vga_puts ''hi'' s)) ! 0 ! 1 = 0x0769"
    by (simp add: cstr_def te_putc_def te_put_def vga_cell_def vga_color_def nth_upd)
  with i show ?thesis by blast
qed

text \<open>
  On a UART that always becomes ready again \<open>serial_puts\<close> returns, and what it has written to the
  data port is the text with a carriage return in front of every newline; before \<open>serial_init\<close> it writes
  nothing.
\<close>

theorem serial_puts_correct:
  assumes "\<And>n. \<exists>m \<ge> n. serial_can_transmit lsr m"
  shows "\<exists>s'. serial_puts lsr t s = Some s' \<and> se_out s' = se_out s @ sent (crlf (cstr t)) s"
  using serial_puts_loop_sent [OF assms, of "cstr t" s] by (auto simp: serial_puts_def)

theorem serial_puts_correct_witness:
  "\<exists>s'. serial_puts (\<lambda>n. if even n then 0x60 else 0) ''a\<newline>'' \<lparr>se_ready = True, se_reads = 5, se_out = []\<rparr> = Some s' \<and>
     se_out s' = [(0x3F8, 0x61), (0x3F8, 0x0D), (0x3F8, 0x0A)]"
proof -
  have "\<exists>m \<ge> n. serial_can_transmit (\<lambda>n. if even n then 0x60 else 0) m" for n
    by (rule exI [of _ "2 * n"]) (simp add: serial_can_transmit_def)
  from serial_puts_correct [OF this, of "''a\<newline>''" "\<lparr>se_ready = True, se_reads = 5, se_out = []\<rparr>"]
  show ?thesis by (simp add: sent_def crlf_def cstr_def)
qed

end
