(* ===== verification/Timer.thy ===== *)
theory Timer
  imports Scheduler
begin

text \<open>
  The tick counter of \<open>timer.c\<close>: programming of the interval timer, the interrupt handler, the two-word
  read of the 64-bit counter with interrupts off, and the uptime.  The read is also a step relation
  that interleaves its machine instructions with the interrupt handler.
\<close>

section \<open>State and operations\<close>

abbreviation PIT_INPUT_HZ :: u32 where "PIT_INPUT_HZ \<equiv> 1193182"

record timer =
  tm_ticks :: u64
  tm_hz :: u32

definition timer_static :: timer where
  "timer_static = \<lparr>tm_ticks = 0, tm_hz = 100\<rparr>"

text \<open>The port writes come with the new state.\<close>

definition timer_init :: "u32 \<Rightarrow> timer \<Rightarrow> (u16 \<times> u8) list \<times> timer" where
  "timer_init hz0 s =
     (let hz = (if hz0 = 0 then 100 else hz0);
          divisor0 = PIT_INPUT_HZ div hz;
          divisor = (if divisor0 = 0 then 1 else divisor0)
      in ([(0x43, 0x36), (0x40, ucast (divisor AND 0xFF)), (0x40, ucast (drop_bit 8 divisor AND 0xFF))],
          s\<lparr>tm_hz := hz, tm_ticks := 0\<rparr>))"

definition timer_isr :: "timer \<times> sched \<Rightarrow> timer \<times> sched" where
  "timer_isr ts = ((fst ts)\<lparr>tm_ticks := tm_ticks (fst ts) + 1\<rparr>, scheduler_on_tick (snd ts))"

definition ticks_lo :: "timer \<Rightarrow> u32" where "ticks_lo s = ucast (tm_ticks s)"
definition ticks_hi :: "timer \<Rightarrow> u32" where "ticks_hi s = ucast (drop_bit 32 (tm_ticks s))"
definition ticks_join :: "u32 \<Rightarrow> u32 \<Rightarrow> u64" where "ticks_join hi lo = push_bit 32 (ucast hi) OR ucast lo"

definition timer_read_ticks_atomic :: "timer \<Rightarrow> u64" where
  "timer_read_ticks_atomic s = ticks_join (ticks_hi s) (ticks_lo s)"

definition timer_get_ticks :: "timer \<Rightarrow> u64" where
  "timer_get_ticks s = timer_read_ticks_atomic s"

definition timer_get_ticks32 :: "timer \<Rightarrow> u32" where
  "timer_get_ticks32 s = ucast (timer_read_ticks_atomic s)"

definition timer_get_hz :: "timer \<Rightarrow> u32" where
  "timer_get_hz s = tm_hz s"

definition timer_get_uptime_seconds :: "timer \<Rightarrow> u32" where
  "timer_get_uptime_seconds s = ucast (timer_read_ticks_atomic s) div tm_hz s"

section \<open>The read beside the interrupt handler\<close>

text \<open>
  The instructions of \<open>timer_read_ticks_atomic\<close>: save the flags (\<open>pushfl; popl\<close>), clear the
  interrupt flag (\<open>cli\<close>), read the low word, read the high word, restore the flags (\<open>pushl; popfl\<close>).  The
  handler runs between any two of them when the interrupt flag is set, and its return keeps the flag.
\<close>

datatype read_pc = Rd_start | Rd_flags bool | Rd_saved bool | Rd_lo bool u32 | Rd_hi bool u32 u32 | Rd_done u64

record timer_run =
  tr_ts :: "timer \<times> sched"
  tr_if :: bool
  tr_pc :: read_pc

fun read_instr :: "timer_run \<Rightarrow> timer_run" where
  "read_instr s =
     (case tr_pc s of
        Rd_start \<Rightarrow> s\<lparr>tr_pc := Rd_flags (tr_if s)\<rparr>
      | Rd_flags f \<Rightarrow> s\<lparr>tr_pc := Rd_saved f, tr_if := False\<rparr>
      | Rd_saved f \<Rightarrow> s\<lparr>tr_pc := Rd_lo f (ticks_lo (fst (tr_ts s)))\<rparr>
      | Rd_lo f lo \<Rightarrow> s\<lparr>tr_pc := Rd_hi f lo (ticks_hi (fst (tr_ts s)))\<rparr>
      | Rd_hi f lo hi \<Rightarrow> s\<lparr>tr_pc := Rd_done (ticks_join hi lo), tr_if := f\<rparr>
      | Rd_done v \<Rightarrow> s)"

text \<open>\<open>timer_runs s n t\<close>: \<open>t\<close> is reached from \<open>s\<close> with \<open>n\<close> timer interrupts on the way.\<close>

inductive timer_runs :: "timer_run \<Rightarrow> nat \<Rightarrow> timer_run \<Rightarrow> bool" where
  start: "timer_runs s 0 s"
| instr: "timer_runs s n t \<Longrightarrow> timer_runs s n (read_instr t)"
| irq: "timer_runs s n t \<Longrightarrow> tr_if t \<Longrightarrow> timer_runs s (Suc n) (t\<lparr>tr_ts := timer_isr (tr_ts t)\<rparr>)"

inductive_cases timer_runs_zeroE: "timer_runs s 0 t"

section \<open>Lemmas\<close>

lemma ticks_join_read: "ticks_join (ticks_hi s) (ticks_lo s) = tm_ticks s"
proof (rule bit_word_eqI)
  fix n
  assume n: "n < LENGTH(64)"
  show "bit (ticks_join (ticks_hi s) (ticks_lo s)) n \<longleftrightarrow> bit (tm_ticks s) n"
    using n by (cases "n < 32") (auto simp: ticks_join_def ticks_hi_def ticks_lo_def bit_simps)
qed

lemma read_ticks [simp]: "timer_read_ticks_atomic s = tm_ticks s"
  by (simp add: timer_read_ticks_atomic_def ticks_join_read)

text \<open>What holds at each program point after \<open>n\<close> interrupts, for the flag \<open>f0\<close> and the count \<open>t0\<close> at the start.\<close>

definition read_inv :: "bool \<Rightarrow> u64 \<Rightarrow> nat \<Rightarrow> timer_run \<Rightarrow> bool" where
  "read_inv f0 t0 n s \<longleftrightarrow> tm_ticks (fst (tr_ts s)) = t0 + of_nat n \<and>
     (case tr_pc s of
        Rd_start \<Rightarrow> tr_if s = f0
      | Rd_flags f \<Rightarrow> f = f0 \<and> tr_if s = f0
      | Rd_saved f \<Rightarrow> f = f0 \<and> \<not> tr_if s
      | Rd_lo f lo \<Rightarrow> f = f0 \<and> \<not> tr_if s \<and> lo = ticks_lo (fst (tr_ts s))
      | Rd_hi f lo hi \<Rightarrow> f = f0 \<and> \<not> tr_if s \<and> lo = ticks_lo (fst (tr_ts s)) \<and> hi = ticks_hi (fst (tr_ts s))
      | Rd_done v \<Rightarrow> tr_if s = f0 \<and> (\<exists>j \<le> n. v = t0 + of_nat j))"

lemma read_inv_instr: "read_inv f0 t0 n s \<Longrightarrow> read_inv f0 t0 n (read_instr s)"
  by (auto simp: read_inv_def ticks_join_read split: read_pc.splits)

lemma read_inv_irq:
  assumes "read_inv f0 t0 n s" "tr_if s"
  shows "read_inv f0 t0 (Suc n) (s\<lparr>tr_ts := timer_isr (tr_ts s)\<rparr>)"
proof -
  have "\<exists>j \<le> Suc n. v = t0 + of_nat j" if "\<exists>j \<le> n. v = t0 + of_nat j" for v using that le_SucI by blast
  then show ?thesis using assms by (auto simp: read_inv_def timer_isr_def algebra_simps split: read_pc.splits)
qed

lemma timer_runs_inv:
  assumes "timer_runs s n t" "tr_pc s = Rd_start"
  shows "read_inv (tr_if s) (tm_ticks (fst (tr_ts s))) n t"
  using assms by (induction rule: timer_runs.induct) (auto simp: read_inv_def [of _ _ 0] intro: read_inv_instr read_inv_irq simp del: read_instr.simps)

lemma timer_isr_ticks: "tm_ticks (fst ((timer_isr ^^ n) ts)) = tm_ticks (fst ts) + of_nat n" "tm_hz (fst ((timer_isr ^^ n) ts)) = tm_hz (fst ts)"
  by (induction n) (simp_all add: timer_isr_def algebra_simps)

section \<open>Properties\<close>

text \<open>
  C34.  The counter is read without tearing: whenever timer interrupts arrive between the instructions of
  \<open>timer_read_ticks_atomic\<close>, the value it returns is one the counter had between its call and its return,
  and the interrupt flag is what it was before.
\<close>

theorem timer_read_linearizable:
  assumes "tr_pc s = Rd_start" "timer_runs s n t" "tr_pc t = Rd_done v"
  shows "(\<exists>j \<le> n. v = tm_ticks (fst (tr_ts s)) + of_nat j) \<and> tr_if t = tr_if s"
  using timer_runs_inv [OF assms(2,1)] assms(3) by (auto simp: read_inv_def)

theorem timer_read_linearizable_witness:
  "\<exists>s t. tr_pc s = Rd_start \<and> timer_runs s 1 t \<and> tr_pc t = Rd_done 0x100000000 \<and> tr_if t \<and> tr_if s"
proof -
  let ?sc = "\<lparr>sc_tasks = [], sc_started = False, sc_current = 0, sc_tick_since_switch = 0, sc_preempt_pending = False\<rparr> :: sched"
  let ?s = "\<lparr>tr_ts = (\<lparr>tm_ticks = 0xFFFFFFFF, tm_hz = 100\<rparr>, ?sc), tr_if = True, tr_pc = Rd_start\<rparr>"
  define u where "u = ?s\<lparr>tr_ts := timer_isr (tr_ts ?s)\<rparr>"
  define t where "t = read_instr (read_instr (read_instr (read_instr (read_instr u))))"
  have "timer_runs ?s (Suc 0) u" unfolding u_def by (rule timer_runs.irq [OF timer_runs.start]) simp
  then have r: "timer_runs ?s 1 t" by (simp add: t_def timer_runs.instr del: read_instr.simps)
  have d: "tr_pc t = Rd_done 0x100000000" "tr_if t"
    by (simp_all add: t_def u_def timer_isr_def ticks_join_def ticks_hi_def ticks_lo_def)
  have "tr_if t = tr_if ?s" using timer_read_linearizable [OF _ r d(1)] by simp
  with r d show ?thesis by (intro exI [of _ ?s] exI [of _ t]) simp
qed

text \<open>
  C35.  After \<open>timer_init hz\<close> and \<open>n\<close> interrupts the uptime is the number of ticks divided by the frequency
  (100 for a requested 0); the ticks count modulo 2^32, so the uptime restarts at 0 after 2^32 ticks.
\<close>

theorem timer_uptime_exact:
  "timer_get_uptime_seconds (fst ((timer_isr ^^ n) (snd (timer_init hz s), sc))) =
     of_nat (n mod 2 ^ 32 div (if hz = 0 then 100 else unat hz))"
proof -
  let ?t = "fst ((timer_isr ^^ n) (snd (timer_init hz s), sc))" and ?h = "if hz = 0 then 100 else hz"
  have "tm_ticks ?t = of_nat n" "tm_hz ?t = ?h"
    using timer_isr_ticks [of n "(snd (timer_init hz s), sc)"] by (simp_all add: timer_init_def Let_def)
  moreover have "(ucast (of_nat n :: u64) :: u32) = of_nat n" by (rule bit_word_eqI) (simp add: bit_simps)
  ultimately have "timer_get_uptime_seconds ?t = of_nat n div ?h" by (simp add: timer_get_uptime_seconds_def)
  then have "unat (timer_get_uptime_seconds ?t) = n mod 2 ^ 32 div unat ?h" by (simp add: unat_div unat_of_nat)
  then have "of_nat (unat (timer_get_uptime_seconds ?t)) = (of_nat (n mod 2 ^ 32 div unat ?h) :: u32)" by (rule arg_cong)
  then show ?thesis by (cases "hz = 0") simp_all
qed

end
