(* ===== verification/Descriptors.thy ===== *)
theory Descriptors
  imports Keyboard
begin

text \<open>
  The descriptor tables: \<open>gdt.c\<close> with the task state segment, and \<open>interrupts.c\<close> with the interrupt
  descriptor table and the interrupt controller.  The structures are records with the fields of the C
  structures; \<open>seg_base\<close>, \<open>seg_limit\<close> and \<open>gate_offset\<close> read them back as the processor does, and the
  lemmas show what the processor sees after the two initialisations.  Addresses of statics and of the
  assembly entry points are arguments.
\<close>

section \<open>Segments\<close>

record gdt_entry =
  ge_limit_low :: u16
  ge_base_low :: u16
  ge_base_mid :: u8
  ge_access :: u8
  ge_granularity :: u8
  ge_base_high :: u8

record gdt_ptr =
  gp_limit :: u16
  gp_base :: u32

record tss_entry =
  ts_prev_tss :: u32
  ts_esp0 :: u32
  ts_ss0 :: u32
  ts_esp1 :: u32
  ts_ss1 :: u32
  ts_esp2 :: u32
  ts_ss2 :: u32
  ts_cr3 :: u32
  ts_eip :: u32
  ts_eflags :: u32
  ts_eax :: u32
  ts_ecx :: u32
  ts_edx :: u32
  ts_ebx :: u32
  ts_esp :: u32
  ts_ebp :: u32
  ts_esi :: u32
  ts_edi :: u32
  ts_es :: u32
  ts_cs :: u32
  ts_ss :: u32
  ts_ds :: u32
  ts_fs :: u32
  ts_gs :: u32
  ts_ldt :: u32
  ts_trap :: u16
  ts_iomap_base :: u16

text \<open>25 double words and two words.\<close>

abbreviation SIZEOF_TSS :: u32 where "SIZEOF_TSS \<equiv> 104"

text \<open>The table, the task state segment and the registers that \<open>gdt_flush\<close> and \<open>tss_flush\<close> load.\<close>

record gdt =
  gd_entries :: "gdt_entry list"
  gd_descriptor :: gdt_ptr
  gd_tss :: tss_entry
  gd_gdtr :: gdt_ptr
  gd_data_sel :: u16
  gd_cs :: u16
  gd_tr :: u16

definition gdt_entry_of :: "u32 \<Rightarrow> u32 \<Rightarrow> u8 \<Rightarrow> u8 \<Rightarrow> gdt_entry" where
  "gdt_entry_of base limit access flags =
     \<lparr>ge_limit_low = ucast (limit AND 0xFFFF), ge_base_low = ucast (base AND 0xFFFF),
      ge_base_mid = ucast (drop_bit 16 base AND 0xFF), ge_access = access,
      ge_granularity = ucast ((drop_bit 16 limit AND 0x0F) OR (ucast flags AND 0xF0)),
      ge_base_high = ucast (drop_bit 24 base AND 0xFF)\<rparr>"

definition gdt_set_entry :: "nat \<Rightarrow> u32 \<Rightarrow> u32 \<Rightarrow> u8 \<Rightarrow> u8 \<Rightarrow> gdt \<Rightarrow> gdt" where
  "gdt_set_entry index base limit access flags s =
     s\<lparr>gd_entries := (gd_entries s)[index := gdt_entry_of base limit access flags]\<rparr>"

definition gdt_set_kernel_stack :: "u32 \<Rightarrow> gdt \<Rightarrow> gdt" where
  "gdt_set_kernel_stack kernel_stack_top s = s\<lparr>gd_tss := (gd_tss s)\<lparr>ts_esp0 := kernel_stack_top\<rparr>\<rparr>"

definition gdt_flush :: "u16 \<Rightarrow> gdt \<Rightarrow> gdt" where
  "gdt_flush data_selector s = s\<lparr>gd_gdtr := gd_descriptor s, gd_data_sel := data_selector, gd_cs := 0x08\<rparr>"

definition tss_flush :: "u16 \<Rightarrow> gdt \<Rightarrow> gdt" where
  "tss_flush tss_selector s = s\<lparr>gd_tr := tss_selector\<rparr>"

definition tss_zero :: tss_entry where
  "tss_zero = \<lparr>ts_prev_tss = 0, ts_esp0 = 0, ts_ss0 = 0, ts_esp1 = 0, ts_ss1 = 0, ts_esp2 = 0, ts_ss2 = 0, ts_cr3 = 0,
     ts_eip = 0, ts_eflags = 0, ts_eax = 0, ts_ecx = 0, ts_edx = 0, ts_ebx = 0, ts_esp = 0, ts_ebp = 0, ts_esi = 0,
     ts_edi = 0, ts_es = 0, ts_cs = 0, ts_ss = 0, ts_ds = 0, ts_fs = 0, ts_gs = 0, ts_ldt = 0, ts_trap = 0,
     ts_iomap_base = 0\<rparr>"

definition tss_init :: "u32 \<Rightarrow> tss_entry" where
  "tss_init kernel_stack_top = tss_zero\<lparr>ts_ss0 := 0x10, ts_esp0 := kernel_stack_top, ts_cs := 0x0B, ts_ss := 0x13,
     ts_ds := 0x13, ts_es := 0x13, ts_fs := 0x13, ts_gs := 0x13, ts_iomap_base := ucast SIZEOF_TSS\<rparr>"

definition gdt_init :: "u32 \<Rightarrow> u32 \<Rightarrow> u32 \<Rightarrow> gdt \<Rightarrow> gdt" where
  "gdt_init addr_gdt addr_tss kernel_stack_top s =
     (let s1 = fold (\<lambda>i. gdt_set_entry i 0 0 0 0) [0..<6] s;
          s2 = gdt_set_entry 1 0 0xFFFFF 0x9A 0xC0 s1;
          s3 = gdt_set_entry 2 0 0xFFFFF 0x92 0xC0 s2;
          s4 = gdt_set_entry 3 0 0xFFFFF 0xFA 0xC0 s3;
          s5 = gdt_set_entry 4 0 0xFFFFF 0xF2 0xC0 s4;
          s6 = s5\<lparr>gd_tss := tss_init kernel_stack_top\<rparr>;
          s7 = gdt_set_entry 5 addr_tss (SIZEOF_TSS - 1) 0x89 0x00 s6;
          s8 = s7\<lparr>gd_descriptor := \<lparr>gp_limit = 6 * 8 - 1, gp_base = addr_gdt\<rparr>\<rparr>
      in tss_flush 0x28 (gdt_flush 0x10 s8))"

section \<open>Gates\<close>

record idt_entry =
  ie_offset_low :: u16
  ie_selector :: u16
  ie_zero :: u8
  ie_type_attr :: u8
  ie_offset_high :: u16

abbreviation IDT_ENTRIES :: nat where "IDT_ENTRIES \<equiv> 256"
abbreviation IDT_TYPE_INTERRUPT_GATE :: u8 where "IDT_TYPE_INTERRUPT_GATE \<equiv> 0x8E"
abbreviation IDT_TYPE_TRAP_GATE_USER :: u8 where "IDT_TYPE_TRAP_GATE_USER \<equiv> 0xEF"

text \<open>The entry points of \<open>interrupts_asm.s\<close> and \<open>usermode_asm.s\<close>.\<close>

record stubs =
  sb_isr_fault :: u32
  sb_page_fault :: u32
  sb_irq0 :: u32
  sb_irq1 :: u32
  sb_irq_master :: u32
  sb_irq_slave :: u32
  sb_syscall :: u32
  sb_usermode_exit :: u32

record intr =
  it_idt :: "idt_entry list"
  it_code_selector :: u16
  it_idtr :: gdt_ptr
  it_out :: "(u16 \<times> u8) list"
  it_if :: bool
  it_kb :: keyboard

definition idt_set_gate_attr :: "nat \<Rightarrow> u32 \<Rightarrow> u8 \<Rightarrow> intr \<Rightarrow> intr" where
  "idt_set_gate_attr vector addr type_attr s =
     s\<lparr>it_idt := (it_idt s)[vector := \<lparr>ie_offset_low = ucast (addr AND 0xFFFF), ie_selector = it_code_selector s,
        ie_zero = 0, ie_type_attr = type_attr, ie_offset_high = ucast (drop_bit 16 addr AND 0xFFFF)\<rparr>]\<rparr>"

definition idt_set_gate :: "nat \<Rightarrow> u32 \<Rightarrow> intr \<Rightarrow> intr" where
  "idt_set_gate vector addr = idt_set_gate_attr vector addr IDT_TYPE_INTERRUPT_GATE"

definition idt_load :: "u32 \<Rightarrow> intr \<Rightarrow> intr" where
  "idt_load addr_idt s = s\<lparr>it_idtr := \<lparr>gp_limit = 256 * 8 - 1, gp_base = addr_idt\<rparr>\<rparr>"

definition pic_remap_and_mask :: "intr \<Rightarrow> intr" where
  "pic_remap_and_mask s = s\<lparr>it_out := it_out s @
     [(0x20, 0x11), (0xA0, 0x11), (0x21, 0x20), (0xA1, 0x28), (0x21, 0x04), (0xA1, 0x02), (0x21, 0x01), (0xA1, 0x01),
      (0x21, 0xFC), (0xA1, 0xFF)]\<rparr>"

definition idt_clear_gate :: "nat \<Rightarrow> intr \<Rightarrow> intr" where
  "idt_clear_gate i s = s\<lparr>it_idt := (it_idt s)[i := \<lparr>ie_offset_low = 0, ie_selector = 0, ie_zero = 0, ie_type_attr = 0,
     ie_offset_high = 0\<rparr>]\<rparr>"

definition interrupts_init :: "stubs \<Rightarrow> u16 \<Rightarrow> u32 \<Rightarrow> intr \<Rightarrow> intr" where
  "interrupts_init sb cs addr_idt s =
     (let s0 = s\<lparr>it_if := False, it_code_selector := cs\<rparr>;
          s1 = fold idt_clear_gate [0..<IDT_ENTRIES] s0;
          s2 = fold (\<lambda>vec. idt_set_gate vec (sb_isr_fault sb)) [0x00..<0x20] s1;
          s3 = idt_set_gate 0x0E (sb_page_fault sb) s2;
          s4 = fold (\<lambda>vec. idt_set_gate vec (sb_irq_master sb)) [0x20..<0x28] s3;
          s5 = fold (\<lambda>vec. idt_set_gate vec (sb_irq_slave sb)) [0x28..<0x30] s4;
          s6 = idt_set_gate_attr 0x80 (sb_syscall sb) IDT_TYPE_TRAP_GATE_USER s5;
          s7 = idt_set_gate_attr 0x81 (sb_usermode_exit sb) IDT_TYPE_TRAP_GATE_USER s6;
          s8 = s7\<lparr>it_kb := keyboard_buffer_reset (it_kb s7)\<rparr>;
          s9 = idt_set_gate 0x20 (sb_irq0 sb) s8;
          s10 = idt_set_gate 0x21 (sb_irq1 sb) s9
      in (pic_remap_and_mask (idt_load addr_idt s10))\<lparr>it_if := True\<rparr>)"

section \<open>What the processor reads\<close>

definition seg_base :: "gdt_entry \<Rightarrow> u32" where
  "seg_base e = ucast (ge_base_low e) OR push_bit 16 (ucast (ge_base_mid e)) OR push_bit 24 (ucast (ge_base_high e))"

definition seg_limit :: "gdt_entry \<Rightarrow> u32" where
  "seg_limit e = ucast (ge_limit_low e) OR push_bit 16 (ucast (ge_granularity e AND 0x0F))"

text \<open>The last byte of the segment: with the granularity bit the limit counts pages.\<close>

definition seg_last :: "gdt_entry \<Rightarrow> u32" where
  "seg_last e = (if bit (ge_granularity e) 7 then push_bit 12 (seg_limit e) OR 0xFFF else seg_limit e)"

definition attr_dpl :: "u8 \<Rightarrow> nat" where "attr_dpl a = unat (drop_bit 5 a AND 3)"
definition attr_present :: "u8 \<Rightarrow> bool" where "attr_present a = bit a 7"

definition gate_offset :: "idt_entry \<Rightarrow> u32" where
  "gate_offset e = ucast (ie_offset_low e) OR push_bit 16 (ucast (ie_offset_high e))"

text \<open>An interrupt gate clears the interrupt flag on entry, a trap gate leaves it.\<close>

definition gate_masks :: "idt_entry \<Rightarrow> bool" where
  "gate_masks e = (ie_type_attr e AND 0x0F = 0x0E)"

lemma masks32: "(0xFFFF :: u32) = mask 16" "(0xFF :: u32) = mask 8" "(0x0F :: u32) = mask 4" "(0xFFFFF :: u32) = mask 20" "(0x0F :: u8) = mask 4"
  by (simp_all add: mask_eq_exp_minus_1)

lemma entry_base: "seg_base (gdt_entry_of base limit access flags) = base"
proof (rule bit_word_eqI)
  fix n assume "n < LENGTH(32)"
  then consider "n < 16" | "16 \<le> n" "n < 24" | "24 \<le> n" "n < 32" by force
  then show "bit (seg_base (gdt_entry_of base limit access flags)) n = bit base n"
    by cases (auto simp: seg_base_def gdt_entry_of_def masks32 bit_simps simp del: mask_numeral)
qed

lemma flags_nibble: "(0xF0 :: u32) = push_bit 4 (mask 4)"
  by (simp add: mask_eq_exp_minus_1)

lemma entry_limit: "seg_limit (gdt_entry_of base limit access flags) = limit AND 0xFFFFF"
proof (rule bit_word_eqI)
  fix n assume "n < LENGTH(32)"
  then consider "n < 16" | "16 \<le> n" "n < 20" | "20 \<le> n" "n < 32" by force
  then show "bit (seg_limit (gdt_entry_of base limit access flags)) n = bit (limit AND 0xFFFFF) n"
    unfolding seg_limit_def gdt_entry_of_def masks32 flags_nibble
    by cases (auto simp: bit_simps simp del: mask_numeral push_bit_numeral)
qed

lemma gate_offset_of: "gate_offset \<lparr>ie_offset_low = ucast (a AND 0xFFFF), ie_selector = s, ie_zero = z, ie_type_attr = t,
    ie_offset_high = ucast (drop_bit 16 a AND 0xFFFF)\<rparr> = a"
proof (rule bit_word_eqI)
  fix n assume "n < LENGTH(32)"
  then consider "n < 16" | "16 \<le> n" "n < 32" by force
  then show "bit (gate_offset \<lparr>ie_offset_low = ucast (a AND 0xFFFF), ie_selector = s, ie_zero = z, ie_type_attr = t,
      ie_offset_high = ucast (drop_bit 16 a AND 0xFFFF)\<rparr>) n = bit a n"
    by cases (auto simp: gate_offset_def masks32 bit_simps simp del: mask_numeral)
qed

lemma entry_granular: "bit (ge_granularity (gdt_entry_of base limit access flags)) 7 \<longleftrightarrow> bit flags 7"
  unfolding gdt_entry_of_def masks32 flags_nibble by (auto simp: bit_simps simp del: mask_numeral push_bit_numeral)

lemma set_entry_other [simp]:
  "gd_tss (gdt_set_entry i b l a f s) = gd_tss s" "length (gd_entries (gdt_set_entry i b l a f s)) = length (gd_entries s)"
  by (simp_all add: gdt_set_entry_def)

text \<open>The table after \<open>gdt_init\<close>.\<close>

lemma gdt_init_entries:
  assumes "length (gd_entries s) = 6"
  shows "gd_entries (gdt_init g t k s) =
    [gdt_entry_of 0 0 0 0, gdt_entry_of 0 0xFFFFF 0x9A 0xC0, gdt_entry_of 0 0xFFFFF 0x92 0xC0, gdt_entry_of 0 0xFFFFF 0xFA 0xC0,
     gdt_entry_of 0 0xFFFFF 0xF2 0xC0, gdt_entry_of t 103 0x89 0]"
    "gd_tss (gdt_init g t k s) = tss_init k"
proof -
  obtain a b c d e f where "gd_entries s = [a, b, c, d, e, f]"
    using assms by (auto simp: numeral_eq_Suc length_Suc_conv)
  then show "gd_entries (gdt_init g t k s) = [gdt_entry_of 0 0 0 0, gdt_entry_of 0 0xFFFFF 0x9A 0xC0,
      gdt_entry_of 0 0xFFFFF 0x92 0xC0, gdt_entry_of 0 0xFFFFF 0xFA 0xC0, gdt_entry_of 0 0xFFFFF 0xF2 0xC0, gdt_entry_of t 103 0x89 0]"
    by (simp add: gdt_init_def gdt_set_entry_def gdt_flush_def tss_flush_def upt_rec Let_def)
qed (simp add: gdt_init_def gdt_flush_def tss_flush_def Let_def)

definition seg_view :: "gdt_entry \<Rightarrow> bool \<times> u32 \<times> u32 \<times> nat \<times> u8" where
  "seg_view e = (attr_present (ge_access e), seg_base e, seg_last e, attr_dpl (ge_access e), ge_access e AND 0x1F)"

lemma seg_view_of:
  "seg_view (gdt_entry_of base limit access flags) = (attr_present access, base,
     if bit flags 7 then push_bit 12 (limit AND 0xFFFFF) OR 0xFFF else limit AND 0xFFFFF, attr_dpl access, access AND 0x1F)"
proof -
  have "ge_access (gdt_entry_of base limit access flags) = access" by (simp add: gdt_entry_of_def)
  then show ?thesis by (simp add: seg_view_def seg_last_def entry_base entry_limit entry_granular)
qed

subsection \<open>The gates after \<open>interrupts_init\<close>\<close>

definition gate_for :: "u16 \<Rightarrow> u32 \<Rightarrow> u8 \<Rightarrow> idt_entry" where
  "gate_for sel addr attr = \<lparr>ie_offset_low = ucast (addr AND 0xFFFF), ie_selector = sel, ie_zero = 0, ie_type_attr = attr,
     ie_offset_high = ucast (drop_bit 16 addr AND 0xFFFF)\<rparr>"

lemma set_gate_sel [simp]:
  "it_code_selector (idt_set_gate_attr v a t s) = it_code_selector s" "it_code_selector (idt_set_gate v a s) = it_code_selector s"
  "length (it_idt (idt_set_gate_attr v a t s)) = length (it_idt s)" "length (it_idt (idt_set_gate v a s)) = length (it_idt s)"
  by (simp_all add: idt_set_gate_attr_def idt_set_gate_def)

lemma set_gate_nth:
  "i < length (it_idt s) \<Longrightarrow> it_idt (idt_set_gate_attr v a t s) ! i = (if i = v then gate_for (it_code_selector s) a t else it_idt s ! i)"
  "i < length (it_idt s) \<Longrightarrow> it_idt (idt_set_gate v a s) ! i = (if i = v then gate_for (it_code_selector s) a 0x8E else it_idt s ! i)"
  by (auto simp: idt_set_gate_attr_def idt_set_gate_def gate_for_def nth_upd)

lemma set_gates_fold:
  "it_code_selector (fold (\<lambda>vec. idt_set_gate vec a) vs s) = it_code_selector s \<and>
   length (it_idt (fold (\<lambda>vec. idt_set_gate vec a) vs s)) = length (it_idt s) \<and>
   (\<forall>i < length (it_idt s). it_idt (fold (\<lambda>vec. idt_set_gate vec a) vs s) ! i =
     (if i \<in> set vs then gate_for (it_code_selector s) a 0x8E else it_idt s ! i))"
  by (induction vs arbitrary: s) (auto simp: set_gate_nth)

lemma clear_gates_fold:
  "it_code_selector (fold idt_clear_gate vs s) = it_code_selector s \<and>
   length (it_idt (fold idt_clear_gate vs s)) = length (it_idt s) \<and>
   (\<forall>i < length (it_idt s). it_idt (fold idt_clear_gate vs s) ! i = (if i \<in> set vs then gate_for 0 0 0 else it_idt s ! i))"
  by (induction vs arbitrary: s) (auto simp: idt_clear_gate_def gate_for_def nth_upd)

definition handler_of :: "stubs \<Rightarrow> nat \<Rightarrow> u32" where
  "handler_of sb v =
     (if v = 0x0E then sb_page_fault sb else if v < 0x20 then sb_isr_fault sb else if v = 0x20 then sb_irq0 sb
      else if v = 0x21 then sb_irq1 sb else if v < 0x28 then sb_irq_master sb else if v < 0x30 then sb_irq_slave sb
      else if v = 0x80 then sb_syscall sb else sb_usermode_exit sb)"

lemma interrupts_init_nth:
  assumes "length (it_idt s) = 256" "v < 256"
  shows "it_idt (interrupts_init sb cs a s) ! v =
    (if v < 0x30 then gate_for cs (handler_of sb v) 0x8E else if v = 0x80 \<or> v = 0x81 then gate_for cs (handler_of sb v) 0xEF
     else gate_for 0 0 0)"
proof -
  define s1 where "s1 = fold idt_clear_gate [0..<256] (s\<lparr>it_if := False, it_code_selector := cs\<rparr>)"
  have 1: "it_code_selector s1 = cs" "length (it_idt s1) = 256" "\<And>i. i < 256 \<Longrightarrow> it_idt s1 ! i = gate_for 0 0 0"
    using clear_gates_fold [of "[0..<256]" "s\<lparr>it_if := False, it_code_selector := cs\<rparr>"] assms(1) by (simp_all add: s1_def)
  define s2 where "s2 = fold (\<lambda>vec. idt_set_gate vec (sb_isr_fault sb)) [0x00..<0x20] s1"
  note 2 = set_gates_fold [of "sb_isr_fault sb" "[0x00..<0x20]" s1, folded s2_def, unfolded 1]
  define s3 where "s3 = idt_set_gate 0x0E (sb_page_fault sb) s2"
  have 3: "it_code_selector s3 = cs" "length (it_idt s3) = 256"
    "\<And>i. i < 256 \<Longrightarrow> it_idt s3 ! i = (if i < 0x20 then gate_for cs (handler_of sb i) 0x8E else gate_for 0 0 0)"
    using 2 1(3) by (auto simp: s3_def set_gate_nth handler_of_def)
  define s4 where "s4 = fold (\<lambda>vec. idt_set_gate vec (sb_irq_master sb)) [0x20..<0x28] s3"
  note 4 = set_gates_fold [of "sb_irq_master sb" "[0x20..<0x28]" s3, folded s4_def, unfolded 3]
  define s5 where "s5 = fold (\<lambda>vec. idt_set_gate vec (sb_irq_slave sb)) [0x28..<0x30] s4"
  have 5: "it_code_selector s5 = cs" "length (it_idt s5) = 256"
    "\<And>i. i < 256 \<Longrightarrow> it_idt s5 ! i = (if i \<in> {0x28..<0x30} then gate_for cs (sb_irq_slave sb) 0x8E
       else if i \<in> {0x20..<0x28} then gate_for cs (sb_irq_master sb) 0x8E
       else if i < 0x20 then gate_for cs (handler_of sb i) 0x8E else gate_for 0 0 0)"
    using set_gates_fold [of "sb_irq_slave sb" "[0x28..<0x30]" s4, folded s5_def] 4 3(3) by (auto simp del: upt_rec_numeral)
  have "it_idt (interrupts_init sb cs a s) = it_idt (idt_set_gate 0x21 (sb_irq1 sb) (idt_set_gate 0x20 (sb_irq0 sb)
      (idt_set_gate_attr 0x81 (sb_usermode_exit sb) 0xEF (idt_set_gate_attr 0x80 (sb_syscall sb) 0xEF s5))))"
    unfolding interrupts_init_def Let_def s5_def s4_def s3_def s2_def s1_def
    by (simp add: pic_remap_and_mask_def idt_load_def idt_set_gate_def idt_set_gate_attr_def del: upt_rec_numeral)
  then show ?thesis using 5 assms(2) by (auto simp: set_gate_nth handler_of_def)
qed

section \<open>Properties\<close>

text \<open>
  After \<open>gdt_init\<close> the processor reads a flat code and a flat data segment of 4 GiB for ring 0 and
  for ring 3, at the selectors 0x08, 0x10, 0x1B and 0x23, and a task state segment of 104 bytes at the
  address of the structure, whose ring 0 stack is the given one in the kernel data segment.
\<close>

theorem gdt_init_segments:
  assumes "length (gd_entries s) = 6"
  shows "map seg_view (gd_entries (gdt_init g t k s)) =
      [(False, 0, 0, 0, 0), (True, 0, 0xFFFFFFFF, 0, 0x1A), (True, 0, 0xFFFFFFFF, 0, 0x12),
       (True, 0, 0xFFFFFFFF, 3, 0x1A), (True, 0, 0xFFFFFFFF, 3, 0x12), (True, t, 103, 0, 0x09)] \<and>
    ts_esp0 (gd_tss (gdt_init g t k s)) = k \<and> ts_ss0 (gd_tss (gdt_init g t k s)) = 0x10 \<and>
    gd_gdtr (gdt_init g t k s) = \<lparr>gp_limit = 47, gp_base = g\<rparr> \<and> gd_tr (gdt_init g t k s) = 5 * 8"
proof -
  have "bit (0xC0 :: u8) 7" "\<not> bit (0 :: u8) 7" by simp_all
  then have "map seg_view (gd_entries (gdt_init g t k s)) =
      [(False, 0, 0, 0, 0), (True, 0, 0xFFFFFFFF, 0, 0x1A), (True, 0, 0xFFFFFFFF, 0, 0x12),
       (True, 0, 0xFFFFFFFF, 3, 0x1A), (True, 0, 0xFFFFFFFF, 3, 0x12), (True, t, 103, 0, 0x09)]"
    unfolding gdt_init_entries(1) [OF assms]
    by (simp add: seg_view_of attr_present_def attr_dpl_def)
  moreover have "gd_gdtr (gdt_init g t k s) = \<lparr>gp_limit = 47, gp_base = g\<rparr>" "gd_tr (gdt_init g t k s) = 5 * 8"
    by (simp_all add: gdt_init_def gdt_flush_def tss_flush_def Let_def)
  ultimately show ?thesis by (simp add: gdt_init_entries(2) [OF assms] tss_init_def)
qed

definition demo_gdt :: gdt where
  "demo_gdt = \<lparr>gd_entries = replicate 6 (gdt_entry_of 0 0 0 0), gd_descriptor = \<lparr>gp_limit = 0, gp_base = 0\<rparr>, gd_tss = tss_zero,
     gd_gdtr = \<lparr>gp_limit = 0, gp_base = 0\<rparr>, gd_data_sel = 0, gd_cs = 0, gd_tr = 0\<rparr>"

theorem gdt_init_segments_witness:
  "length (gd_entries demo_gdt) = 6 \<and>
   seg_view (gd_entries (gdt_init 0x107000 0x108000 0x90000 demo_gdt) ! 3) = (True, 0, 0xFFFFFFFF, 3, 0x1A)"
proof -
  have l: "length (gd_entries demo_gdt) = 6" by (simp add: demo_gdt_def)
  have "map seg_view (gd_entries (gdt_init 0x107000 0x108000 0x90000 demo_gdt)) ! 3 = (True, 0, 0xFFFFFFFF, 3, 0x1A)"
    using gdt_init_segments [OF l, of "0x107000" "0x108000" "0x90000"] by simp
  moreover have "length (gd_entries (gdt_init 0x107000 0x108000 0x90000 demo_gdt)) = 6" by (simp add: gdt_init_entries(1) [OF l])
  ultimately show ?thesis using l by simp
qed

text \<open>
  C36.  After \<open>interrupts_init\<close> exactly the vectors below 0x30, 0x80 and 0x81 have a present gate, each with
  its handler and the kernel code selector; a program in ring 3 can only call 0x80 and 0x81, and every
  hardware vector enters with interrupts off.
\<close>

theorem interrupts_init_gates:
  assumes "length (it_idt s) = 256" "v < 256" "e = it_idt (interrupts_init sb cs a s) ! v"
  shows "(attr_present (ie_type_attr e) \<longleftrightarrow> v < 0x30 \<or> v = 0x80 \<or> v = 0x81) \<and>
    (attr_dpl (ie_type_attr e) = 3 \<longleftrightarrow> v = 0x80 \<or> v = 0x81) \<and> (gate_masks e \<longleftrightarrow> v < 0x30) \<and>
    (if attr_present (ie_type_attr e) then gate_offset e = handler_of sb v \<and> ie_selector e = cs else gate_offset e = 0)"
proof -
  have a: "attr_present 0x8E" "attr_present 0xEF" "\<not> attr_present 0" "attr_dpl 0x8E = 0" "attr_dpl 0xEF = 3" "attr_dpl 0 = 0"
    by (simp_all add: attr_present_def attr_dpl_def)
  have g: "gate_offset (gate_for sel x t) = x" "ie_selector (gate_for sel x t) = sel" "ie_type_attr (gate_for sel x t) = t" for sel x t
    unfolding gate_for_def by (rule gate_offset_of) simp_all
  have m: "gate_masks (gate_for sel x 0x8E)" "\<not> gate_masks (gate_for sel x 0xEF)" "\<not> gate_masks (gate_for sel x 0)" for sel x
    by (simp_all add: gate_masks_def g(3))
  have e: "e = (if v < 0x30 then gate_for cs (handler_of sb v) 0x8E
      else if v = 0x80 \<or> v = 0x81 then gate_for cs (handler_of sb v) 0xEF else gate_for 0 0 0)"
    unfolding assms(3) by (rule interrupts_init_nth [OF assms(1,2)])
  consider "v < 0x30" | "\<not> v < 0x30" "v = 0x80 \<or> v = 0x81" | "\<not> v < 0x30" "\<not> (v = 0x80 \<or> v = 0x81)" by blast
  then show ?thesis
  proof cases
    case 1
    then have "e = gate_for cs (handler_of sb v) 0x8E" by (simp add: e)
    with 1 show ?thesis by (simp add: a g m)
  next
    case 2
    then have "e = gate_for cs (handler_of sb v) 0xEF" by (simp add: e)
    with 2 show ?thesis by (simp add: a g m)
  next
    case 3
    then have "e = gate_for 0 0 0" by (simp add: e)
    with 3 show ?thesis by (simp add: a g m)
  qed
qed

theorem interrupts_init_gates_witness:
  "\<exists>s sb. length (it_idt s) = 256 \<and> attr_dpl (ie_type_attr (it_idt (interrupts_init sb 8 0x109000 s) ! 0x80)) = 3 \<and>
     gate_offset (it_idt (interrupts_init sb 8 0x109000 s) ! 0x80) = 0x123456 \<and>
     attr_dpl (ie_type_attr (it_idt (interrupts_init sb 8 0x109000 s) ! 0x0D)) \<noteq> 3"
proof -
  define s where "s = \<lparr>it_idt = replicate 256 (gate_for 0 0 0), it_code_selector = 0, it_idtr = \<lparr>gp_limit = 0, gp_base = 0\<rparr>, it_out = [],
    it_if = False, it_kb = \<lparr>kb_shift = 0, kb_extended = 0, kb_head = 0, kb_tail = 0, kb_buffer = replicate 256 NUL\<rparr>\<rparr>"
  define sb where "sb = \<lparr>sb_isr_fault = 1, sb_page_fault = 2, sb_irq0 = 3, sb_irq1 = 4, sb_irq_master = 5, sb_irq_slave = 6,
    sb_syscall = 0x123456, sb_usermode_exit = 8\<rparr>"
  have l: "length (it_idt s) = 256" by (simp add: s_def)
  show ?thesis
    using interrupts_init_gates [OF l _ refl, of "0x80" sb 8 "0x109000"] interrupts_init_gates [OF l _ refl, of "0x0D" sb 8 "0x109000"] l
    by (intro exI [of _ s] exI [of _ sb]) (simp add: handler_of_def sb_def split: if_splits)
qed

end
