(* ===== verification/Exec.thy ===== *)
theory Exec
  imports Process Console Timer
begin

text \<open>
  The program table of \<open>exec.c\<close>: six named programs, two of them kernel tasks and four user programs,
  their listing and \<open>exec_spawn\<close>, which starts one by name; and the rounds of the two kernel programs.
\<close>

section \<open>Operations\<close>

datatype exec_mode = EXEC_MODE_KERNEL | EXEC_MODE_USER

record program_entry =
  pr_name :: string
  pr_mode :: exec_mode
  pr_entry :: u32
  pr_user_prog_id :: u32

definition exec_str_eq :: "string option \<Rightarrow> string option \<Rightarrow> bool" where
  "exec_str_eq a b = (case (a, b) of (Some x, Some y) \<Rightarrow> str_eq_loop x y 0 | _ \<Rightarrow> False)"

definition exec_str_copy :: "string option \<Rightarrow> u32 \<Rightarrow> string option \<Rightarrow> int \<times> string option" where
  "exec_str_copy dst dst_size src =
     (case (dst, src) of
        (Some d, Some t) \<Rightarrow>
          if dst_size = 0 then (0, dst) else let (d', i) = str_copy_loop d t (unat dst_size) 0 in (int i, Some d')
      | _ \<Rightarrow> (0, dst))"

definition programs :: "symbols \<Rightarrow> program_entry list" where
  "programs sy =
     [\<lparr>pr_name = ''counter'', pr_mode = EXEC_MODE_KERNEL, pr_entry = sym_app_counter sy, pr_user_prog_id = 0\<rparr>,
      \<lparr>pr_name = ''writer'', pr_mode = EXEC_MODE_KERNEL, pr_entry = sym_app_writer sy, pr_user_prog_id = 0\<rparr>,
      \<lparr>pr_name = ''hello_ping'', pr_mode = EXEC_MODE_USER, pr_entry = 0, pr_user_prog_id = 0\<rparr>,
      \<lparr>pr_name = ''helloapp'', pr_mode = EXEC_MODE_USER, pr_entry = 0, pr_user_prog_id = 0\<rparr>,
      \<lparr>pr_name = ''userprobe'', pr_mode = EXEC_MODE_USER, pr_entry = 0, pr_user_prog_id = 1\<rparr>,
      \<lparr>pr_name = ''uping'', pr_mode = EXEC_MODE_USER, pr_entry = 0, pr_user_prog_id = 2\<rparr>]"

definition exec_init :: bool where "exec_init = True"

definition exec_program_count :: "symbols \<Rightarrow> u32" where
  "exec_program_count sy = of_nat (length (programs sy))"

definition exec_program_name_at :: "symbols \<Rightarrow> u32 \<Rightarrow> string option" where
  "exec_program_name_at sy index =
     (if index \<ge> exec_program_count sy then None else Some (pr_name (programs sy ! unat index)))"

definition exec_name_copy_at :: "symbols \<Rightarrow> u32 \<Rightarrow> string option \<Rightarrow> u32 \<Rightarrow> int \<times> string option" where
  "exec_name_copy_at sy index out out_size =
     (case exec_program_name_at sy index of None \<Rightarrow> (-1, out) | Some name \<Rightarrow> exec_str_copy out out_size (Some name))"

definition exec_start :: "symbols \<Rightarrow> nat \<Rightarrow> ksys \<Rightarrow> (int \<times> ksys) option" where
  "exec_start sy i s =
     (let p = programs sy ! i in
      if pr_mode p = EXEC_MODE_USER then process_spawn_user sy (Some (pr_name p)) 0 (pr_user_prog_id p) s
      else process_spawn_kernel sy (Some (pr_name p)) (pr_entry p) (of_nat (i + 1)) s)"

definition exec_spawn :: "symbols \<Rightarrow> string option \<Rightarrow> ksys \<Rightarrow> (int \<times> ksys) option" where
  "exec_spawn sy name s =
     (case first_idx (\<lambda>p. exec_str_eq (Some (pr_name p)) name) (programs sy) of
        None \<Rightarrow> Some (-1, s)
      | Some i \<Rightarrow> map_option (\<lambda>(pid, s'). (if pid < 0 then -1 else pid, s')) (exec_start sy i s))"

text \<open>One round of each kernel program up to its \<open>scheduler_yield\<close>.\<close>

definition writer_payload :: "u32 \<Rightarrow> string" where
  "writer_payload i = ''write#'' @ [char_of (48 + unat (i mod 10)), NUL]"

definition app_writer_round :: "u32 \<Rightarrow> ksys \<Rightarrow> ksys option" where
  "app_writer_round i s =
     map_option (\<lambda>(_, fs). scheduler_yield (s\<lparr>ks_fs := fs\<rparr>)) (vfs_write_file (Some ''app.log'') (Some (writer_payload i)) (ks_fs s))"

definition app_counter_round :: "(nat \<Rightarrow> u8) \<Rightarrow> u32 \<Rightarrow> u32 \<Rightarrow> timer \<Rightarrow> serial \<Rightarrow> serial option" where
  "app_counter_round lsr tag i tm s0 =
     Option.bind (serial_puts lsr ''app counter tag='' s0) (\<lambda>s1.
     Option.bind (serial_put_hex32 lsr tag s1) (\<lambda>s2.
     Option.bind (serial_puts lsr '' i='' s2) (\<lambda>s3.
     Option.bind (serial_put_hex32 lsr i s3) (\<lambda>s4.
     Option.bind (serial_puts lsr '' ticks='' s4) (\<lambda>s5.
     Option.bind (serial_put_hex32 lsr (timer_get_ticks32 tm) s5) (\<lambda>s6.
     serial_puts lsr ''\<newline>'' s6))))))"

section \<open>Lemmas\<close>

interpretation exec_copy: bounded_copy "\<lambda>dst n src. the (snd (exec_str_copy (Some dst) n (Some src)))"
proof
  fix n :: u32 and dst src :: string
  assume "0 < n" "unat n \<le> length dst"
  moreover from this have "0 < unat n" by (simp add: unat_gt_0 word_gt_0)
  ultimately show "cstr (the (snd (exec_str_copy (Some dst) n (Some src)))) = take (unat n - 1) (cstr src)"
    using cstr_str_copy [of "unat n" dst src] by (simp add: exec_str_copy_def case_prod_unfold Let_def word_gt_0)
next
  fix n :: u32 and dst src :: string
  assume "unat n \<le> length dst"
  then show "length (the (snd (exec_str_copy (Some dst) n (Some src)))) = length dst"
    using cstr_str_copy(3) [of "unat n" dst src] by (auto simp: exec_str_copy_def case_prod_unfold Let_def unat_gt_0)
qed

lemma exec_program_count [simp]: "exec_program_count sy = 6"
  by (simp add: exec_program_count_def programs_def)

lemma program_names: "i < 6 \<Longrightarrow> j < 6 \<Longrightarrow> pr_name (programs sy ! i) = pr_name (programs sy ! j) \<Longrightarrow> i = j"
proof -
  assume "i < 6" "j < 6"
  moreover have "distinct (map pr_name (programs sy))" "length (programs sy) = 6" by (simp_all add: programs_def)
  moreover assume "pr_name (programs sy ! i) = pr_name (programs sy ! j)"
  ultimately show "i = j" using nth_eq_iff_index_eq [of "map pr_name (programs sy)" i j] by simp
qed

lemma program_name_text: "i < 6 \<Longrightarrow> cstr (pr_name (programs sy ! i)) = pr_name (programs sy ! i) \<and> length (pr_name (programs sy ! i)) \<le> 10"
  by (auto simp: programs_def cstr_def numeral_eq_Suc less_Suc_eq)

text \<open>The name that the listing shows at an index starts that program.\<close>

lemma exec_spawn_listed:
  assumes "exec_program_name_at sy index = Some name"
  shows "exec_spawn sy (Some name) s =
    map_option (\<lambda>(pid, s'). (if pid < 0 then -1 else pid, s')) (exec_start sy (unat index) s)"
proof -
  have i: "unat index < 6" "name = pr_name (programs sy ! unat index)"
    using assms by (auto simp: exec_program_name_at_def word_le_nat_alt split: if_splits)
  have l: "length (programs sy) = 6" by (simp add: programs_def)
  have "first_idx (\<lambda>p. exec_str_eq (Some (pr_name p)) (Some name)) (programs sy) = Some (unat index)"
    unfolding first_idx_Some
  proof (intro conjI allI impI)
    show "unat index < length (programs sy)" using i l by simp
    show "exec_str_eq (Some (pr_name (programs sy ! unat index))) (Some name)" by (simp add: exec_str_eq_def str_eq_loop_cstr i(2))
    fix j assume j: "j < unat index"
    then have "pr_name (programs sy ! j) \<noteq> name" using program_names [of j "unat index" sy] i by auto
    then show "\<not> exec_str_eq (Some (pr_name (programs sy ! j))) (Some name)"
      using program_name_text [of j sy] program_name_text [of "unat index" sy] i j
      by (simp add: exec_str_eq_def str_eq_loop_cstr)
  qed
  then show ?thesis by (simp add: exec_spawn_def)
qed

end
