(* ===== verification/Syscall.thy ===== *)
theory Syscall
  imports Exec Ipc Address_Space
begin

text \<open>
  The system call handler of \<open>syscall.c\<close> over the models of the subsystems it calls: the checks of
  pointers handed in by the caller, the bounded copy of a text from the caller's memory, and the
  dispatch.  Memory of the caller is read and written through the current page directory, byte by byte;
  the bytes of the kernel heap are those of \<open>fs_bytes\<close>.  The kernel's own variables are fields of the
  state records and not bytes of that memory, so a kernel task that passed their address is outside the
  model; a user task cannot, as the pointer checks show.
\<close>

section \<open>State and memory of the caller\<close>

record kernel =
  kn_sys :: ksys
  kn_ipc :: ipc
  kn_timer :: timer
  kn_ping :: u32

abbreviation vm_of :: "ksys \<Rightarrow> vm" where "vm_of s \<equiv> km_vm (km_of s)"

definition in_heap :: "kmem \<Rightarrow> u32 \<Rightarrow> bool" where
  "in_heap km a \<longleftrightarrow> hp_ready (km_heap km) \<and> KHEAP_START \<le> a \<and> a < hp_end (km_heap km)"

text \<open>A byte at a virtual address; None is a page fault.\<close>

definition virt_load :: "u32 \<Rightarrow> ksys \<Rightarrow> char option" where
  "virt_load a s = map_option (\<lambda>pa. if in_heap (km_of s) a then fs_bytes (ks_fs s) a else char_of (unat (vm_mem (vm_of s) pa)))
     (paging_translate a (vm_of s))"

definition virt_store :: "u32 \<Rightarrow> char \<Rightarrow> ksys \<Rightarrow> ksys option" where
  "virt_store a c s = map_option (\<lambda>pa.
       if in_heap (km_of s) a then s\<lparr>ks_fs := (ks_fs s)\<lparr>fs_bytes := (fs_bytes (ks_fs s))(a := c)\<rparr>\<rparr>
       else on_vm (\<lambda>v. v\<lparr>vm_mem := (vm_mem v)(pa := of_char c)\<rparr>) s)
     (paging_translate a (vm_of s))"

fun virt_store_list :: "u32 \<Rightarrow> string \<Rightarrow> ksys \<Rightarrow> ksys option" where
  "virt_store_list a [] s = Some s"
| "virt_store_list a (c # cs) s = Option.bind (virt_store a c s) (virt_store_list (a + 1) cs)"

text \<open>The buffer at an address, as the list of its bytes.\<close>

definition virt_buffer :: "u32 \<Rightarrow> u32 \<Rightarrow> ksys \<Rightarrow> string option" where
  "virt_buffer a n s = those (map (\<lambda>i. virt_load (a + of_nat i) s) [0..<unat n])"

section \<open>Operations\<close>

definition ptr_range_mapped :: "u32 \<Rightarrow> u32 \<Rightarrow> vm \<Rightarrow> bool" where
  "ptr_range_mapped ptr sz v =
     (if ptr = 0 \<or> sz = 0 then False
      else if ptr > 0xFFFFFFFF - (sz - 1) then False
      else pages_loop (\<lambda>page. paging_translate page v \<noteq> None) (ptr AND 0xFFFFF000) (ptr + sz - 1))"

definition ptr_range_ok :: "u32 \<Rightarrow> u32 \<Rightarrow> bool \<Rightarrow> vm \<Rightarrow> bool" where
  "ptr_range_ok ptr sz user_only v =
     (if \<not> ptr_range_mapped ptr sz v then False
      else if user_only then paging_user_accessible ptr sz v
      else True)"

abbreviation UINT32_MAX :: u32 where "UINT32_MAX \<equiv> 0xFFFFFFFF"

text \<open>The loop of \<open>copy_in_string\<close> and what follows it; the outer option is a page fault on \<open>src[i]\<close>.\<close>

function copy_in_loop :: "string \<Rightarrow> nat \<Rightarrow> u32 \<Rightarrow> bool \<Rightarrow> ksys \<Rightarrow> nat \<Rightarrow> (u32 \<times> string) option" where
  "copy_in_loop dst dst_size src user_only s i =
     (if i + 1 < dst_size then
        if \<not> ptr_range_ok (src + of_nat i) 1 user_only (vm_of s) then Some (UINT32_MAX, dst)
        else case virt_load (src + of_nat i) s of
          None \<Rightarrow> None
        | Some c \<Rightarrow> if c = NUL then Some (of_nat i, dst[i := NUL])
            else copy_in_loop (dst[i := c]) dst_size src user_only s (i + 1)
      else
        if \<not> ptr_range_ok (src + of_nat i) 1 user_only (vm_of s) then Some (UINT32_MAX, dst)
        else case virt_load (src + of_nat i) s of
          None \<Rightarrow> None
        | Some c \<Rightarrow> if c \<noteq> NUL then Some (UINT32_MAX, dst) else Some (of_nat i, dst[i := NUL]))"
  by pat_completeness auto
termination
  by (relation "measure (\<lambda>(dst, n, src, u, s, i). n - i)") auto

declare copy_in_loop.simps [simp del]

definition copy_in_string :: "string \<Rightarrow> u32 \<Rightarrow> u32 \<Rightarrow> bool \<Rightarrow> ksys \<Rightarrow> (u32 \<times> string) option" where
  "copy_in_string dst dst_size src user_only s =
     (if src = 0 \<or> dst_size = 0 then Some (UINT32_MAX, dst) else copy_in_loop dst (unat dst_size) src user_only s 0)"

text \<open>
  A local buffer \<open>char buf[n]\<close> filled by \<open>copy_in_string\<close>: the text, or None in the inner option when the copy
  failed.  The bytes that the buffer holds before are not read.
\<close>

definition local_string :: "nat \<Rightarrow> u32 \<Rightarrow> bool \<Rightarrow> ksys \<Rightarrow> string option option" where
  "local_string n src user_only s =
     map_option (\<lambda>(r, buf). if r = UINT32_MAX then None else Some buf)
       (copy_in_string (replicate n NUL) (of_nat n) src user_only s)"

text \<open>
  A call that fills the caller's buffer: \<open>f\<close> is the subsystem's operation on the buffer; its result is
  negative when it wrote nothing and else the number of characters it put in front of the terminator.
\<close>

definition into_buffer :: "u32 \<Rightarrow> u32 \<Rightarrow> (string option \<Rightarrow> int \<times> string option) \<Rightarrow> ksys \<Rightarrow> (u32 \<times> ksys) option" where
  "into_buffer out_ptr out_size f s =
     Option.bind (virt_buffer out_ptr out_size s) (\<lambda>buf.
       let (r, buf') = f (Some buf) in
       if r < 0 then Some (of_int r, s)
       else map_option (\<lambda>s'. (of_int r, s')) (virt_store_list out_ptr (take (nat r + 1) (the buf')) s))"

definition on_sys :: "(u32 \<times> ksys) option \<Rightarrow> kernel \<Rightarrow> (u32 \<times> kernel) option" where
  "on_sys r k = map_option (\<lambda>(v, s). (v, k\<lparr>kn_sys := s\<rparr>)) r"

definition caller_tid :: "kernel \<Rightarrow> u32" where
  "caller_tid k = scheduler_current_task_id (ks_sched (kn_sys k))"

definition caller_pid :: "kernel \<Rightarrow> u32" where
  "caller_pid k = process_current_pid (caller_tid k) (ks_procs (kn_sys k))"

definition sys_vfs_read :: "(nat \<Rightarrow> u32) \<Rightarrow> bool \<Rightarrow> kernel \<Rightarrow> (u32 \<times> kernel) option" where
  "sys_vfs_read frame u k =
     (case local_string 40 (frame 4) u (kn_sys k) of
        None \<Rightarrow> None
      | Some None \<Rightarrow> Some (0xFFFFFFFF, k)
      | Some (Some name_buf) \<Rightarrow>
          if c_at name_buf 0 = NUL then Some (0xFFFFFFFF, k)
          else if \<not> ptr_range_ok (frame 6) (frame 5) u (vm_of (kn_sys k)) then Some (0xFFFFFFFF, k)
          else on_sys (into_buffer (frame 6) (frame 5)
                 (\<lambda>out. vfs_read_file_into (Some name_buf) out (frame 5) (ks_fs (kn_sys k))) (kn_sys k)) k)"

definition sys_vfs_write :: "(nat \<Rightarrow> u32) \<Rightarrow> bool \<Rightarrow> kernel \<Rightarrow> (u32 \<times> kernel) option" where
  "sys_vfs_write frame u k =
     (case local_string 40 (frame 4) u (kn_sys k) of
        None \<Rightarrow> None
      | Some None \<Rightarrow> Some (0, k)
      | Some (Some name_buf) \<Rightarrow>
          if c_at name_buf 0 = NUL then Some (0, k)
          else (case local_string 128 (frame 6) u (kn_sys k) of
             None \<Rightarrow> None
           | Some None \<Rightarrow> Some (0, k)
           | Some (Some data_buf) \<Rightarrow>
               map_option (\<lambda>(r, fs). (if r then 1 else 0, k\<lparr>kn_sys := (kn_sys k)\<lparr>ks_fs := fs\<rparr>\<rparr>))
                 (vfs_write_file (Some name_buf) (Some data_buf) (ks_fs (kn_sys k)))))"

definition sys_exec_spawn :: "symbols \<Rightarrow> (nat \<Rightarrow> u32) \<Rightarrow> bool \<Rightarrow> kernel \<Rightarrow> (u32 \<times> kernel) option" where
  "sys_exec_spawn sy frame u k =
     (case local_string 40 (frame 4) u (kn_sys k) of
        None \<Rightarrow> None
      | Some None \<Rightarrow> Some (0xFFFFFFFF, k)
      | Some (Some name_buf) \<Rightarrow>
          if c_at name_buf 0 = NUL then Some (0xFFFFFFFF, k)
          else on_sys (map_option (\<lambda>(r, s). (of_int r, s)) (exec_spawn sy (Some name_buf) (kn_sys k))) k)"

definition sys_exec_name_at :: "symbols \<Rightarrow> (nat \<Rightarrow> u32) \<Rightarrow> bool \<Rightarrow> kernel \<Rightarrow> (u32 \<times> kernel) option" where
  "sys_exec_name_at sy frame u k =
     (if \<not> ptr_range_ok (frame 6) (frame 5) u (vm_of (kn_sys k)) then Some (0xFFFFFFFF, k)
      else on_sys (into_buffer (frame 6) (frame 5) (\<lambda>out. exec_name_copy_at sy (frame 4) out (frame 5)) (kn_sys k)) k)"

definition sys_ipc_send :: "(nat \<Rightarrow> u32) \<Rightarrow> bool \<Rightarrow> kernel \<Rightarrow> (u32 \<times> kernel) option" where
  "sys_ipc_send frame u k =
     (case local_string 64 (frame 6) u (kn_sys k) of
        None \<Rightarrow> None
      | Some None \<Rightarrow> Some (0, k)
      | Some (Some msg_buf) \<Rightarrow>
          if c_at msg_buf 0 = NUL then Some (0, k)
          else let (q, r) = ipc_send (caller_pid k) (frame 4) (Some msg_buf) (kn_ipc k)
               in Some (if r then 1 else 0, k\<lparr>kn_ipc := q\<rparr>))"

text \<open>The result and the buffer of \<open>ipc_recv\<close>; the sender goes to a local variable that is not used.\<close>

definition recv_into :: "u32 \<Rightarrow> u32 \<Rightarrow> ipc \<Rightarrow> string option \<Rightarrow> int \<times> string option" where
  "recv_into pid n q out = (let (_, out', _, r) = ipc_recv pid out n (Some 0) q in (r, out'))"

definition sys_ipc_recv :: "(nat \<Rightarrow> u32) \<Rightarrow> bool \<Rightarrow> kernel \<Rightarrow> (u32 \<times> kernel) option" where
  "sys_ipc_recv frame u k =
     (if \<not> ptr_range_ok (frame 6) (frame 5) u (vm_of (kn_sys k)) then Some (0xFFFFFFFF, k)
      else map_option (\<lambda>(v, k'). (v, k'\<lparr>kn_ipc :=
               fst (ipc_recv (caller_pid k) (virt_buffer (frame 6) (frame 5) (kn_sys k)) (frame 5) (Some 0) (kn_ipc k))\<rparr>))
             (on_sys (into_buffer (frame 6) (frame 5) (recv_into (caller_pid k) (frame 5) (kn_ipc k)) (kn_sys k)) k))"

definition syscall_dispatch :: "symbols \<Rightarrow> (nat \<Rightarrow> u32) \<Rightarrow> kernel \<Rightarrow> (u32 \<times> kernel) option" where
  "syscall_dispatch sy frame k =
     (let no = frame 7; s = kn_sys k; tid = caller_tid k;
          user_only = (\<not> process_current_is_kernel tid (ks_procs s))
      in if \<not> process_syscall_allowed no tid (ks_procs s) then Some (0xFFFFFFFD, k)
         else if no = 0 then Some (timer_get_ticks32 (kn_timer k), k)
         else if no = 1 then Some (kheap_total_bytes (km_of s), k)
         else if no = 2 then Some (kheap_used_bytes (km_of s), k)
         else if no = 3 then Some (scheduler_task_count (ks_sched s), k)
         else if no = 4 then Some (scheduler_runnable_count (ks_sched s), k)
         else if no = 5 then Some (scheduler_current_task_id (ks_sched s), k)
         else if no = 6 then Some (vfs_file_count (ks_fs s), k)
         else if no = 7 then sys_vfs_read frame user_only k
         else if no = 8 then sys_vfs_write frame user_only k
         else if no = 9 then Some (process_count (ks_procs s), k)
         else if no = 10 then Some (process_current_pid tid (ks_procs s), k)
         else if no = 11 then Some (exec_program_count sy, k)
         else if no = 12 then sys_exec_spawn sy frame user_only k
         else if no = 13 then sys_exec_name_at sy frame user_only k
         else if no = 14 then sys_ipc_send frame user_only k
         else if no = 15 then sys_ipc_recv frame user_only k
         else if no = 16 then Some (ipc_pending_count (kn_ipc k), k)
         else if no = 17 then Some (kn_ping k + 1, k\<lparr>kn_ping := kn_ping k + 1\<rparr>)
         else if no = 18 then Some (kn_ping k, k)
         else if no = 19 then map_option (\<lambda>s'. (0, k\<lparr>kn_sys := s'\<rparr>)) (scheduler_exit_current s)
         else Some (0xFFFFFFFF, k))"

text \<open>The stub: the result goes to the saved \<open>eax\<close>, the other registers of the caller are restored.\<close>

definition syscall_stub :: "symbols \<Rightarrow> (nat \<Rightarrow> u32) \<Rightarrow> kernel \<Rightarrow> ((nat \<Rightarrow> u32) \<times> kernel) option" where
  "syscall_stub sy frame k = map_option (\<lambda>(v, k'). (frame(7 := v), k')) (syscall_dispatch sy frame k)"

section \<open>Pointer checks\<close>

lemma translate_page: "page_of v = page_of w \<Longrightarrow> (paging_translate v s \<noteq> None) = (paging_translate w s \<noteq> None)"
  using same_page_iff [of v w] by (simp add: paging_translate_def Let_def)

lemma user_byte_translate: "pg_is_enabled (vm_pg v) \<Longrightarrow> user_byte (vm_mem v) (paging_active_directory v) a \<Longrightarrow> paging_translate a v \<noteq> None"
  by (auto simp: user_byte_pte translate_pte)

lemma ptr_mapped_iff:
  "ptr_range_mapped ptr sz v \<longleftrightarrow> ptr \<noteq> 0 \<and> sz \<noteq> 0 \<and> unat ptr + unat sz \<le> 4294967296 \<and>
     (\<forall>k < unat sz. paging_translate (ptr + of_nat k) v \<noteq> None)"
proof (cases "ptr \<noteq> 0 \<and> sz \<noteq> 0 \<and> unat ptr + unat sz \<le> 4294967296")
  case False
  then show ?thesis using range_check [of sz ptr] by (auto simp: ptr_range_mapped_def)
next
  case True
  have r: "pages_loop (\<lambda>page. paging_translate page v \<noteq> None) (ptr AND 0xFFFFF000) (ptr + sz - 1) \<longleftrightarrow>
      (\<forall>k < unat sz. paging_translate (ptr + of_nat k) v \<noteq> None)"
    using True by (intro pages_range translate_page) simp_all
  have "\<not> ptr > 0xFFFFFFFF - (sz - 1)" using True range_check [of sz ptr] by simp
  then show ?thesis using True unfolding ptr_range_mapped_def r by simp
qed

text \<open>A byte that the caller may name: not at address 0, mapped, and for a user task accessible from ring 3.\<close>

definition accessible :: "bool \<Rightarrow> vm \<Rightarrow> u32 \<Rightarrow> bool" where
  "accessible user_only v a \<longleftrightarrow> paging_translate a v \<noteq> None \<and>
     (user_only \<longrightarrow> user_byte (vm_mem v) (paging_active_directory v) a)"

lemma ptr_ok_iff:
  "ptr_range_ok ptr sz u v \<longleftrightarrow> ptr \<noteq> 0 \<and> sz \<noteq> 0 \<and> unat ptr + unat sz \<le> 4294967296 \<and>
     (\<forall>k < unat sz. accessible u v (ptr + of_nat k))"
proof (cases "pg_is_enabled (vm_pg v)")
  case True
  then show ?thesis unfolding ptr_range_ok_def ptr_mapped_iff user_accessible_iff accessible_def by auto
next
  case False
  then have "paging_translate a v = None" for a by (simp add: translate_pte)
  moreover have "\<exists>k. k < unat sz" if "sz \<noteq> 0" using that by (intro exI [of _ 0]) (simp add: unat_gt_0)
  ultimately show ?thesis unfolding ptr_range_ok_def ptr_mapped_iff accessible_def by auto
qed

lemma ptr_ok_1: "ptr_range_ok a 1 u v \<longleftrightarrow> a \<noteq> 0 \<and> accessible u v a"
  using unat_u32_less [of a] by (auto simp: ptr_ok_iff)

lemma virt_load_Some: "accessible u (vm_of s) a \<Longrightarrow> \<exists>c. virt_load a s = Some c"
  by (auto simp: accessible_def virt_load_def)

section \<open>Texts of the caller\<close>

definition c_string_at :: "bool \<Rightarrow> ksys \<Rightarrow> u32 \<Rightarrow> string \<Rightarrow> bool" where
  "c_string_at u s a t \<longleftrightarrow> NUL \<notin> set t \<and>
     (\<forall>i \<le> length t. a + of_nat i \<noteq> 0 \<and> accessible u (vm_of s) (a + of_nat i) \<and> virt_load (a + of_nat i) s = Some (c_at t i))"

lemma c_string_Cons:
  "c_string_at u s a (c # t) \<longleftrightarrow> c \<noteq> NUL \<and> a \<noteq> 0 \<and> accessible u (vm_of s) a \<and> virt_load a s = Some c \<and> c_string_at u s (a + 1) t"
proof -
  define Q where "Q i \<longleftrightarrow> a + of_nat i \<noteq> 0 \<and> accessible u (vm_of s) (a + of_nat i) \<and>
    virt_load (a + of_nat i) s = Some (c_at (c # t) i)" for i
  have "(\<forall>i \<le> Suc n. Q i) \<longleftrightarrow> Q 0 \<and> (\<forall>i \<le> n. Q (Suc i))" for n
    unfolding less_Suc_eq_le [symmetric] by (rule All_less_Suc2)
  moreover have "Q (Suc i) \<longleftrightarrow> a + 1 + of_nat i \<noteq> 0 \<and> accessible u (vm_of s) (a + 1 + of_nat i) \<and>
    virt_load (a + 1 + of_nat i) s = Some (c_at t i)" for i by (simp add: Q_def c_at_def add.assoc)
  moreover have "Q 0 \<longleftrightarrow> a \<noteq> 0 \<and> accessible u (vm_of s) a \<and> virt_load a s = Some c" by (simp add: Q_def c_at_def)
  ultimately show ?thesis unfolding c_string_at_def Q_def [symmetric] by simp blast
qed

lemma c_string_Nil: "c_string_at u s a [] \<longleftrightarrow> a \<noteq> 0 \<and> accessible u (vm_of s) a \<and> virt_load a s = Some NUL"
  by (simp add: c_string_at_def c_at_def)

lemma next_byte: "src + of_nat (i + 1) = src + of_nat i + (1 :: u32)"
  by simp

lemma copy_in_loop_text:
  assumes "c_string_at u s (src + of_nat i) t" "i + length t < n" "n \<le> length dst"
  shows "copy_in_loop dst n src u s i = Some (of_nat (i + length t), take i dst @ t @ NUL # drop (i + length t + 1) dst)"
  using assms
proof (induction t arbitrary: i dst)
  case Nil
  have u: "take i dst @ [] @ NUL # drop (i + 0 + 1) dst = dst[i := NUL]" using Nil.prems by (simp add: upd_conv_take_nth_drop)
  from Nil.prems have "ptr_range_ok (src + of_nat i) 1 u (vm_of s)" "virt_load (src + of_nat i) s = Some NUL"
    by (simp_all add: c_string_Nil ptr_ok_1)
  then show ?case unfolding list.size u by (subst copy_in_loop.simps) simp
next
  case (Cons c t)
  have c: "c \<noteq> NUL" "ptr_range_ok (src + of_nat i) 1 u (vm_of s)" "virt_load (src + of_nat i) s = Some c"
    "c_string_at u s (src + of_nat (i + 1)) t"
    using Cons.prems(1) unfolding next_byte by (simp_all add: c_string_Cons ptr_ok_1)
  then have "copy_in_loop dst n src u s i = copy_in_loop (dst[i := c]) n src u s (i + 1)"
    using Cons.prems(2) by (subst copy_in_loop.simps) simp
  also have "\<dots> = Some (of_nat (i + 1 + length t), take (i + 1) (dst[i := c]) @ t @ NUL # drop (i + 1 + length t + 1) (dst[i := c]))"
    using Cons.prems(2,3) by (intro Cons.IH c(4)) simp_all
  also have "take (i + 1) (dst[i := c]) = take i dst @ [c]" using Cons.prems by (simp add: take_Suc_conv_app_nth)
  finally show ?case by simp
qed

lemma copy_in_loop_fails:
  assumes "\<And>t. c_string_at u s (src + of_nat i) t \<Longrightarrow> n \<le> i + length t" "i < n"
  shows "\<exists>d. copy_in_loop dst n src u s i = Some (UINT32_MAX, d)"
  using assms
proof (induction "n - i" arbitrary: i dst)
  case 0
  then show ?case by simp
next
  case (Suc k)
  show ?case
  proof (cases "ptr_range_ok (src + of_nat i) 1 u (vm_of s)")
    case False
    then show ?thesis by (subst copy_in_loop.simps) simp
  next
    case True
    then have acc: "src + of_nat i \<noteq> 0" "accessible u (vm_of s) (src + of_nat i)" by (simp_all add: ptr_ok_1)
    obtain c where c: "virt_load (src + of_nat i) s = Some c" using virt_load_Some [OF acc(2)] by blast
    have nz: "c \<noteq> NUL" using Suc.prems(1) [of "[]"] Suc.prems(2) acc c by (auto simp: c_string_Nil)
    show ?thesis
    proof (cases "i + 1 < n")
      case False
      then show ?thesis using True c nz by (subst copy_in_loop.simps) simp
    next
      case lt: True
      have "n \<le> (i + 1) + length t" if "c_string_at u s (src + of_nat (i + 1)) t" for t
        using Suc.prems(1) [of "c # t"] that acc c nz unfolding next_byte by (simp add: c_string_Cons)
      then have "\<exists>d. copy_in_loop (dst[i := c]) n src u s (i + 1) = Some (UINT32_MAX, d)"
        using Suc.hyps(2) lt by (intro Suc.hyps(1)) simp_all
      then show ?thesis using True c nz lt by (subst copy_in_loop.simps) simp
    qed
  qed
qed

section \<open>Writes to the caller's memory\<close>

text \<open>The physical bytes that ring 3 can reach through the current directory.\<close>

definition user_phys :: "vm \<Rightarrow> u32 set" where
  "user_phys v = {pa. \<exists>a. user_byte (vm_mem v) (paging_active_directory v) a \<and> paging_translate a v = Some pa}"

text \<open>
  What the address spaces of \<open>process.c\<close> guarantee: no page that ring 3 can reach is the current directory, a
  page table of it or a page of the kernel heap.
\<close>

definition user_mem_ok :: "ksys \<Rightarrow> bool" where
  "user_mem_ok s \<longleftrightarrow> (let v = vm_of s; m = vm_mem v; d = paging_active_directory v in
     pg_is_enabled (vm_pg v) \<and> page_addr d \<and>
     (\<forall>pa \<in> user_phys v. table_of pa \<noteq> d \<and> (\<forall>i < 1024. pres (entry_get m d i) \<longrightarrow> table_of pa \<noteq> table_of (entry_get m d i))) \<and>
     (\<forall>a. user_byte m d a \<longrightarrow> \<not> in_heap (km_of s) a))"

definition with_mem :: "mem \<Rightarrow> ksys \<Rightarrow> ksys" where
  "with_mem m s = on_vm (\<lambda>v. v\<lparr>vm_mem := m\<rparr>) s"

text \<open>Only bytes that ring 3 can reach differ.\<close>

definition confined :: "ksys \<Rightarrow> ksys \<Rightarrow> bool" where
  "confined s s' \<longleftrightarrow> (\<exists>m. s' = with_mem m s \<and> (\<forall>pa. pa \<notin> user_phys (vm_of s) \<longrightarrow> m pa = vm_mem (vm_of s) pa))"

lemma with_mem_simps [simp]:
  "vm_mem (vm_of (with_mem m s)) = m" "vm_pg (vm_of (with_mem m s)) = vm_pg (vm_of s)" "vm_pmm (vm_of (with_mem m s)) = vm_pmm (vm_of s)"
  "km_heap (km_of (with_mem m s)) = km_heap (km_of s)" "ks_procs (with_mem m s) = ks_procs s" "ks_sched (with_mem m s) = ks_sched s"
  "with_mem m' (with_mem m s) = with_mem m' s" "with_mem (vm_mem (vm_of s)) s = s"
  "fs_bytes (ks_fs (with_mem m s)) = fs_bytes (ks_fs s)" "fs_files (ks_fs (with_mem m s)) = fs_files (ks_fs s)"
  by (simp_all add: with_mem_def on_vm_def)

lemma active_with_mem [simp]: "paging_active_directory (vm_of (with_mem m s)) = paging_active_directory (vm_of s)"
  by (simp add: paging_active_directory_def)

lemma in_heap_with_mem [simp]: "in_heap (km_of (with_mem m s)) = in_heap (km_of s)"
  by (simp add: in_heap_def fun_eq_iff)

lemma confined_refl: "confined s s"
  unfolding confined_def by (intro exI [of _ "vm_mem (vm_of s)"]) simp

lemma page_byte:
  assumes "page_addr t" "n < 4096"
  shows "table_of (t + of_nat n) = t"
proof -
  obtain q where q: "unat t = q * 4096" using assms(1) by (auto simp: page_addr_def mod_eq_0_iff_dvd)
  then have "q * 4096 < 4294967296" using unat_u32_less [of t] by simp
  then have "q * 4096 + 4096 \<le> 4294967296" by simp
  moreover have n: "unat (of_nat n :: u32) = n" using assms(2) by (simp add: unat_of_nat)
  ultimately have "unat (t + of_nat n) = q * 4096 + n" using assms(2) q unat_plus_small [of t "of_nat n"] by simp
  moreover have "unat (table_of (t + of_nat n)) = unat (t + of_nat n) div 4096 * 4096"
    using unat_page_base [of "t + of_nat n"] by (simp only: page_mask_minus)
  ultimately have "unat (table_of (t + of_nat n)) = unat t" using assms(2) q by simp
  then show ?thesis by (simp only: unat_inj_u32)
qed

lemma entry_get_same:
  assumes "page_addr t" "i < 1024" "\<And>pa. table_of pa = t \<Longrightarrow> m' pa = m pa"
  shows "entry_get m' t i = entry_get m t i"
proof -
  have "m' (entry_addr t i + of_nat k) = m (entry_addr t i + of_nat k)" if "k < 4" for k
  proof -
    have e: "entry_addr t i + of_nat k = t + of_nat (4 * i + k)" by (simp add: entry_addr_def)
    show ?thesis unfolding e using assms(2) that by (intro assms(3) page_byte [OF assms(1)]) simp
  qed
  from this [of 0] this [of 1] this [of 2] this [of 3] show ?thesis by (simp add: entry_get_def load32_def)
qed

text \<open>A confined change leaves the address space of the caller as it is.\<close>

lemma confined_tables:
  assumes ok: "user_mem_ok s" and c: "confined s s'"
  shows "pte_at (vm_mem (vm_of s')) (paging_active_directory (vm_of s')) a = pte_at (vm_mem (vm_of s)) (paging_active_directory (vm_of s)) a"
    and "i < 1024 \<Longrightarrow> entry_get (vm_mem (vm_of s')) (paging_active_directory (vm_of s')) i = entry_get (vm_mem (vm_of s)) (paging_active_directory (vm_of s)) i"
proof -
  obtain m where m: "s' = with_mem m s" "\<And>pa. pa \<notin> user_phys (vm_of s) \<Longrightarrow> m pa = vm_mem (vm_of s) pa"
    using c by (auto simp: confined_def)
  let ?d = "paging_active_directory (vm_of s)" and ?m = "vm_mem (vm_of s)"
  have d: "page_addr ?d" "\<And>pa. pa \<in> user_phys (vm_of s) \<Longrightarrow> table_of pa \<noteq> ?d"
    "\<And>pa i. pa \<in> user_phys (vm_of s) \<Longrightarrow> i < 1024 \<Longrightarrow> pres (entry_get ?m ?d i) \<Longrightarrow> table_of pa \<noteq> table_of (entry_get ?m ?d i)"
    using ok by (auto simp: user_mem_ok_def Let_def)
  have dir: "entry_get m ?d i = entry_get ?m ?d i" if "i < 1024" for i
    using d(2) by (intro entry_get_same [OF d(1) that] m(2)) blast
  then show "i < 1024 \<Longrightarrow> entry_get (vm_mem (vm_of s')) (paging_active_directory (vm_of s')) i = entry_get ?m ?d i" by (simp add: m(1))
  have "entry_get m (table_of (entry_get ?m ?d (pd_index a))) (pt_index a) = entry_get ?m (table_of (entry_get ?m ?d (pd_index a))) (pt_index a)"
    if "pres (entry_get ?m ?d (pd_index a))"
    using d(3) [OF _ pd_index_less that] by (intro entry_get_same [OF table_of_page pt_index_less] m(2)) blast
  then show "pte_at (vm_mem (vm_of s')) (paging_active_directory (vm_of s')) a = pte_at ?m ?d a"
    using dir [OF pd_index_less] by (cases "pres (entry_get ?m ?d (pd_index a))") (simp_all add: m(1) pte_at_def Let_def)
qed

lemma confined_space:
  assumes ok: "user_mem_ok s" and c: "confined s s'"
  shows "paging_translate a (vm_of s') = paging_translate a (vm_of s)"
    and "user_byte (vm_mem (vm_of s')) (paging_active_directory (vm_of s')) a = user_byte (vm_mem (vm_of s)) (paging_active_directory (vm_of s)) a"
    and "user_phys (vm_of s') = user_phys (vm_of s)" and "user_mem_ok s'"
proof -
  obtain m where m: "s' = with_mem m s" using c by (auto simp: confined_def)
  show t: "paging_translate a (vm_of s') = paging_translate a (vm_of s)" for a
    using confined_tables(1) [OF assms, of a] by (simp add: translate_pte m)
  show u: "user_byte (vm_mem (vm_of s')) (paging_active_directory (vm_of s')) a = user_byte (vm_mem (vm_of s)) (paging_active_directory (vm_of s)) a" for a
    using confined_tables(1) [OF assms, of a] confined_tables(2) [OF assms pd_index_less, of a] by (simp add: user_byte_pte)
  show p: "user_phys (vm_of s') = user_phys (vm_of s)" unfolding user_phys_def u t ..
  show "user_mem_ok s'"
    using ok confined_tables(2) [OF assms] unfolding user_mem_ok_def Let_def u p by (simp add: m)
qed

lemma confined_trans:
  assumes "user_mem_ok s" "confined s t" "confined t u"
  shows "confined s u"
proof -
  obtain m where m: "t = with_mem m s" "\<And>pa. pa \<notin> user_phys (vm_of s) \<Longrightarrow> m pa = vm_mem (vm_of s) pa"
    using assms(2) by (auto simp: confined_def)
  obtain m' where m': "u = with_mem m' t" "\<And>pa. pa \<notin> user_phys (vm_of t) \<Longrightarrow> m' pa = vm_mem (vm_of t) pa"
    using assms(3) by (auto simp: confined_def)
  show ?thesis unfolding confined_def
    using m m' confined_space(3) [OF assms(1,2)] by (intro exI [of _ m']) simp
qed

lemma virt_store_user:
  assumes "user_mem_ok s" "user_byte (vm_mem (vm_of s)) (paging_active_directory (vm_of s)) a"
  shows "\<exists>s'. virt_store a c s = Some s' \<and> confined s s'"
proof -
  have en: "pg_is_enabled (vm_pg (vm_of s))" "\<not> in_heap (km_of s) a" using assms by (auto simp: user_mem_ok_def Let_def)
  obtain pa where pa: "paging_translate a (vm_of s) = Some pa" using user_byte_translate [OF en(1) assms(2)] by blast
  have st: "virt_store a c s = Some (with_mem ((vm_mem (vm_of s))(pa := of_char c)) s)"
    by (simp add: virt_store_def pa en(2) with_mem_def on_vm_def)
  have "pa \<in> user_phys (vm_of s)" using pa assms(2) by (auto simp: user_phys_def)
  then have "confined s (with_mem ((vm_mem (vm_of s))(pa := of_char c)) s)"
    unfolding confined_def by (intro exI [of _ "(vm_mem (vm_of s))(pa := of_char c)"]) auto
  with st show ?thesis by simp
qed

lemma store_list_user:
  assumes "user_mem_ok s" "\<And>k. k < length cs \<Longrightarrow> user_byte (vm_mem (vm_of s)) (paging_active_directory (vm_of s)) (a + of_nat k)"
  shows "\<exists>s'. virt_store_list a cs s = Some s' \<and> confined s s'"
  using assms
proof (induction cs arbitrary: a s)
  case Nil
  then show ?case by (simp add: confined_refl)
next
  case (Cons c cs)
  obtain s1 where s1: "virt_store a c s = Some s1" "confined s s1"
    using virt_store_user [OF Cons.prems(1), of a c] Cons.prems(2) [of 0] by auto
  note cs = confined_space [OF Cons.prems(1) s1(2)]
  have "user_byte (vm_mem (vm_of s1)) (paging_active_directory (vm_of s1)) (a + 1 + of_nat k)" if "k < length cs" for k
    using Cons.prems(2) [of "Suc k"] that unfolding cs(2) by (simp add: add.assoc)
  then obtain s2 where "virt_store_list (a + 1) cs s1 = Some s2" "confined s1 s2" using Cons.IH [OF cs(4)] by blast
  then show ?case using s1 confined_trans [OF Cons.prems(1) s1(2)] by auto
qed

lemma virt_buffer_Some:
  assumes "\<And>k. k < unat n \<Longrightarrow> paging_translate (a + of_nat k) (vm_of s) \<noteq> None"
  shows "\<exists>b. virt_buffer a n s = Some b \<and> length b = unat n"
proof -
  have "\<exists>b. those (map f xs) = Some b \<and> length b = length xs" if "\<And>x. x \<in> set xs \<Longrightarrow> f x \<noteq> None" for f and xs :: "nat list"
    using that by (induction xs) (force split: option.splits)+
  from this [of "[0..<unat n]" "\<lambda>i. virt_load (a + of_nat i) s"] show ?thesis
    using assms unfolding virt_buffer_def virt_load_def by simp
qed

lemma into_buffer_user:
  assumes "user_mem_ok s" "ptr_range_ok out n True (vm_of s)"
    and f: "\<And>buf. length buf = unat n \<Longrightarrow> \<exists>b'. snd (f (Some buf)) = Some b' \<and> length b' = length buf"
  shows "\<exists>v s'. into_buffer out n f s = Some (v, s') \<and> confined s s'"
proof -
  have acc: "paging_translate (out + of_nat k) (vm_of s) \<noteq> None"
    "user_byte (vm_mem (vm_of s)) (paging_active_directory (vm_of s)) (out + of_nat k)" if "k < unat n" for k
    using assms(2) that by (simp_all add: ptr_ok_iff accessible_def)
  obtain buf where buf: "virt_buffer out n s = Some buf" "length buf = unat n" using virt_buffer_Some [OF acc(1)] by blast
  obtain r b' where fb: "f (Some buf) = (r, Some b')" "length b' = unat n"
    using f [OF buf(2)] buf(2) by (metis prod.collapse)
  have "\<exists>s'. virt_store_list out (take (nat r + 1) b') s = Some s' \<and> confined s s'"
    using fb(2) by (intro store_list_user [OF assms(1)] acc(2)) simp
  then show ?thesis using buf(1) fb(1) confined_refl [of s] by (auto simp: into_buffer_def)
qed

lemma read_loop_length: "length (snd (vfs_read_loop b data out n i)) = length out"
  by (induction b data out n i rule: vfs_read_loop.induct) (subst vfs_read_loop.simps, auto)

lemma read_into_length: "\<exists>b'. snd (vfs_read_file_into name (Some buf) n s) = Some b' \<and> length b' = length buf"
  using read_loop_length by (auto simp: vfs_read_file_into_def case_prod_unfold Let_def split: option.splits)

lemma copy_loop_length: "length (fst (str_copy_loop d t n i)) = length d"
  by (induction d t n i rule: str_copy_loop.induct) (subst str_copy_loop.simps, auto)

lemma exec_name_copy_length: "\<exists>b'. snd (exec_name_copy_at sy i (Some buf) n) = Some b' \<and> length b' = length buf"
  by (simp add: exec_name_copy_at_def exec_str_copy_def case_prod_unfold Let_def copy_loop_length split: option.splits)

lemma ipc_recv_length: "\<exists>b'. snd (recv_into pid n q (Some buf)) = Some b' \<and> length b' = length buf"
  by (simp add: recv_into_def ipc_recv_def ipc_str_copy_def case_prod_unfold Let_def copy_loop_length split: option.splits)

lemma local_string_cases:
  assumes "0 < n" "n < 4294967295"
  obtains (found) t where "c_string_at u s src t" "length t < n" "local_string n src u s = Some (Some (t @ NUL # replicate (n - length t - 1) NUL))"
    | (none) "\<nexists>t. c_string_at u s src t \<and> length t < n" "local_string n src u s = Some None"
proof (cases "\<exists>t. c_string_at u s src t \<and> length t < n")
  case True
  then obtain t where t: "c_string_at u s src t" "length t < n" by blast
  then have src: "src \<noteq> 0" by (auto simp: c_string_at_def dest: spec [of _ 0])
  have n: "unat (of_nat n :: u32) = n" "(of_nat n :: u32) \<noteq> 0"
    using assms by (simp_all add: unat_of_nat unat_eq_0 [symmetric])
  have "copy_in_loop (replicate n NUL) n src u s 0 = Some (of_nat (length t), t @ NUL # replicate (n - length t - 1) NUL)"
    using copy_in_loop_text [of u s src 0 t n "replicate n NUL"] t by simp
  moreover have "(of_nat (length t) :: u32) \<noteq> UINT32_MAX"
  proof
    assume "(of_nat (length t) :: u32) = UINT32_MAX"
    then have "unat (of_nat (length t) :: u32) = 4294967295" by simp
    then show False using t(2) assms(2) by (simp add: unat_of_nat)
  qed
  ultimately have "local_string n src u s = Some (Some (t @ NUL # replicate (n - length t - 1) NUL))"
    using src n by (simp add: local_string_def copy_in_string_def)
  then show thesis by (rule found [OF t])
next
  case False
  have n: "unat (of_nat n :: u32) = n" "(of_nat n :: u32) \<noteq> 0"
    using assms by (simp_all add: unat_of_nat unat_eq_0 [symmetric])
  have "\<exists>d. copy_in_loop (replicate n NUL) n src u s 0 = Some (UINT32_MAX, d)"
    using False assms(1) by (intro copy_in_loop_fails) (auto simp: not_less [symmetric])
  then have "local_string n src u s = Some None"
    using n by (cases "src = 0") (auto simp: local_string_def copy_in_string_def)
  then show thesis by (rule none [OF False])
qed

section \<open>Calls of a user process\<close>

definition user_caller :: "kernel \<Rightarrow> bool" where
  "user_caller k \<longleftrightarrow> pt_ready (ks_procs (kn_sys k)) \<and>
     (case process_find_by_tid (caller_tid k) (ks_procs (kn_sys k)) of None \<Rightarrow> False
      | Some i \<Rightarrow> pe_is_kernel (procs_of (kn_sys k) ! i) = 0 \<and>
          pe_syscall_mask_low (procs_of (kn_sys k) ! i) = PROCESS_SYSCALL_MASK_USER)"

text \<open>What a call other than the exit may change.\<close>

definition call_effect :: "u32 \<Rightarrow> kernel \<Rightarrow> kernel \<Rightarrow> bool" where
  "call_effect no k k' \<longleftrightarrow> confined (kn_sys k) (kn_sys k') \<and> kn_timer k' = kn_timer k \<and>
     (no \<notin> {14, 15} \<longrightarrow> kn_ipc k' = kn_ipc k) \<and> kn_ping k' = (if no = 17 then kn_ping k + 1 else kn_ping k)"

lemma user_caller_facts:
  assumes "user_caller k"
  shows "\<not> process_current_is_kernel (caller_tid k) (ks_procs (kn_sys k))"
    and "process_syscall_allowed no (caller_tid k) (ks_procs (kn_sys k)) \<longleftrightarrow> unat no \<in> {0..7} \<union> {9..11} \<union> {13..19}"
proof -
  obtain i where i: "pt_ready (ks_procs (kn_sys k))" "process_find_by_tid (caller_tid k) (ks_procs (kn_sys k)) = Some i"
    "pe_is_kernel (procs_of (kn_sys k) ! i) = 0" "pe_syscall_mask_low (procs_of (kn_sys k) ! i) = PROCESS_SYSCALL_MASK_USER"
    using assms by (auto simp: user_caller_def split: option.splits)
  then show "\<not> process_current_is_kernel (caller_tid k) (ks_procs (kn_sys k))" by (simp add: process_current_is_kernel_def)
  have set: "{0, 1, 2, 3, 4, 5, 6, 7, 9, 10, 11, 13, 14, 15, 16, 17, 18, 19} = {0..7} \<union> {9..11} \<union> {13..19 :: nat}"
    by code_simp
  have "process_syscall_allowed no (caller_tid k) (ks_procs (kn_sys k)) \<longleftrightarrow> no < 32 \<and> bit PROCESS_SYSCALL_MASK_USER (unat no)"
    using i mask_test [of "unat no" PROCESS_SYSCALL_MASK_USER]
    by (auto simp: process_syscall_allowed_def not_le word_less_nat_alt word_le_nat_alt)
  also have "\<dots> \<longleftrightarrow> unat no \<in> {0..7} \<union> {9..11} \<union> {13..19}"
    unfolding user_mask_bits set by (auto simp: word_less_nat_alt)
  finally show "process_syscall_allowed no (caller_tid k) (ks_procs (kn_sys k)) \<longleftrightarrow> unat no \<in> {0..7} \<union> {9..11} \<union> {13..19}" .
qed

lemma buffer_call_user:
  assumes "user_mem_ok (kn_sys k)" "ptr_range_ok out n True (vm_of (kn_sys k))"
    "\<And>buf. length buf = unat n \<Longrightarrow> \<exists>b'. snd (f (Some buf)) = Some b' \<and> length b' = length buf"
  shows "\<exists>v s'. on_sys (into_buffer out n f (kn_sys k)) k = Some (v, k\<lparr>kn_sys := s'\<rparr>) \<and> confined (kn_sys k) s'"
proof -
  obtain v s' where "into_buffer out n f (kn_sys k) = Some (v, s')" "confined (kn_sys k) s'"
    using into_buffer_user [OF assms] by blast
  then show ?thesis by (intro exI [of _ v] exI [of _ s']) (simp add: on_sys_def)
qed

lemma vfs_read_user:
  assumes "user_mem_ok (kn_sys k)"
  shows "\<exists>v k'. sys_vfs_read frame True k = Some (v, k') \<and> call_effect 7 k k'"
proof -
  have id: "call_effect 7 k k" by (simp add: call_effect_def confined_refl)
  obtain r where r: "local_string 40 (frame 4) True (kn_sys k) = Some r" by (rule local_string_cases [of 40 True "kn_sys k" "frame 4"]) auto
  show ?thesis
  proof (cases "r \<noteq> None \<and> c_at (the r) 0 \<noteq> NUL \<and> ptr_range_ok (frame 6) (frame 5) True (vm_of (kn_sys k))")
    case False
    then show ?thesis using r id by (auto simp: sys_vfs_read_def split: option.splits)
  next
    case True
    then obtain n where n: "r = Some n" "c_at n 0 \<noteq> NUL" by auto
    obtain v s' where "on_sys (into_buffer (frame 6) (frame 5) (\<lambda>out. vfs_read_file_into (Some n) out (frame 5) (ks_fs (kn_sys k))) (kn_sys k)) k =
        Some (v, k\<lparr>kn_sys := s'\<rparr>)" "confined (kn_sys k) s'"
      using buffer_call_user [OF assms, of "frame 6" "frame 5" "\<lambda>out. vfs_read_file_into (Some n) out (frame 5) (ks_fs (kn_sys k))"]
        True read_into_length by blast
    then show ?thesis using r n True by (auto simp: sys_vfs_read_def call_effect_def)
  qed
qed

lemma name_at_user:
  assumes "user_mem_ok (kn_sys k)"
  shows "\<exists>v k'. sys_exec_name_at sy frame True k = Some (v, k') \<and> call_effect 13 k k'"
proof (cases "ptr_range_ok (frame 6) (frame 5) True (vm_of (kn_sys k))")
  case False
  then show ?thesis by (simp add: sys_exec_name_at_def call_effect_def confined_refl)
next
  case True
  obtain v s' where "on_sys (into_buffer (frame 6) (frame 5) (\<lambda>out. exec_name_copy_at sy (frame 4) out (frame 5)) (kn_sys k)) k =
      Some (v, k\<lparr>kn_sys := s'\<rparr>)" "confined (kn_sys k) s'"
    using buffer_call_user [OF assms True, of "\<lambda>out. exec_name_copy_at sy (frame 4) out (frame 5)"] exec_name_copy_length by blast
  then show ?thesis using True by (auto simp: sys_exec_name_at_def call_effect_def)
qed

lemma ipc_send_user: "\<exists>v k'. sys_ipc_send frame True k = Some (v, k') \<and> call_effect 14 k k'"
proof -
  obtain r where r: "local_string 64 (frame 6) True (kn_sys k) = Some r" by (rule local_string_cases [of 64 True "kn_sys k" "frame 6"]) auto
  then show ?thesis
    by (cases r) (auto simp: sys_ipc_send_def call_effect_def confined_refl case_prod_unfold Let_def)
qed

lemma ipc_recv_user:
  assumes "user_mem_ok (kn_sys k)"
  shows "\<exists>v k'. sys_ipc_recv frame True k = Some (v, k') \<and> call_effect 15 k k'"
proof (cases "ptr_range_ok (frame 6) (frame 5) True (vm_of (kn_sys k))")
  case False
  then show ?thesis by (simp add: sys_ipc_recv_def call_effect_def confined_refl)
next
  case True
  obtain v s' where "on_sys (into_buffer (frame 6) (frame 5) (recv_into (caller_pid k) (frame 5) (kn_ipc k)) (kn_sys k)) k =
      Some (v, k\<lparr>kn_sys := s'\<rparr>)" "confined (kn_sys k) s'"
    using buffer_call_user [OF assms True, of "recv_into (caller_pid k) (frame 5) (kn_ipc k)"] ipc_recv_length by blast
  then show ?thesis using True by (auto simp: sys_ipc_recv_def call_effect_def)
qed

lemma exit_returns:
  assumes "sched_inv (ks_sched s)"
  obtains s' where "scheduler_exit_current s = Some s'"
proof (cases "current_of s = 0")
  case True
  then show thesis using that [of s] by (simp add: scheduler_exit_current_def)
next
  case False
  show thesis by (rule exit_effect [OF assms False]) (rule that)
qed

text \<open>Leaving a task touches no memory but the choice of the page directory and the saved stack pointers.\<close>

definition same_memory :: "ksys \<Rightarrow> ksys \<Rightarrow> bool" where
  "same_memory s s' \<longleftrightarrow> ks_procs s' = ks_procs s \<and> fs_files (ks_fs s') = fs_files (ks_fs s) \<and>
     fs_bytes (ks_fs s') = fs_bytes (ks_fs s) \<and> fs_ready (ks_fs s') = fs_ready (ks_fs s) \<and>
     km_heap (km_of s') = km_heap (km_of s) \<and>
     vm_mem (vm_of s') = vm_mem (vm_of s) \<and> vm_pmm (vm_of s') = vm_pmm (vm_of s)"

lemma activate_memory [simp]:
  "vm_mem (process_activate_tid t pt v) = vm_mem v" "vm_pmm (process_activate_tid t pt v) = vm_pmm v"
  by (simp_all add: process_activate_tid_def paging_switch_directory_def split: option.split)

lemma switch_from_memory: "same_memory s (switch_from i s)"
  by (simp add: same_memory_def switch_from_def Let_def case_prod_unfold on_vm_def set_task_def)

lemma same_memory_trans: "same_memory a b \<Longrightarrow> same_memory b c \<Longrightarrow> same_memory a c"
  by (simp add: same_memory_def)

lemma same_memory_sched [simp]: "same_memory s (s\<lparr>ks_sched := x\<rparr>)" "same_memory s s"
  by (simp_all add: same_memory_def)

lemma exit_memory: "scheduler_exit_current s = Some s' \<Longrightarrow> same_memory s s'"
  unfolding scheduler_exit_current_def scheduler_task_exit_def Let_def make_current_def set_task_def
  by (auto split: if_splits option.splits intro!: same_memory_trans [OF _ switch_from_memory])

lemma yield_memory: "same_memory s (scheduler_yield s)"
  unfolding scheduler_yield_def Let_def make_current_def set_task_def
  by (auto split: option.splits intro!: same_memory_trans [OF _ switch_from_memory])

text \<open>The calls that only read the state, and the ping.\<close>

lemma simple_calls:
  assumes "process_syscall_allowed (frame 7) (caller_tid k) (ks_procs (kn_sys k))" "frame 7 \<notin> {7, 8, 12, 13, 14, 15, 19}"
  shows "\<exists>v k'. syscall_dispatch sy frame k = Some (v, k') \<and> call_effect (frame 7) k k'"
proof -
  have "\<exists>v. syscall_dispatch sy frame k = Some (v, k\<lparr>kn_ping := if frame 7 = 17 then kn_ping k + 1 else kn_ping k\<rparr>)"
    using assms by (simp add: syscall_dispatch_def Let_def)
  then show ?thesis by (auto simp: call_effect_def confined_refl)
qed

section \<open>Properties\<close>

text \<open>
  C1.  Confinement of user processes: whatever number and arguments a user process passes, the handler
  returns without a page fault.  A number outside its mask is refused without any change.  The exit call (19)
  changes the scheduler, the registers with their copy on the stack, and the current directory only: the caller's
  task becomes a zombie, a ready task runs, every other task keeps its state, and the memory, the files, the
  heap, the processes, the messages and the counters are as before.  Every other call changes nothing of the kernel but the message table (send and
  receive), the ping counter (ping) and bytes that ring 3 can reach through the caller's own directory.
\<close>

theorem syscall_user_confined:
  assumes "user_caller k" "user_mem_ok (kn_sys k)" "sched_inv (ks_sched (kn_sys k))"
  shows "\<exists>v k'. syscall_dispatch sy frame k = Some (v, k') \<and>
    (if unat (frame 7) \<notin> {0..7} \<union> {9..11} \<union> {13..19} then v = 0xFFFFFFFD \<and> k' = k
     else if frame 7 = 19 then k' = k\<lparr>kn_sys := kn_sys k'\<rparr> \<and> same_memory (kn_sys k) (kn_sys k') \<and> sched_inv (ks_sched (kn_sys k')) \<and>
       (if current_of (kn_sys k) = 0 then k' = k
        else \<exists>n. n \<noteq> current_of (kn_sys k) \<and> st (ks_sched (kn_sys k)) n = TASK_RUNNABLE \<and>
          same_but (ks_sched (kn_sys k)) (ks_sched (kn_sys k'))
            ((st (ks_sched (kn_sys k)))(current_of (kn_sys k) := TASK_ZOMBIE, n := TASK_RUNNING)) n)
     else call_effect (frame 7) k k')"
proof -
  let ?no = "frame 7"
  note u = user_caller_facts(1) [OF assms(1)] user_caller_facts(2) [OF assms(1), of ?no]
  show ?thesis
  proof (cases "process_syscall_allowed ?no (caller_tid k) (ks_procs (kn_sys k))")
    case False
    then show ?thesis using u(2) by (simp add: syscall_dispatch_def Let_def)
  next
    case True
    with u(2) have in_mask: "unat ?no \<in> {0..7} \<union> {9..11} \<union> {13..19}" by simp
    then have ne: "?no \<noteq> 8" "?no \<noteq> 12" by auto
    consider "?no = 7" | "?no = 13" | "?no = 14" | "?no = 15" | "?no = 19" | "?no \<notin> {7, 8, 12, 13, 14, 15, 19}" using ne by blast
    then show ?thesis
    proof cases
      case 1
      then show ?thesis using True u(1) vfs_read_user [OF assms(2), of frame] by (simp add: syscall_dispatch_def Let_def)
    next
      case 2
      then show ?thesis using True u(1) name_at_user [OF assms(2), of sy frame] by (simp add: syscall_dispatch_def Let_def)
    next
      case 3
      then show ?thesis using True u(1) ipc_send_user [of frame k] by (simp add: syscall_dispatch_def Let_def)
    next
      case 4
      then show ?thesis using True u(1) ipc_recv_user [OF assms(2), of frame] by (simp add: syscall_dispatch_def Let_def)
    next
      case 5
      obtain s' where e: "scheduler_exit_current (kn_sys k) = Some s'" by (rule exit_returns [OF assms(3)])
      have n: "if current_of (kn_sys k) = 0 then s' = kn_sys k
        else \<exists>n. n \<noteq> current_of (kn_sys k) \<and> st (ks_sched (kn_sys k)) n = TASK_RUNNABLE \<and>
          same_but (ks_sched (kn_sys k)) (ks_sched s')
            ((st (ks_sched (kn_sys k)))(current_of (kn_sys k) := TASK_ZOMBIE, n := TASK_RUNNING)) n"
      proof (cases "current_of (kn_sys k) = 0")
        case True
        then show ?thesis using e by (simp add: scheduler_exit_current_def split: if_splits)
      next
        case False
        show ?thesis by (rule exit_effect [OF assms(3) False]) (use e False in auto)
      qed
      have "syscall_dispatch sy frame k = Some (0, k\<lparr>kn_sys := s'\<rparr>)" using True 5 e by (simp add: syscall_dispatch_def Let_def)
      then show ?thesis using 5 in_mask n exit_memory [OF e] exit_inv [OF assms(3) e] by auto
    next
      case 6
      then show ?thesis using simple_calls [of frame k sy] True in_mask by auto
    qed
  qed
qed

text \<open>
  C14.  \<open>copy_in_string\<close> is exact on every input: it succeeds iff a NUL-terminated text that fits the buffer
  starts at the address with every byte of it, the terminator included, accessible to the caller; then it
  returns its length and the buffer holds it.  Otherwise it returns the error value; it never faults.
\<close>

theorem copy_in_string_exact:
  assumes "length dst = unat n" "0 < n" "n < UINT32_MAX"
  shows "\<exists>r dst'. copy_in_string dst n src u s = Some (r, dst') \<and>
    (r \<noteq> UINT32_MAX \<longleftrightarrow> (\<exists>t. c_string_at u s src t \<and> length t < unat n)) \<and>
    (\<forall>t. c_string_at u s src t \<and> length t < unat n \<longrightarrow> r = of_nat (length t) \<and> cstr dst' = t)"
proof (cases "\<exists>t. c_string_at u s src t \<and> length t < unat n")
  case True
  then obtain t where t: "c_string_at u s src t" "length t < unat n" by blast
  then have src: "src \<noteq> 0" "NUL \<notin> set t" by (auto simp: c_string_at_def dest: spec [of _ 0])
  have n: "n \<noteq> 0" "unat n < 4294967295" using assms(2,3) by (auto simp: word_less_nat_alt)
  have c: "copy_in_string dst n src u s = Some (of_nat (length t), t @ NUL # drop (length t + 1) dst)"
    using copy_in_loop_text [of u s src 0 t "unat n" dst] t assms(1) src(1) n(1) by (simp add: copy_in_string_def)
  have "(of_nat (length t) :: u32) \<noteq> UINT32_MAX"
  proof
    assume "(of_nat (length t) :: u32) = UINT32_MAX"
    then have "unat (of_nat (length t) :: u32) = 4294967295" by simp
    then show False using t(2) n(2) by (simp add: unat_of_nat)
  qed
  moreover have "t' = t" if "c_string_at u s src t'" "length t' < unat n" for t'
  proof -
    have "t' @ NUL # drop (length t' + 1) dst = t @ NUL # drop (length t + 1) dst"
      using copy_in_loop_text [of u s src 0 t' "unat n" dst] that assms(1) src(1) n(1) c by (simp add: copy_in_string_def)
    moreover have "NUL \<notin> set t'" using that(1) by (simp add: c_string_at_def)
    ultimately show ?thesis using src(2) cstr_append_NUL by metis
  qed
  ultimately show ?thesis using c True src(2) by (simp add: cstr_append_NUL) blast
next
  case False
  have "n \<noteq> 0" "0 < unat n" using assms(2) by (auto simp: word_less_nat_alt)
  moreover have "\<exists>d. copy_in_loop dst (unat n) src u s 0 = Some (UINT32_MAX, d)"
    using False \<open>0 < unat n\<close> by (intro copy_in_loop_fails) (auto simp: not_less [symmetric])
  ultimately have "\<exists>d. copy_in_string dst n src u s = Some (UINT32_MAX, d)" by (cases "src = 0") (simp_all add: copy_in_string_def)
  with False show ?thesis by auto
qed

subsection \<open>Instances\<close>

text \<open>A user process runs as the current task; the page at 0x40000000 is its own.\<close>

definition demo_entry :: "u32 \<Rightarrow> process_entry" where
  "demo_entry tid = (pt_table demo_procs ! 1)\<lparr>pe_pid := 2, pe_tid := tid, pe_active := 1, pe_syscall_mask_low := PROCESS_SYSCALL_MASK_USER\<rparr>"

definition demo_caller :: "pmm \<Rightarrow> sched \<Rightarrow> kernel" where
  "demo_caller p sc =
     (let s0 = demo_sys p; km = (km_of s0)\<lparr>km_vm := demo_user_vm p, km_heap := (km_heap (km_of s0))\<lparr>hp_ready := False\<rparr>\<rparr>
      in \<lparr>kn_sys = (set_km km s0)\<lparr>ks_sched := sc,
            ks_procs := demo_procs\<lparr>pt_table := (pt_table demo_procs)[1 := demo_entry (of_nat (sc_current sc))], pt_ready := True\<rparr>\<rparr>,
          kn_ipc = ipc_static, kn_timer = timer_static, kn_ping = 0\<rparr>)"

lemma demo_caller_parts:
  "vm_of (kn_sys (demo_caller p sc)) = demo_user_vm p" "\<not> in_heap (km_of (kn_sys (demo_caller p sc))) a"
  "ks_sched (kn_sys (demo_caller p sc)) = sc" "caller_tid (demo_caller p sc) = of_nat (sc_current sc)"
  "ks_procs (kn_sys (demo_caller p sc)) =
    demo_procs\<lparr>pt_table := (pt_table demo_procs)[1 := demo_entry (of_nat (sc_current sc))], pt_ready := True\<rparr>"
  by (simp_all add: demo_caller_def Let_def set_km_def in_heap_def caller_tid_def scheduler_current_task_id_def)

lemma demo_caller_user: "user_caller (demo_caller p sc)"
proof -
  have d: "pe_active (demo_entry t) = 1" "pe_tid (demo_entry t) = t" "pe_is_kernel (demo_entry t) = 0"
    "pe_syscall_mask_low (demo_entry t) = PROCESS_SYSCALL_MASK_USER" for t by (simp_all add: demo_entry_def demo_procs_def)
  have l: "length (pt_table demo_procs) = 32" "pe_active (pt_table demo_procs ! 0) = 0" by (simp_all add: demo_procs_def)
  have "process_find_by_tid (of_nat (sc_current sc)) (ks_procs (kn_sys (demo_caller p sc))) = Some 1"
    unfolding process_find_by_tid_def first_idx_Some demo_caller_parts using l d by simp
  then show ?thesis unfolding user_caller_def demo_caller_parts using l d by (simp add: demo_caller_parts)
qed

lemma demo_user_vm_entries:
  "i < 1024 \<Longrightarrow> entry_get (vm_mem (demo_user_vm p)) 0x100000 i = (if i = 256 then 0x300007 else 0)"
  "i < 1024 \<Longrightarrow> entry_get (vm_mem (demo_user_vm p)) 0x300000 i = (if i = 0 then 0x5007 else 0)"
proof -
  have pa: "page_addr 0x100000" "page_addr 0x300000" by (simp_all add: page_addr_def)
  have z: "entry_get (\<lambda>_. 0) t i = 0" for t i by (simp add: entry_get_def load32_def)
  show "entry_get (vm_mem (demo_user_vm p)) 0x100000 i = (if i = 256 then 0x300007 else 0)" if "i < 1024"
    using pa z that by (simp add: demo_user_vm_def entry_get_set)
  show "entry_get (vm_mem (demo_user_vm p)) 0x300000 i = (if i = 0 then 0x5007 else 0)" if "i < 1024"
    using pa z that by (simp add: demo_user_vm_def entry_get_set)
qed

lemma demo_caller_mem: "user_mem_ok (kn_sys (demo_caller p sc))"
proof -
  let ?v = "demo_user_vm p"
  have d: "paging_active_directory ?v = 0x100000" "pg_is_enabled (vm_pg ?v)" "page_addr 0x100000"
    by (simp_all add: demo_user_vm_def demo_vm_def paging_active_directory_def page_addr_def)
  have e: "entry_get (vm_mem ?v) 0x100000 (pd_index a) = (if pd_index a = 256 then 0x300007 else 0)"
    "entry_get (vm_mem ?v) 0x300000 (pt_index a) = (if pt_index a = 0 then 0x5007 else 0)" for a
    by (rule demo_user_vm_entries(1) [OF pd_index_less]) (rule demo_user_vm_entries(2) [OF pt_index_less])
  have "table_of pa = 0x5000" if u: "pa \<in> user_phys ?v" for pa
  proof -
    obtain a where a: "user_byte (vm_mem ?v) 0x100000 a" "paging_translate a ?v = Some pa" using u unfolding user_phys_def d(1) by blast
    have i: "pd_index a = 256"
      using a(1) e(1) [of a] by (auto simp: user_byte_def user_flags_set_def split: if_splits)
    have "pt_index a = 0"
      using a(1) i e [of a] by (auto simp: user_byte_def user_flags_set_def split: if_splits)
    then have "pa = 0x5000 OR (a AND 0xFFF)"
      using a(2) i e [of a] d by (auto simp: paging_translate_def Let_def)
    then show ?thesis by (simp add: bit.conj_disj_distrib2 and.assoc)
  qed
  moreover have "table_of (entry_get (vm_mem ?v) 0x100000 i) = 0x300000" if "i < 1024" "pres (entry_get (vm_mem ?v) 0x100000 i)" for i
    using that demo_user_vm_entries(1) [OF that(1), of p] by (cases "i = 256") simp_all
  ultimately show ?thesis unfolding user_mem_ok_def Let_def demo_caller_parts d(1) using d by (simp add: demo_caller_parts)
qed

theorem syscall_user_confined_witness:
  "\<exists>k sy v k'. user_caller k \<and> user_mem_ok (kn_sys k) \<and> sched_inv (ks_sched (kn_sys k)) \<and>
     syscall_dispatch sy (\<lambda>i. 17) k = Some (v, k') \<and> call_effect 17 k k' \<and> current_of (kn_sys k) = 3"
proof -
  fix p sy
  obtain n where n: "current_of ((scheduler_yield ^^ n) (demo_two p)) = 3" using round_robin [OF demo_two_inv(1) _ demo_two_inv(2)] by auto
  define sc where "sc = ks_sched ((scheduler_yield ^^ n) (demo_two p))"
  have "sched_inv (ks_sched ((scheduler_yield ^^ m) (demo_two p)))" for m by (induction m) (simp_all add: demo_two_inv(1) yield_inv)
  then have sc: "sched_inv (ks_sched (kn_sys (demo_caller p sc)))" unfolding demo_caller_parts sc_def .
  define k where "k = demo_caller p sc"
  have "unat (17 :: u32) = 17" by simp
  then obtain v k' where "syscall_dispatch sy (\<lambda>i. 17) k = Some (v, k')" "call_effect 17 k k'"
    using syscall_user_confined [OF demo_caller_user demo_caller_mem sc, of sy "\<lambda>i. 17"] unfolding k_def by force
  moreover have "current_of (kn_sys k) = 3" unfolding k_def demo_caller_parts sc_def by (rule n)
  ultimately show ?thesis using demo_caller_user [of p sc] demo_caller_mem [of p sc] sc unfolding k_def by blast
qed

theorem copy_in_string_exact_witness:
  "\<exists>s r dst. copy_in_string (replicate 40 CHR ''x'') 40 0x40000000 True s = Some (r, dst) \<and> r = 0 \<and> cstr dst = []"
proof -
  fix p sc
  let ?s = "kn_sys (demo_caller p sc)" and ?v = "demo_user_vm p"
  have d: "paging_active_directory ?v = 0x100000" "pg_is_enabled (vm_pg ?v)"
    by (simp_all add: demo_user_vm_def demo_vm_def paging_active_directory_def)
  have i: "pd_index 0x40000000 = 256" "pt_index 0x40000000 = 0" by (simp_all add: pd_index_eq pt_index_eq)
  have e: "entry_get (vm_mem ?v) 0x100000 256 = 0x300007" "entry_get (vm_mem ?v) 0x300000 0 = 0x5007"
    using demo_user_vm_entries [of 256 p] demo_user_vm_entries [of 0 p] by simp_all
  have t: "paging_translate 0x40000000 ?v = Some 0x5000" "user_byte (vm_mem ?v) 0x100000 0x40000000"
    using d by (simp_all add: paging_translate_def user_byte_def user_flags_set_def Let_def i e)
  have "vm_mem ?v 0x5000 = 0"
    by (simp add: demo_user_vm_def demo_vm_def entry_set_def store32_def entry_addr_def)
  then have "c_string_at True ?s 0x40000000 []"
    using t d by (simp add: c_string_Nil accessible_def virt_load_def demo_caller_parts char_of_def)
  then show ?thesis
    using copy_in_string_exact [of "replicate 40 CHR ''x''" 40 "0x40000000" True ?s] by force
qed

end
