(* ===== verification/Machine.thy ===== *)
theory Machine
  imports Syscall Console "HOL-Library.Monad_Syntax"
begin

text \<open>
  The machine as the shell and the trap handlers see it: the kernel state with the screen, the serial port
  and the flag of \<open>usermode.c\<close>.  A run of printing calls is the list of the calls in order, so that
  \<open>vga_puts(a); vga_put_dec32(n); vga_putc(c);\<close> is \<open>vga_print [Str a, Dec n, Chr c]\<close>.  The lemmas give the text
  that such a list puts on the screen and on the wire.
\<close>

record machine =
  ma_kernel :: kernel
  ma_vga :: vga
  ma_serial :: serial
  ma_prepared :: bool

abbreviation sys_of :: "machine \<Rightarrow> ksys" where "sys_of m \<equiv> kn_sys (ma_kernel m)"

definition set_sys :: "ksys \<Rightarrow> machine \<Rightarrow> machine" where
  "set_sys s m = m\<lparr>ma_kernel := (ma_kernel m)\<lparr>kn_sys := s\<rparr>\<rparr>"

lemma set_sys_simps [simp]:
  "sys_of (set_sys s m) = s" "ma_vga (set_sys s m) = ma_vga m" "ma_serial (set_sys s m) = ma_serial m"
  "ma_prepared (set_sys s m) = ma_prepared m" "kn_ipc (ma_kernel (set_sys s m)) = kn_ipc (ma_kernel m)"
  "kn_timer (ma_kernel (set_sys s m)) = kn_timer (ma_kernel m)" "kn_ping (ma_kernel (set_sys s m)) = kn_ping (ma_kernel m)"
  "set_sys s (set_sys s' m) = set_sys s m" "set_sys (sys_of m) m = m"
  by (simp_all add: set_sys_def)

section \<open>Printing\<close>

datatype out = Str string | Chr char | Dec u32 | Hex u32 | Hex64 u64

datatype sout = SStr string | SHex u32

fun vga_out :: "out \<Rightarrow> vga \<Rightarrow> vga" where
  "vga_out (Str t) = vga_puts t"
| "vga_out (Chr c) = vga_putc c"
| "vga_out (Dec v) = vga_put_dec32 v"
| "vga_out (Hex v) = vga_put_hex32 v"
| "vga_out (Hex64 v) = vga_put_hex64 v"

definition vga_print :: "out list \<Rightarrow> vga \<Rightarrow> vga" where
  "vga_print = fold vga_out"

fun serial_out :: "(nat \<Rightarrow> u8) \<Rightarrow> sout \<Rightarrow> serial \<Rightarrow> serial option" where
  "serial_out lsr (SStr t) = serial_puts lsr t"
| "serial_out lsr (SHex v) = serial_put_hex32 lsr v"

fun serial_print :: "(nat \<Rightarrow> u8) \<Rightarrow> sout list \<Rightarrow> serial \<Rightarrow> serial option" where
  "serial_print lsr [] s = Some s"
| "serial_print lsr (x # xs) s = Option.bind (serial_out lsr x s) (serial_print lsr xs)"

definition print :: "out list \<Rightarrow> machine \<Rightarrow> machine" where
  "print xs m = m\<lparr>ma_vga := vga_print xs (ma_vga m)\<rparr>"

definition log :: "(nat \<Rightarrow> u8) \<Rightarrow> sout list \<Rightarrow> machine \<Rightarrow> machine option" where
  "log lsr xs m = map_option (\<lambda>s. m\<lparr>ma_serial := s\<rparr>) (serial_print lsr xs (ma_serial m))"

subsection \<open>What is printed\<close>

definition hex64_text :: "u64 \<Rightarrow> string" where
  "hex64_text v = ''0x'' @ map (\<lambda>shift. hex_digits ! unat (ucast (drop_bit shift v AND 0xF) :: u8))
     [60, 56, 52, 48, 44, 40, 36, 32, 28, 24, 20, 16, 12, 8, 4, 0]"

fun out_text :: "out \<Rightarrow> string" where
  "out_text (Str t) = cstr t"
| "out_text (Chr c) = [c]"
| "out_text (Dec v) = dec_text v"
| "out_text (Hex v) = hex_text v"
| "out_text (Hex64 v) = hex64_text v"

definition printed :: "out list \<Rightarrow> string" where
  "printed xs = concat (map out_text xs)"

fun sout_text :: "sout \<Rightarrow> string" where
  "sout_text (SStr t) = crlf (cstr t)"
| "sout_text (SHex v) = hex_text v"

definition logged :: "sout list \<Rightarrow> string" where
  "logged xs = concat (map sout_text xs)"

lemma vga_out_text: "vga_out x = fold vga_putc (out_text x)"
  by (cases x)
    (simp_all add: fun_eq_iff vga_puts_def vga_put_dec32_text vga_put_hex32_text vga_put_hex64_def hex64_text_def cstr_def)

lemma vga_print_text: "vga_print xs = fold vga_putc (printed xs)"
  by (induction xs) (simp_all add: vga_print_def printed_def vga_out_text fun_eq_iff)

lemma vga_print_simps [simp]: "vga_print [] s = s" "vga_print (x # xs) s = vga_print xs (vga_out x s)"
  "vga_print (xs @ ys) s = vga_print ys (vga_print xs s)"
  by (simp_all add: vga_print_def)

lemma vga_print_refines:
  assumes "vga_inv s"
  shows "vga_abs (vga_print xs s) = fold te_putc (printed xs) (vga_abs s)" "vga_inv (vga_print xs s)"
    "offscreen_same s (vga_print xs s)"
  using fold_putc_refines [OF assms, of "printed xs"] by (simp_all add: vga_print_text)

lemma print_simps [simp]:
  "ma_kernel (print xs m) = ma_kernel m" "ma_serial (print xs m) = ma_serial m" "ma_prepared (print xs m) = ma_prepared m"
  "ma_vga (print xs m) = vga_print xs (ma_vga m)" "print ys (print xs m) = print (xs @ ys) m"
  "set_sys s (print xs m) = print xs (set_sys s m)"
  by (simp_all add: print_def set_sys_def)

text \<open>A UART is live when it always becomes ready again; then every log call returns.\<close>

definition uart_live :: "(nat \<Rightarrow> u8) \<Rightarrow> bool" where
  "uart_live lsr \<longleftrightarrow> (\<forall>n. \<exists>m \<ge> n. serial_can_transmit lsr m)"

lemma serial_put_list_sent:
  assumes "uart_live lsr"
  shows "\<exists>s'. serial_put_list lsr t s = Some s' \<and> se_out s' = se_out s @ sent t s \<and> se_ready s' = se_ready s"
proof (induction t arbitrary: s)
  case Nil
  then show ?case by (simp add: sent_def)
next
  case (Cons c t)
  have live: "\<And>n. \<exists>m \<ge> n. serial_can_transmit lsr m" using assms by (simp add: uart_live_def)
  obtain s1 where s1: "serial_putc lsr c s = Some s1" "se_out s1 = se_out s @ sent [c] s" "se_ready s1 = se_ready s"
    by (rule serial_putc_sent [OF live, of c s])
  obtain s2 where "serial_put_list lsr t s1 = Some s2" "se_out s2 = se_out s1 @ sent t s1" "se_ready s2 = se_ready s1"
    using Cons.IH [of s1] by blast
  then show ?case using s1 sent_cong [of s1 s t] sent_append [of "[c]" t s] by simp
qed

lemma serial_out_sent:
  assumes "uart_live lsr"
  shows "\<exists>s'. serial_out lsr x s = Some s' \<and> se_out s' = se_out s @ sent (sout_text x) s \<and> se_ready s' = se_ready s"
proof -
  have live: "\<And>n. \<exists>m \<ge> n. serial_can_transmit lsr m" using assms by (simp add: uart_live_def)
  show ?thesis
  proof (cases x)
    case (SStr t)
    then show ?thesis using serial_puts_loop_sent [OF live, of "cstr t" s] by (simp add: serial_puts_def)
  next
    case (SHex v)
    let ?ds = "map (\<lambda>shift. hex_digits ! unat (drop_bit shift v AND 0xF)) [28, 24, 20, 16, 12, 8, 4, 0]"
    obtain s1 where s1: "serial_puts lsr ''0x'' s = Some s1" "se_out s1 = se_out s @ sent ''0x'' s" "se_ready s1 = se_ready s"
      using serial_puts_loop_sent [OF live, of "''0x''" s] by (auto simp: serial_puts_def cstr_def crlf_def)
    obtain s2 where s2: "serial_put_list lsr ?ds s1 = Some s2" "se_out s2 = se_out s1 @ sent ?ds s1" "se_ready s2 = se_ready s1"
      using serial_put_list_sent [OF assms, of ?ds s1] by blast
    have "sent (hex_text v) s = sent ''0x'' s @ sent ?ds s" unfolding hex_text_def by (rule sent_append)
    then have "serial_put_hex32 lsr v s = Some s2 \<and> se_out s2 = se_out s @ sent (hex_text v) s \<and> se_ready s2 = se_ready s"
      unfolding serial_put_hex32_def s1(1) Option.bind.simps s2(1) using s1(2,3) s2(2,3) sent_cong [OF s1(3), of ?ds] by simp
    then show ?thesis by (simp add: SHex)
  qed
qed

lemma serial_print_sent:
  assumes "uart_live lsr"
  shows "\<exists>s'. serial_print lsr xs s = Some s' \<and> se_out s' = se_out s @ sent (logged xs) s \<and> se_ready s' = se_ready s"
proof (induction xs arbitrary: s)
  case Nil
  then show ?case by (simp add: logged_def sent_def)
next
  case (Cons x xs)
  obtain s1 where s1: "serial_out lsr x s = Some s1" "se_out s1 = se_out s @ sent (sout_text x) s" "se_ready s1 = se_ready s"
    using serial_out_sent [OF assms, of x s] by blast
  obtain s2 where "serial_print lsr xs s1 = Some s2" "se_out s2 = se_out s1 @ sent (logged xs) s1" "se_ready s2 = se_ready s1"
    using Cons.IH [of s1] by blast
  then show ?case using s1 sent_cong [OF s1(3), of "logged xs"] by (simp add: logged_def sent_append)
qed

lemma log_sent:
  assumes "uart_live lsr"
  obtains s' where "log lsr xs m = Some (m\<lparr>ma_serial := s'\<rparr>)" "se_out s' = se_out (ma_serial m) @ sent (logged xs) (ma_serial m)"
    "se_ready s' = se_ready (ma_serial m)"
proof -
  obtain s' where "serial_print lsr xs (ma_serial m) = Some s'"
    "se_out s' = se_out (ma_serial m) @ sent (logged xs) (ma_serial m)" "se_ready s' = se_ready (ma_serial m)"
    using serial_print_sent [OF assms, of xs "ma_serial m"] by blast
  then show thesis by (intro that [of s']) (simp_all add: log_def)
qed

section \<open>A concrete machine\<close>

definition demo_machine :: "ksys \<Rightarrow> machine" where
  "demo_machine s = \<lparr>ma_kernel = \<lparr>kn_sys = s, kn_ipc = ipc_static, kn_timer = timer_static, kn_ping = 0\<rparr>,
     ma_vga = \<lparr>vg_cells = (\<lambda>_. vga_cell CHR '' ''), vg_row = 3, vg_col = 0\<rparr>,
     ma_serial = \<lparr>se_ready = True, se_reads = 0, se_out = []\<rparr>, ma_prepared = False\<rparr>"

lemma demo_machine_simps [simp]:
  "sys_of (demo_machine s) = s" "vga_inv (ma_vga (demo_machine s))" "uart_live (\<lambda>_. 0x20)"
  by (auto simp: demo_machine_def vga_inv_def uart_live_def serial_can_transmit_def)

end
