(* ===== verification/Traps.thy ===== *)
theory Traps
  imports Machine Descriptors
begin

text \<open>
  What the processor enters the kernel for besides system calls: the interrupt stubs of
  \<open>interrupts_asm.s\<close>, the page fault handler at the end of \<open>paging.c\<close>, the handler of the other exceptions
  (\<open>interrupts_fault_panic\<close>), the exit trap of \<open>usermode_asm.s\<close> and the user mode test of \<open>usermode.c\<close>.  A handler
  either resumes a task or ends in the \<open>hlt\<close> loop with interrupts off; None is a serial port that never
  becomes ready.
\<close>

section \<open>Exceptions\<close>

datatype outcome = Resumed machine | Halted machine

definition fault_flag_names :: "u32 \<Rightarrow> string list" where
  "fault_flag_names error_code =
     [if error_code AND 0x1 \<noteq> 0 then ''P'' else ''NP'',
      if error_code AND 0x2 \<noteq> 0 then ''|W'' else ''|R'',
      if error_code AND 0x4 \<noteq> 0 then ''|U'' else ''|K''] @
     (if error_code AND 0x8 \<noteq> 0 then [''|RSVD''] else []) @
     (if error_code AND 0x10 \<noteq> 0 then [''|IF''] else [])"

definition paging_log_fault_flags_vga :: "u32 \<Rightarrow> machine \<Rightarrow> machine" where
  "paging_log_fault_flags_vga error_code = print (map Str ('' flags='' # fault_flag_names error_code))"

definition paging_log_fault_flags_serial :: "(nat \<Rightarrow> u8) \<Rightarrow> u32 \<Rightarrow> machine \<Rightarrow> machine option" where
  "paging_log_fault_flags_serial lsr error_code = log lsr (map SStr ('' flags='' # fault_flag_names error_code))"

text \<open>The report is the same in both branches of the handler but for its first words.\<close>

definition fault_report :: "(nat \<Rightarrow> u8) \<Rightarrow> out list \<Rightarrow> sout list \<Rightarrow> u32 \<Rightarrow> u32 \<Rightarrow> u32 \<Rightarrow> u32 \<Rightarrow> machine \<Rightarrow> machine option" where
  "fault_report lsr head shead cr2 error_code pid tid m =
     (let m1 = print (head @ [Hex cr2, Str '' err='', Hex error_code, Str '' pid='', Dec pid, Str '' tid='', Dec tid]) m;
          m2 = print [Chr CHR 0x0A] (paging_log_fault_flags_vga error_code m1)
      in do {
        m3 \<leftarrow> log lsr (shead @ [SHex cr2, SStr '' err='', SHex error_code, SStr '' pid='', SHex pid, SStr '' tid='', SHex tid]) m2;
        m4 \<leftarrow> paging_log_fault_flags_serial lsr error_code m3;
        log lsr [SStr ''\<newline>''] m4
      })"

definition paging_handle_page_fault :: "(nat \<Rightarrow> u8) \<Rightarrow> u32 \<Rightarrow> u32 \<Rightarrow> machine \<Rightarrow> outcome option" where
  "paging_handle_page_fault lsr cr2 error_code m =
     (let tid = caller_tid (ma_kernel m); pid = caller_pid (ma_kernel m) in
      if error_code AND 0x4 \<noteq> 0 \<and> tid \<noteq> 0 then do {
        m1 \<leftarrow> fault_report lsr [Str ''\<newline>user page fault: task terminated\<newline>'', Str ''cr2='']
                [SStr ''user page fault: task terminated cr2=''] cr2 error_code pid tid m;
        s \<leftarrow> scheduler_exit_current (sys_of m1);
        Some (Resumed (set_sys s m1))
      }
      else do {
        m1 \<leftarrow> fault_report lsr [Str ''\<newline>\<newline>KERNEL PANIC: page fault\<newline>'', Str ''cr2='']
                [SStr ''KERNEL PANIC: page fault cr2=''] cr2 error_code pid tid m;
        Some (Halted m1)
      })"

definition interrupts_fault_panic :: "(nat \<Rightarrow> u8) \<Rightarrow> machine \<Rightarrow> outcome option" where
  "interrupts_fault_panic lsr m =
     (let tid = caller_tid (ma_kernel m); pid = caller_pid (ma_kernel m);
          m1 = print [Str ''\<newline>\<newline>KERNEL PANIC: CPU exception\<newline>'', Str ''pid='', Dec pid, Str '' tid='', Dec tid,
                 Chr CHR 0x0A, Str ''System halted\<newline>''] m
      in do {
        m2 \<leftarrow> log lsr [SStr ''KERNEL PANIC: CPU exception\<newline>'', SStr ''pid='', SHex pid, SStr '' tid='', SHex tid,
                SStr ''\<newline>'', SStr ''System halted\<newline>''] m1;
        Some (Halted m2)
      })"

section \<open>Interrupts\<close>

text \<open>The stubs save and restore every register; what is left is the handler and the end-of-interrupt writes.\<close>

definition irq_master_stub :: "(u16 \<times> u8) list" where "irq_master_stub = [(0x20, 0x20)]"

definition irq_slave_stub :: "(u16 \<times> u8) list" where "irq_slave_stub = [(0xA0, 0x20), (0x20, 0x20)]"

definition irq0_stub :: "machine \<Rightarrow> (u16 \<times> u8) list \<times> machine" where
  "irq0_stub m =
     (let k = ma_kernel m; (t, sc) = timer_isr (kn_timer k, ks_sched (kn_sys k))
      in ([(0x20, 0x20)], m\<lparr>ma_kernel := k\<lparr>kn_timer := t, kn_sys := (kn_sys k)\<lparr>ks_sched := sc\<rparr>\<rparr>\<rparr>))"

section \<open>User mode test\<close>

abbreviation USER_CODE_VADDR :: u32 where "USER_CODE_VADDR \<equiv> 0x40000000"
abbreviation USER_STACK_TOP :: u32 where "USER_STACK_TOP \<equiv> 0x40002000"

definition test_program :: "u8 list" where
  "test_program = [0xB8, 17, 0, 0, 0, 0xCD, 0x80, 0xCD, 0x80, 0xCD, 0x81, 0xEB, 0xFE]"

definition usermode_map :: "vm \<Rightarrow> bool \<times> vm" where
  "usermode_map v0 =
     (let (code_frame, v1) = vm_alloc v0; (stack_frame, v2) = vm_alloc v1;
          flags = PAGING_FLAG_PRESENT OR PAGING_FLAG_RW OR PAGING_FLAG_USER in
      if code_frame = 0 \<or> stack_frame = 0 then
        let v3 = (if code_frame \<noteq> 0 then vm_free code_frame v2 else v2);
            v4 = (if stack_frame \<noteq> 0 then vm_free stack_frame v3 else v3)
        in (False, v4)
      else
        let (code_mapped, v3) = paging_map_page USER_CODE_VADDR code_frame flags v2 in
        if \<not> code_mapped then (False, vm_free code_frame (vm_free stack_frame v3))
        else
          let (ok, v4) = paging_map_page (USER_STACK_TOP - 0x1000) stack_frame flags v3 in
          if \<not> ok then
            let v5 = snd (paging_unmap_page USER_CODE_VADDR v4)
            in (False, vm_free code_frame (vm_free stack_frame v5))
          else (True, v4))"

definition usermode_prepare :: "machine \<Rightarrow> (bool \<times> machine) option" where
  "usermode_prepare m =
     (if ma_prepared m then Some (True, m)
      else
        let (ok, v) = usermode_map (vm_of (sys_of m)); m1 = set_sys (on_vm (\<lambda>_. v) (sys_of m)) m in
        if \<not> ok then Some (False, m1)
        else do {
          s \<leftarrow> virt_store_list USER_CODE_VADDR (map (\<lambda>b. char_of (unat b)) test_program) (sys_of m1);
          Some (True, (set_sys s m1)\<lparr>ma_prepared := True\<rparr>)
        })"

definition usermode_is_prepared :: "machine \<Rightarrow> bool" where "usermode_is_prepared m = ma_prepared m"

text \<open>
  Entry to ring 3: the TSS gets the stack pointer for traps, the assembly saves it and leaves to the user
  program at the returned instruction and stack pointers.  The trap 0x81 is the way back: the first task
  continues on the saved stack, every other task ends.
\<close>

definition usermode_enter_test :: "u32 \<Rightarrow> machine \<Rightarrow> gdt \<Rightarrow> (u32 \<times> u32 \<times> u32) option \<times> gdt" where
  "usermode_enter_test esp m g =
     (if \<not> ma_prepared m then (None, g)
      else (Some (esp, USER_CODE_VADDR, USER_STACK_TOP - 16), gdt_set_kernel_stack esp g))"

definition usermode_exit_stub :: "u32 \<Rightarrow> ksys \<Rightarrow> (u32 + ksys) option" where
  "usermode_exit_stub saved_kernel_esp s =
     (if scheduler_current_task_id (ks_sched s) = 0 then Some (Inl saved_kernel_esp)
      else map_option Inr (scheduler_exit_current s))"

section \<open>Lemmas\<close>

lemma fault_report_effect:
  assumes "uart_live lsr"
  obtains xs se where "fault_report lsr head shead cr2 ec pid tid m = Some ((print xs m)\<lparr>ma_serial := se\<rparr>)"
    "xs = head @ [Hex cr2, Str '' err='', Hex ec, Str '' pid='', Dec pid, Str '' tid='', Dec tid] @
       map Str ('' flags='' # fault_flag_names ec) @ [Chr CHR 0x0A]"
proof -
  define m2 where "m2 = print [Chr CHR 0x0A] (paging_log_fault_flags_vga ec
    (print (head @ [Hex cr2, Str '' err='', Hex ec, Str '' pid='', Dec pid, Str '' tid='', Dec tid]) m))"
  obtain s3 where s3: "log lsr (shead @ [SHex cr2, SStr '' err='', SHex ec, SStr '' pid='', SHex pid, SStr '' tid='', SHex tid]) m2 =
      Some (m2\<lparr>ma_serial := s3\<rparr>)" by (rule log_sent [OF assms])
  obtain s4 where s4: "paging_log_fault_flags_serial lsr ec (m2\<lparr>ma_serial := s3\<rparr>) = Some (m2\<lparr>ma_serial := s3, ma_serial := s4\<rparr>)"
    unfolding paging_log_fault_flags_serial_def by (rule log_sent [OF assms])
  obtain s5 where s5: "log lsr [SStr ''\<newline>''] (m2\<lparr>ma_serial := s3, ma_serial := s4\<rparr>) =
      Some (m2\<lparr>ma_serial := s3, ma_serial := s4, ma_serial := s5\<rparr>)" by (rule log_sent [OF assms])
  have "fault_report lsr head shead cr2 ec pid tid m = Some (m2\<lparr>ma_serial := s5\<rparr>)"
    unfolding fault_report_def Let_def m2_def [symmetric] by (simp only: s3 s4 s5 Option.bind.simps) simp
  then show thesis by (intro that) (simp_all add: m2_def paging_log_fault_flags_vga_def)
qed

lemma demo_third_running: "\<exists>s. sched_inv (ks_sched s) \<and> current_of s = 3"
proof -
  fix p
  have "sched_inv (ks_sched ((scheduler_yield ^^ k) (demo_two p)))" for k by (induction k) (simp_all add: demo_two_inv yield_inv)
  moreover obtain k where "current_of ((scheduler_yield ^^ k) (demo_two p)) = 3"
    using round_robin [OF demo_two_inv(1) [of p], of 3] demo_two_inv(2) [of p] by auto
  ultimately show ?thesis by blast
qed

section \<open>Properties\<close>

text \<open>C15. 
  A page fault of a user program ends that program and nothing else: the handler resumes another
  task, the faulting task is a zombie, every other task keeps its state but the one that continues, and
  the process table, the files, the heap, the memory and the frames are as before.  A fault of the kernel
  or of the first task halts the machine with the kernel state untouched.  Either way the report stays on
  the screen.
\<close>

theorem page_fault_contained:
  assumes live: "uart_live lsr" and inv: "sched_inv (ks_sched (sys_of m))" and scr: "vga_inv (ma_vga m)"
  shows "if error_code AND 0x4 \<noteq> 0 \<and> current_of (sys_of m) \<noteq> 0
    then \<exists>m' n. paging_handle_page_fault lsr cr2 error_code m = Some (Resumed m') \<and>
      n \<noteq> current_of (sys_of m) \<and> st (ks_sched (sys_of m)) n = TASK_RUNNABLE \<and>
      same_but (ks_sched (sys_of m)) (ks_sched (sys_of m'))
        ((st (ks_sched (sys_of m)))(current_of (sys_of m) := TASK_ZOMBIE, n := TASK_RUNNING)) n \<and>
      sched_inv (ks_sched (sys_of m')) \<and> same_memory (sys_of m) (sys_of m') \<and> kn_ipc (ma_kernel m') = kn_ipc (ma_kernel m) \<and>
      vga_inv (ma_vga m') \<and> offscreen_same (ma_vga m) (ma_vga m')
    else \<exists>m'. paging_handle_page_fault lsr cr2 error_code m = Some (Halted m') \<and> ma_kernel m' = ma_kernel m \<and>
      vga_inv (ma_vga m') \<and> offscreen_same (ma_vga m) (ma_vga m')"
proof -
  let ?tid = "caller_tid (ma_kernel m)" and ?s = "sys_of m"
  have "current_of ?s < 4294967296" using inv by (simp add: sched_inv_def)
  then have tid: "?tid = 0 \<longleftrightarrow> current_of ?s = 0"
    using of_nat_u32_eq [of "current_of ?s" 0] by (simp add: caller_tid_def scheduler_current_task_id_def)
  show ?thesis
  proof (cases "error_code AND 0x4 \<noteq> 0 \<and> current_of ?s \<noteq> 0")
    case True
    obtain xs se where r: "fault_report lsr [Str ''\<newline>user page fault: task terminated\<newline>'', Str ''cr2='']
        [SStr ''user page fault: task terminated cr2=''] cr2 error_code (caller_pid (ma_kernel m)) ?tid m =
        Some ((print xs m)\<lparr>ma_serial := se\<rparr>)" by (rule fault_report_effect [OF live])
    obtain s' n where e: "scheduler_exit_current ?s = Some s'" "n < MAX_TASKS" "n \<noteq> current_of ?s" "st (ks_sched ?s) n = TASK_RUNNABLE"
      "same_but (ks_sched ?s) (ks_sched s') ((st (ks_sched ?s))(current_of ?s := TASK_ZOMBIE, n := TASK_RUNNING)) n"
      using exit_effect [OF inv] True by metis
    define m' where "m' = set_sys s' ((print xs m)\<lparr>ma_serial := se\<rparr>)"
    have h: "paging_handle_page_fault lsr cr2 error_code m = Some (Resumed m')"
      using True e(1) by (simp add: paging_handle_page_fault_def Let_def tid r m'_def)
    have s': "sys_of m' = s'" "kn_ipc (ma_kernel m') = kn_ipc (ma_kernel m)" "ma_vga m' = vga_print xs (ma_vga m)"
      by (simp_all add: m'_def)
    note v = vga_print_refines(2,3) [OF scr, of xs]
    show ?thesis unfolding if_P [OF True] unfolding s'
      by (intro exI [of _ m'] exI [of _ n] conjI; (unfold s')?)
        (fact h e(3-5) exit_inv [OF inv e(1)] exit_memory [OF e(1)] refl v)+
  next
    case False
    obtain xs se where r: "fault_report lsr [Str ''\<newline>\<newline>KERNEL PANIC: page fault\<newline>'', Str ''cr2='']
        [SStr ''KERNEL PANIC: page fault cr2=''] cr2 error_code (caller_pid (ma_kernel m)) ?tid m =
        Some ((print xs m)\<lparr>ma_serial := se\<rparr>)" by (rule fault_report_effect [OF live])
    then have "paging_handle_page_fault lsr cr2 error_code m = Some (Halted ((print xs m)\<lparr>ma_serial := se\<rparr>))"
      using False by (auto simp: paging_handle_page_fault_def Let_def tid)
    then show ?thesis using vga_print_refines(2,3) [OF scr, of xs] unfolding if_not_P [OF False]
      by (intro exI [of _ "(print xs m)\<lparr>ma_serial := se\<rparr>"]) simp
  qed
qed

theorem page_fault_contained_witness:
  "\<exists>m m'. sched_inv (ks_sched (sys_of m)) \<and> current_of (sys_of m) = 3 \<and>
     paging_handle_page_fault (\<lambda>_. 0x20) 0x50000000 6 m = Some (Resumed m') \<and>
     st (ks_sched (sys_of m')) 3 = TASK_ZOMBIE \<and> current_of (sys_of m') \<noteq> 3"
proof -
  obtain s where s: "sched_inv (ks_sched s)" "current_of s = 3" using demo_third_running by blast
  let ?m = "demo_machine s"
  have l: "length (tasks_of s) = 16" using s(1) by (simp add: sched_inv_def)
  obtain m' n where m: "paging_handle_page_fault (\<lambda>_. 0x20) 0x50000000 6 ?m = Some (Resumed m')" "n \<noteq> 3"
    "same_but (ks_sched s) (ks_sched (sys_of m')) ((st (ks_sched s))(3 := TASK_ZOMBIE, n := TASK_RUNNING)) n"
    using page_fault_contained [of "\<lambda>_. 0x20" ?m 6 "0x50000000"] s by auto
  then have "st (ks_sched (sys_of m')) 3 = TASK_ZOMBIE \<and> current_of (sys_of m') \<noteq> 3" using l by (auto simp: same_but_def)
  with m(1) s show ?thesis by (intro exI [of _ ?m] exI [of _ m']) simp
qed

end
