(* ===== verification/Shell_Text.thy ===== *)
theory Shell_Text
  imports Console
begin

text \<open>
  How the shell of \<open>kernel.c\<close> reads its command lines: comparison with command names, decimal and
  hexadecimal numbers with overflow checks, spaces and bounded tokens.  A \<open>const char *\<close> that the code moves
  along a text is the list of the bytes from the pointer on, a byte past the end reading as the terminator.
  Numbers are related to the text that the screen driver prints for them.
\<close>

section \<open>Operations\<close>

definition streq :: "string \<Rightarrow> string \<Rightarrow> bool" where
  "streq a b = str_eq_loop a b 0"

function starts_loop :: "string \<Rightarrow> string \<Rightarrow> nat \<Rightarrow> bool" where
  "starts_loop t prefix i =
     (if c_at prefix i \<noteq> NUL then (if c_at t i \<noteq> c_at prefix i then False else starts_loop t prefix (i + 1)) else True)"
  by pat_completeness auto
termination
  by (relation "measure (\<lambda>(t, prefix, i). length prefix - i)") (auto simp: c_at_def split: if_splits)

declare starts_loop.simps [simp del]

definition starts_with :: "string \<Rightarrow> string \<Rightarrow> bool" where
  "starts_with t prefix = starts_loop t prefix 0"

abbreviation UINT32_MAX :: u32 where "UINT32_MAX \<equiv> 0xFFFFFFFF"

definition char_digit :: "char \<Rightarrow> u32" where
  "char_digit ch = of_char ch - 48"

fun parse_u32_loop :: "string \<Rightarrow> u32 \<Rightarrow> u32 option" where
  "parse_u32_loop [] value = Some value"
| "parse_u32_loop (ch # s) value =
     (if ch = NUL then Some value
      else if (of_char ch :: nat) < 48 \<or> (of_char ch :: nat) > 57 then None
      else if value > UINT32_MAX div 10 then None
      else let value' = value * 10 + char_digit ch in
        if value' < char_digit ch then None else parse_u32_loop s value')"

definition parse_u32 :: "string \<Rightarrow> u32 option" where
  "parse_u32 s = (if c_at s 0 = NUL then None else parse_u32_loop s 0)"

definition auto_digit :: "u32 \<Rightarrow> char \<Rightarrow> u32 option" where
  "auto_digit base ch =
     (let c = (of_char ch :: nat) in
      if 48 \<le> c \<and> c \<le> 57 then Some (of_nat (c - 48))
      else if base = 16 \<and> 97 \<le> c \<and> c \<le> 102 then Some (of_nat (10 + (c - 97)))
      else if base = 16 \<and> 65 \<le> c \<and> c \<le> 70 then Some (of_nat (10 + (c - 65)))
      else None)"

fun parse_auto_loop :: "u32 \<Rightarrow> string \<Rightarrow> u32 \<Rightarrow> u32 option" where
  "parse_auto_loop base [] value = Some value"
| "parse_auto_loop base (ch # s) value =
     (if ch = NUL then Some value
      else case auto_digit base ch of
        None \<Rightarrow> None
      | Some digit \<Rightarrow>
          if digit \<ge> base then None
          else if value > UINT32_MAX div base then None
          else let value' = value * base + digit in
            if value' < digit then None else parse_auto_loop base s value')"

definition parse_u32_auto :: "string \<Rightarrow> u32 option" where
  "parse_u32_auto s =
     (if c_at s 0 = NUL then None
      else if c_at s 0 = CHR ''0'' \<and> (c_at s 1 = CHR ''x'' \<or> c_at s 1 = CHR ''X'') then
        (if c_at s 2 = NUL then None else parse_auto_loop 16 (drop 2 s) 0)
      else parse_auto_loop 10 s 0)"

fun skip_spaces :: "string \<Rightarrow> string" where
  "skip_spaces (c # s) = (if c = CHR '' '' then skip_spaces s else c # s)"
| "skip_spaces [] = []"

fun read_token_loop :: "string \<Rightarrow> string \<Rightarrow> u32 \<Rightarrow> u32 \<Rightarrow> string \<times> string" where
  "read_token_loop [] token token_size i = ([], token[unat i := NUL])"
| "read_token_loop (c # s) token token_size i =
     (if c \<noteq> NUL \<and> c \<noteq> CHR '' '' then
        (if i + 1 < token_size then read_token_loop s (token[unat i := c]) token_size (i + 1)
         else read_token_loop s token token_size i)
      else (c # s, token[unat i := NUL]))"

definition read_token :: "string \<Rightarrow> string \<Rightarrow> u32 \<Rightarrow> string \<times> string" where
  "read_token s0 token token_size =
     (let s = skip_spaces s0 in
      if c_at s 0 = NUL then (s, token[0 := NUL]) else read_token_loop s token token_size 0)"

section \<open>Names\<close>

lemma streq_cstr: "streq a b \<longleftrightarrow> cstr a = cstr b"
  using str_eq_loop_drop [of 0 a b] by (simp add: streq_def)

lemma starts_loop_drop:
  "i \<le> length (cstr t) \<Longrightarrow> i \<le> length (cstr p) \<Longrightarrow>
     starts_loop t p i \<longleftrightarrow> take (length (cstr p) - i) (drop i (cstr t)) = drop i (cstr p)"
proof (induction "length (cstr p) - i" arbitrary: i)
  case 0
  then have "c_at p i = NUL" by (simp add: c_at_NUL_iff)
  then show ?case using 0 by (simp add: starts_loop.simps [of t p i])
next
  case (Suc k)
  then have p: "c_at p i \<noteq> NUL" "i < length (cstr p)" by (auto simp: c_at_NUL_iff)
  have pd: "drop i (cstr p) = c_at p i # drop (i + 1) (cstr p)"
    using p(2) c_at_cstr [of i p] by (simp add: Cons_nth_drop_Suc [symmetric] c_at_def [of "cstr p"])
  show ?case
  proof (cases "i < length (cstr t)")
    case False
    then have "c_at t i = NUL" using Suc.prems by (auto simp: c_at_NUL_iff)
    then show ?thesis using p False by (auto simp: starts_loop.simps [of t p i])
  next
    case True
    have td: "drop i (cstr t) = c_at t i # drop (i + 1) (cstr t)"
      using True c_at_cstr [of i t] by (simp add: Cons_nth_drop_Suc [symmetric] c_at_def [of "cstr t"])
    have "length (cstr p) - i = Suc (length (cstr p) - (i + 1))" using p(2) by simp
    then show ?thesis using Suc.hyps p True unfolding pd td by (auto simp: starts_loop.simps [of t p i])
  qed
qed

lemma starts_with_cstr: "starts_with t p \<longleftrightarrow> take (length (cstr p)) (cstr t) = cstr p"
  using starts_loop_drop [of 0 t p] by (simp add: starts_with_def)

section \<open>Numbers\<close>

definition hex_val :: "char \<Rightarrow> nat" where
  "hex_val ch = (let c = (of_char ch :: nat) in if c \<le> 57 then c - 48 else if 97 \<le> c then c - 87 else c - 55)"

definition is_hex :: "char \<Rightarrow> bool" where
  "is_hex ch \<longleftrightarrow> is_digit ch \<or> (97 \<le> (of_char ch :: nat) \<and> (of_char ch :: nat) \<le> 102) \<or>
     (65 \<le> (of_char ch :: nat) \<and> (of_char ch :: nat) \<le> 70)"

definition num_val :: "nat \<Rightarrow> nat \<Rightarrow> string \<Rightarrow> nat" where
  "num_val base = foldl (\<lambda>a c. a * base + hex_val c)"

lemma num_val_mono: "0 < base \<Longrightarrow> v \<le> num_val base v t"
proof (induction t arbitrary: v)
  case Nil
  then show ?case by (simp add: num_val_def)
next
  case (Cons c t)
  have "v \<le> v * base" using Cons.prems by simp
  also have "\<dots> \<le> v * base + hex_val c" by (rule le_add1)
  also have "\<dots> \<le> num_val base (v * base + hex_val c) t" using Cons by blast
  finally show ?case by (simp add: num_val_def)
qed

lemma digit_step:
  fixes v d b :: u32
  assumes "b = 10 \<or> b = 16" "d < b"
  shows "v \<le> UINT32_MAX div b \<and> \<not> v * b + d < d \<longleftrightarrow> unat v * unat b + unat d < 4294967296"
    and "unat v * unat b + unat d < 4294967296 \<Longrightarrow> unat (v * b + d) = unat v * unat b + unat d"
proof -
  have v: "unat v < 4294967296" by (rule unat_u32_less)
  have d: "unat d < unat b" using assms(2) by (simp add: word_less_nat_alt)
  have m: "unat (v * b + d) = (unat v * unat b + unat d) mod 4294967296" by (simp add: unat_word_ariths mod_simps)
  have q: "v \<le> UINT32_MAX div b \<longleftrightarrow> unat v \<le> 4294967295 div unat b" by (simp add: word_le_nat_alt unat_div)
  have lt: "v * b + d < d \<longleftrightarrow> (unat v * unat b + unat d) mod 4294967296 < unat d" by (simp add: word_less_nat_alt m)
  show "unat (v * b + d) = unat v * unat b + unat d" if "unat v * unat b + unat d < 4294967296" using that m by simp
  show "v \<le> UINT32_MAX div b \<and> \<not> v * b + d < d \<longleftrightarrow> unat v * unat b + unat d < 4294967296"
    using assms(1)
  proof
    assume b: "b = 10"
    have "unat v \<le> 429496729 \<and> \<not> (unat v * 10 + unat d) mod 4294967296 < unat d \<longleftrightarrow> unat v * 10 + unat d < 4294967296"
      using d v by (auto simp: b mod_if)
    then show ?thesis unfolding q lt by (simp add: b)
  next
    assume b: "b = 16"
    have "unat v \<le> 268435455 \<and> \<not> (unat v * 16 + unat d) mod 4294967296 < unat d \<longleftrightarrow> unat v * 16 + unat d < 4294967296"
      using d v by (auto simp: b mod_if)
    then show ?thesis unfolding q lt by (simp add: b)
  qed
qed

lemma auto_digit_Some:
  assumes "b = 10 \<or> b = 16" "auto_digit b c = Some d"
  shows "unat d = hex_val c" "d < b"
proof -
  have "d = of_nat (hex_val c)" "hex_val c < unat b"
    using assms by (auto simp: auto_digit_def hex_val_def Let_def split: if_splits)
  moreover from this have "hex_val c < 4294967296" using unat_u32_less [of b] by simp
  ultimately show "unat d = hex_val c" "d < b" by (simp_all add: word_less_nat_alt unat_of_nat)
qed

lemma auto_digit_None: "auto_digit 10 c \<noteq> None \<longleftrightarrow> is_digit c" "auto_digit 16 c \<noteq> None \<longleftrightarrow> is_hex c"
  by (auto simp: auto_digit_def is_digit_def is_hex_def Let_def)

definition num_parse :: "nat \<Rightarrow> (char \<Rightarrow> bool) \<Rightarrow> nat \<Rightarrow> string \<Rightarrow> u32 option" where
  "num_parse base P v t = (if list_all P t \<and> num_val base v t < 4294967296 then Some (of_nat (num_val base v t)) else None)"

lemma cstr_Cons: "cstr (c # t) = (if c = NUL then [] else c # cstr t)"
  by (simp add: cstr_def)

lemma parse_auto_loop_exact:
  assumes b: "b = 10 \<or> b = 16"
  shows "parse_auto_loop b t v = num_parse (unat b) (\<lambda>c. auto_digit b c \<noteq> None) (unat v) (cstr t)"
proof (induction t arbitrary: v)
  case Nil
  then show ?case using unat_u32_less [of v] by (simp add: num_parse_def num_val_def)
next
  case (Cons c t)
  show ?case
  proof (cases "c = NUL \<or> auto_digit b c = None")
    case True
    then show ?thesis using unat_u32_less [of v] by (auto simp: num_parse_def num_val_def cstr_Cons)
  next
    case False
    then obtain d where d: "auto_digit b c = Some d" by auto
    note dv = auto_digit_Some [OF b d] and st = digit_step [OF b, of d v]
    have nv: "num_val (unat b) (unat v) (cstr (c # t)) = num_val (unat b) (unat v * unat b + unat d) (cstr t)"
      using False by (simp add: num_val_def cstr_Cons dv(1))
    have "0 < unat b" using b by auto
    note mono = num_val_mono [OF this, of "unat v * unat b + unat d" "cstr t"]
    show ?thesis
    proof (cases "unat v * unat b + unat d < 4294967296")
      case True
      then have ok: "v \<le> UINT32_MAX div b" "\<not> v * b + d < d" using st(1) [OF dv(2)] by blast+
      have "\<not> b \<le> d" "\<not> v > UINT32_MAX div b" using dv(2) ok(1) by simp_all
      with ok(2) have "parse_auto_loop b (c # t) v = parse_auto_loop b t (v * b + d)" using False d by (simp add: Let_def)
      then show ?thesis using Cons.IH [of "v * b + d"] st(2) [OF dv(2) True] nv False d
        by (simp add: num_parse_def cstr_Cons)
    next
      case F: False
      then have "\<not> (v \<le> UINT32_MAX div b \<and> \<not> v * b + d < d)" using st(1) [OF dv(2)] by blast
      then have "parse_auto_loop b (c # t) v = None" using False d by (auto simp: Let_def not_le)
      then show ?thesis using F mono nv by (simp add: num_parse_def)
    qed
  qed
qed

lemma parse_u32_loop_auto: "parse_u32_loop t v = parse_auto_loop 10 t v"
proof (induction t arbitrary: v)
  case (Cons c t)
  have "char_digit c = of_nat (of_char c - 48)" if "48 \<le> (of_char c :: nat)"
    using that by (simp add: char_digit_def of_nat_diff of_nat_of_char)
  moreover have "of_nat (of_char c - 48) < (10 :: u32)" if "(of_char c :: nat) \<le> 57"
    using that by (simp add: word_less_nat_alt unat_of_nat)
  ultimately show ?case using Cons by (auto simp: auto_digit_def Let_def not_less not_le)
qed simp

lemma digits_val: "list_all is_digit t \<Longrightarrow> foldl (\<lambda>a c. a * 10 + (of_char c - 48)) a t = num_val 10 a t"
  by (induction t arbitrary: a) (simp_all add: num_val_def hex_val_def is_digit_def)

lemma auto_digit_pred: "(\<lambda>c. auto_digit 10 c \<noteq> None) = is_digit" "(\<lambda>c. auto_digit 16 c \<noteq> None) = is_hex"
  by (simp_all only: auto_digit_None)

lemma parse_dec: "parse_auto_loop 10 t v = num_parse 10 is_digit (unat v) (cstr t)"
  using parse_auto_loop_exact [of 10 t v] unfolding auto_digit_pred by simp

lemma parse_hex: "parse_auto_loop 16 t v = num_parse 16 is_hex (unat v) (cstr t)"
  using parse_auto_loop_exact [of 16 t v] unfolding auto_digit_pred by simp

lemma num_parse_dec:
  "num_parse 10 is_digit 0 t = (if list_all is_digit t \<and> dec_val t < 4294967296 then Some (of_nat (dec_val t)) else None)"
  using digits_val [of t 0] by (auto simp: num_parse_def dec_val_def)

lemma empty_cstr: "c_at s 0 = NUL \<longleftrightarrow> cstr s = []"
  using c_at_NUL_iff [of 0 s] by simp

lemma parse_u32_eq:
  "parse_u32 s = (if cstr s \<noteq> [] \<and> list_all is_digit (cstr s) \<and> dec_val (cstr s) < 4294967296
     then Some (of_nat (dec_val (cstr s))) else None)"
  by (simp add: parse_u32_def parse_u32_loop_auto parse_dec num_parse_dec empty_cstr)

text \<open>What the shell prints for a number is what it reads back.\<close>

lemma digits_no_NUL: "list_all is_digit t \<Longrightarrow> cstr t = t"
  by (intro cstr_id) (auto simp: list_all_iff is_digit_def)

lemma hex_digit:
  assumes "k < 16"
  shows "hex_val (hex_digits ! k) = k" "is_hex (hex_digits ! k)" "hex_digits ! k \<noteq> NUL"
proof -
  have "k \<in> set [0..<16]" using assms by simp
  moreover have "list_all (\<lambda>k. hex_val (hex_digits ! k) = k \<and> is_hex (hex_digits ! k) \<and> hex_digits ! k \<noteq> NUL) [0..<16]"
    by code_simp
  ultimately show "hex_val (hex_digits ! k) = k" "is_hex (hex_digits ! k)" "hex_digits ! k \<noteq> NUL"
    unfolding list_all_iff by blast+
qed

definition nibble :: "u32 \<Rightarrow> nat \<Rightarrow> nat" where
  "nibble v i = unat (drop_bit i v AND 0xF)"

lemma nibble_eq: "nibble v i = unat v div 2 ^ i mod 16"
proof -
  have "(mask 4 :: u32) = 0xF" by (simp add: mask_eq_exp_minus_1)
  then show ?thesis using unat_and_mask [of "drop_bit i v" 4] by (simp add: nibble_def unat_drop_bit_eq drop_bit_eq_div [of _ "unat v"])
qed

lemma nibble_step: "unat v div 2 ^ (i + 4) * 16 + nibble v i = unat v div 2 ^ i"
  by (simp add: nibble_eq power_add div_mult2_eq)

lemma hex_text_digits: "hex_text v = ''0x'' @ map (\<lambda>i. hex_digits ! nibble v i) [28, 24, 20, 16, 12, 8, 4, 0]"
  by (simp add: hex_text_def nibble_def)

lemma hex_text_val:
  "num_val 16 0 (drop 2 (hex_text v)) = unat v" "list_all is_hex (drop 2 (hex_text v))" "NUL \<notin> set (hex_text v)"
proof -
  have lt: "nibble v i < 16" for i by (simp add: nibble_eq)
  have "unat v div 2 ^ 28 < 16" using unat_u32_less [of v] by (simp add: div_less_iff_less_mult)
  then have top: "nibble v 28 = unat v div 2 ^ 28" by (simp add: nibble_eq)
  have "num_val 16 0 (drop 2 (hex_text v)) = ((((((nibble v 28 * 16 + nibble v 24) * 16 + nibble v 20) * 16 + nibble v 16) * 16 +
      nibble v 12) * 16 + nibble v 8) * 16 + nibble v 4) * 16 + nibble v 0"
    by (simp add: hex_text_digits num_val_def hex_digit lt)
  then show "num_val 16 0 (drop 2 (hex_text v)) = unat v"
    using nibble_step [of v 24] nibble_step [of v 20] nibble_step [of v 16] nibble_step [of v 12] nibble_step [of v 8]
      nibble_step [of v 4] nibble_step [of v 0] top by simp
  show "list_all is_hex (drop 2 (hex_text v))" "NUL \<notin> set (hex_text v)"
    by (simp_all add: hex_text_digits hex_digit lt) (metis hex_digit(3) lt)
qed

lemma parse_hex_text: "parse_u32_auto (hex_text v) = Some v"
proof -
  have "c_at (hex_text v) 0 = CHR ''0''" "c_at (hex_text v) 1 = CHR ''x''" "c_at (hex_text v) 2 \<noteq> NUL"
    using hex_text_val(3) [of v] by (auto simp: hex_text_digits c_at_def)
  moreover have "cstr (drop 2 (hex_text v)) = drop 2 (hex_text v)"
    using hex_text_val(3) [of v] by (intro cstr_id) (auto dest: in_set_dropD)
  ultimately show ?thesis using hex_text_val(1,2) [of v] unat_u32_less [of v]
    by (simp add: parse_u32_auto_def parse_hex num_parse_def)
qed

section \<open>Tokens\<close>

definition word_char :: "char \<Rightarrow> bool" where
  "word_char c \<longleftrightarrow> c \<noteq> NUL \<and> c \<noteq> CHR '' ''"

lemma read_token_loop_eq:
  assumes "0 < n" "unat n \<le> length token" "i < n"
  shows "fst (read_token_loop s token n i) = dropWhile word_char s"
    and "let k = min (unat n - 1 - unat i) (length (takeWhile word_char s)) in
      snd (read_token_loop s token n i) =
        take (unat i) token @ take k (takeWhile word_char s) @ [NUL] @ drop (unat i + k + 1) token"
proof -
  have "fst (read_token_loop s token n i) = dropWhile word_char s \<and>
    (let k = min (unat n - 1 - unat i) (length (takeWhile word_char s)) in
      snd (read_token_loop s token n i) =
        take (unat i) token @ take k (takeWhile word_char s) @ [NUL] @ drop (unat i + k + 1) token)"
    using assms
  proof (induction s arbitrary: token i)
    case Nil
    then show ?case by (simp add: word_less_nat_alt upd_conv_take_nth_drop)
  next
    case (Cons c s)
    have i: "unat i < unat n" using Cons.prems by (simp add: word_less_nat_alt)
    then have i1: "unat (i + 1) = unat i + 1" using unat_u32_less [of n] by (simp add: unat_word_ariths)
    then have lt: "i + 1 < n \<longleftrightarrow> unat i + 1 < unat n" by (simp add: word_less_nat_alt)
    show ?case
    proof (cases "word_char c")
      case False
      then have "read_token_loop (c # s) token n i = (c # s, token[unat i := NUL])" by (auto simp: word_char_def)
      then show ?thesis using i Cons.prems False by (simp add: upd_conv_take_nth_drop)
    next
      case w: True
      show ?thesis
      proof (cases "i + 1 < n")
        case True
        let ?t = "token[unat i := c]"
        have st: "read_token_loop (c # s) token n i = read_token_loop s ?t n (i + 1)" using w True by (simp add: word_char_def)
        have ih: "fst (read_token_loop s ?t n (i + 1)) = dropWhile word_char s"
          "snd (read_token_loop s ?t n (i + 1)) =
            (let k = min (unat n - 1 - (unat i + 1)) (length (takeWhile word_char s)) in
             take (unat i + 1) ?t @ take k (takeWhile word_char s) @ [NUL] @ drop (unat i + 1 + k + 1) ?t)"
          using Cons.IH [of ?t "i + 1"] Cons.prems True by (simp_all add: i1 Let_def)
        have k: "unat n - Suc (unat i) = Suc (unat n - Suc (Suc (unat i)))" using True lt by simp
        have "take (unat i + 1) ?t = take (unat i) token @ [c]" using i Cons.prems by (simp add: take_Suc_conv_app_nth)
        then show ?thesis using w unfolding st ih by (simp add: Let_def k)
      next
        case False
        then have k: "unat n - 1 - unat i = 0" using lt by simp
        have "read_token_loop (c # s) token n i = read_token_loop s token n i" using w False by (simp add: word_char_def)
        then show ?thesis using Cons.IH [OF Cons.prems] w k by (simp add: Let_def)
      qed
    qed
  qed
  then show "fst (read_token_loop s token n i) = dropWhile word_char s"
    and "let k = min (unat n - 1 - unat i) (length (takeWhile word_char s)) in
      snd (read_token_loop s token n i) =
        take (unat i) token @ take k (takeWhile word_char s) @ [NUL] @ drop (unat i + k + 1) token" by blast+
qed

lemma skip_spaces_eq: "skip_spaces s = dropWhile (\<lambda>c. c = CHR '' '') s"
  by (induction s) auto

lemma read_token_eq:
  assumes "0 < n" "unat n \<le> length token"
  shows "fst (read_token s token n) = dropWhile word_char (skip_spaces s)"
    and "cstr (snd (read_token s token n)) = take (unat n - 1) (takeWhile word_char (skip_spaces s))"
    and "length (snd (read_token s token n)) = length token"
    and "unat n \<le> j \<Longrightarrow> snd (read_token s token n) ! j = token ! j"
proof -
  let ?s = "skip_spaces s"
  define k where "k = min (unat n - 1) (length (takeWhile word_char ?s))"
  have n: "0 < unat n" using assms(1) by (simp add: word_gt_0 unat_gt_0)
  have *: "fst (read_token s token n) = dropWhile word_char ?s \<and>
    snd (read_token s token n) = take k (takeWhile word_char ?s) @ NUL # drop (k + 1) token"
  proof (cases "c_at ?s 0 = NUL")
    case True
    then have "takeWhile word_char ?s = []" "dropWhile word_char ?s = ?s"
      by (cases ?s; simp add: c_at_def word_char_def)+
    moreover have "token[0 := NUL] = NUL # drop 1 token" using assms(2) n by (cases token) auto
    ultimately show ?thesis using True by (simp add: read_token_def Let_def k_def)
  next
    case False
    then show ?thesis
      using read_token_loop_eq [OF assms, of 0 ?s] assms(1) by (simp add: read_token_def Let_def k_def)
  qed
  have "NUL \<notin> set (take k (takeWhile word_char ?s))" by (auto dest!: in_set_takeD set_takeWhileD simp: word_char_def)
  moreover have "take k (takeWhile word_char ?s) = take (unat n - 1) (takeWhile word_char ?s)" by (simp add: k_def min_def)
  ultimately show "cstr (snd (read_token s token n)) = take (unat n - 1) (takeWhile word_char ?s)"
    using * by (simp add: cstr_append_NUL)
  have k: "k < unat n" using n by (simp add: k_def)
  then show "length (snd (read_token s token n)) = length token" using * assms(2) by (simp add: k_def)
  have l: "length (take k (takeWhile word_char ?s)) = k" by (simp add: k_def)
  show "snd (read_token s token n) ! j = token ! j" if "unat n \<le> j"
  proof -
    have "j - k = Suc (j - k - 1)" "k + 1 + (j - k - 1) = j" using that k by simp_all
    then show ?thesis using * k that assms(2) l by (simp add: nth_append nth_Cons')
  qed
  show "fst (read_token s token n) = dropWhile word_char ?s" using * by (rule conjunct1)
qed

section \<open>Properties\<close>

text \<open>
  \<open>parse_u32\<close> accepts exactly the non-empty texts of decimal digits whose value fits 32 bits, and returns that
  value: the two overflow tests of the loop refuse every larger number and no other.
\<close>

theorem parse_u32_exact:
  "parse_u32 s = (if cstr s \<noteq> [] \<and> list_all is_digit (cstr s) \<and> dec_val (cstr s) < 2 ^ 32
     then Some (of_nat (dec_val (cstr s))) else None)"
  using parse_u32_eq [of s] by simp

text \<open>C37. 
  Every number that the kernel prints is read back by the shell: the decimal text by both parsers, the
  text with the prefix 0x by the one that chooses the base.
\<close>

theorem number_print_parse:
  "parse_u32 (dec_text v) = Some v \<and> parse_u32_auto (dec_text v) = Some v \<and> parse_u32_auto (hex_text v) = Some v"
proof -
  note d = dec_text [of v] and c = digits_no_NUL [OF dec_text(4) [of v]]
  have lt: "dec_val (dec_text v) < 4294967296" using d(1) unat_u32_less [of v] by simp
  have "c_at (dec_text v) 1 \<noteq> CHR ''x''" "c_at (dec_text v) 1 \<noteq> CHR ''X''"
    using d(4) by (auto simp: c_at_def list_all_length is_digit_def split: if_splits)
  then have "parse_u32_auto (dec_text v) = parse_auto_loop 10 (dec_text v) 0"
    using d(2) c by (simp add: parse_u32_auto_def empty_cstr)
  then have "parse_u32_auto (dec_text v) = Some v" using d lt by (simp add: parse_dec num_parse_dec c)
  moreover have "parse_u32 (dec_text v) = Some v" using d lt c by (simp add: parse_u32_eq)
  ultimately show ?thesis using parse_hex_text [of v] by blast
qed

text \<open>
  \<open>read_token\<close> returns the position after the first word and stores the word in the token buffer, cut to the
  buffer's size with its terminator; no byte at or past the given size is written.
\<close>

theorem read_token_exact:
  assumes "0 < token_size" "unat token_size \<le> length token"
  shows "fst (read_token s token token_size) = dropWhile word_char (skip_spaces s) \<and>
    cstr (snd (read_token s token token_size)) = take (unat token_size - 1) (takeWhile word_char (skip_spaces s)) \<and>
    length (snd (read_token s token token_size)) = length token \<and>
    drop (unat token_size) (snd (read_token s token token_size)) = drop (unat token_size) token"
  using read_token_eq [OF assms] by (auto intro!: nth_equalityI)

theorem read_token_exact_witness:
  "fst (read_token ''  run helloapp'' (replicate 5 CHR ''z'') 4) = '' helloapp'' \<and>
   cstr (snd (read_token ''  userprobe'' (replicate 5 CHR ''z'') 4)) = ''use'' \<and>
   drop 4 (snd (read_token ''  userprobe'' (replicate 5 CHR ''z'') 4)) = ''z''"
  using read_token_exact [of 4 "replicate 5 CHR ''z''" "''  userprobe''"]
    read_token_exact [of 4 "replicate 5 CHR ''z''" "''  run helloapp''"]
  by (simp add: word_char_def)

end
