(* ===== verification/Shell_Editor.thy ===== *)
theory Shell_Editor
  imports Keyboard Shell_Text
begin

text \<open>
  The line editor of the shell (\<open>kernel.c\<close>, the inner loop of \<open>kernel_main\<close> and the \<open>shell_\<close> functions): a
  128-byte line with a cursor, eight lines of history, and the echo on the screen.  The specification is a
  text with a position and a bounded list of remembered lines; \<open>ed_abs\<close> relates the two.  The last section
  is about the echo.
\<close>

section \<open>Operations\<close>

abbreviation SHELL_LINE_MAX :: u32 where "SHELL_LINE_MAX \<equiv> 128"
abbreviation SHELL_HISTORY_MAX :: u32 where "SHELL_HISTORY_MAX \<equiv> 8"

record editor =
  ed_line :: string
  ed_len :: u32
  ed_cursor :: u32
  ed_history :: "string list"
  ed_count :: u32
  ed_hcursor :: int
  ed_vga :: vga

text \<open>The second loop of \<open>shell_replace_line\<close> and its final store.\<close>

fun replace_loop :: "string \<Rightarrow> string \<Rightarrow> u32 \<Rightarrow> vga \<Rightarrow> string \<times> u32 \<times> vga" where
  "replace_loop [] line line_len v = (line[unat line_len := NUL], line_len, v)"
| "replace_loop (c # t) line line_len v =
     (if c \<noteq> NUL \<and> line_len < SHELL_LINE_MAX - 1
      then replace_loop t (line[unat line_len := c]) (line_len + 1) (vga_putc c v)
      else (line[unat line_len := NUL], line_len, v))"

definition shell_replace_line :: "string \<Rightarrow> editor \<Rightarrow> editor" where
  "shell_replace_line t e =
     (let v = (vga_backspace ^^ unat (ed_len e)) (ed_vga e); (line, len, v') = replace_loop t (ed_line e) 0 v
      in e\<lparr>ed_line := line, ed_len := len, ed_vga := v'\<rparr>)"

definition shell_redraw_line :: "editor \<Rightarrow> editor" where
  "shell_redraw_line e =
     (let n = unat (ed_len e); v1 = (vga_backspace ^^ n) (ed_vga e);
          v2 = fold (\<lambda>i. vga_putc (ed_line e ! i)) [0..<n] v1
      in e\<lparr>ed_vga := (vga_backspace ^^ (n - unat (ed_cursor e))) v2\<rparr>)"

definition shell_move_cursor_to_end :: "editor \<Rightarrow> editor" where
  "shell_move_cursor_to_end e =
     e\<lparr>ed_vga := fold (\<lambda>i. vga_putc (ed_line e ! i)) [unat (ed_cursor e)..<unat (ed_len e)] (ed_vga e), ed_cursor := ed_len e\<rparr>"

text \<open>\<open>while (1) { dst[col] = src[col]; if (src[col] == '\0') break; col++; }\<close>\<close>

function copy_row_loop :: "string \<Rightarrow> string \<Rightarrow> nat \<Rightarrow> string" where
  "copy_row_loop dst src col =
     (let dst' = dst[col := c_at src col] in if c_at src col = NUL then dst' else copy_row_loop dst' src (col + 1))"
  by pat_completeness auto
termination
  by (relation "measure (\<lambda>(dst, src, col). length src - col)") (auto simp: c_at_def split: if_splits)

declare copy_row_loop.simps [simp del]

definition shell_store_history :: "string list \<Rightarrow> u32 \<Rightarrow> string \<Rightarrow> string list \<times> u32" where
  "shell_store_history history history_count line =
     (if c_at line 0 = NUL then (history, history_count)
      else if history_count > 0 \<and> streq (history ! unat (history_count - 1)) line then (history, history_count)
      else if history_count < SHELL_HISTORY_MAX then
        let slot = unat history_count
        in (history[slot := fst (str_copy_loop (history ! slot) line 128 0)], history_count + 1)
      else
        let h = fold (\<lambda>row h. h[row - 1 := copy_row_loop (h ! (row - 1)) (h ! row) 0]) [1..<8] history
        in (h[7 := fst (str_copy_loop (h ! 7) line 128 0)], history_count))"

text \<open>The shifts of the line by one place: \<open>line[i] = line[i + 1]\<close> upwards, \<open>line[i] = line[i - 1]\<close> downwards.\<close>

definition close_gap :: "nat \<Rightarrow> nat \<Rightarrow> string \<Rightarrow> string" where
  "close_gap from_pos len line = fold (\<lambda>i l. l[i := l ! (i + 1)]) [from_pos..<len - 1] line"

definition open_gap :: "nat \<Rightarrow> nat \<Rightarrow> string \<Rightarrow> string" where
  "open_gap at_pos len line = fold (\<lambda>i l. l[i := l ! (i - 1)]) (rev [at_pos + 1..<len + 1]) line"

definition key_up :: "editor \<Rightarrow> editor" where
  "key_up e =
     (if ed_count e = 0 then e
      else
        let h = (if ed_hcursor e < 0 then uint (ed_count e) - 1 else if ed_hcursor e > 0 then ed_hcursor e - 1 else ed_hcursor e);
            e1 = shell_replace_line (ed_history e ! nat h) (shell_move_cursor_to_end (e\<lparr>ed_hcursor := h\<rparr>))
        in e1\<lparr>ed_cursor := ed_len e1\<rparr>)"

definition key_down :: "editor \<Rightarrow> editor" where
  "key_down e =
     (if ed_count e = 0 \<or> ed_hcursor e < 0 then e
      else
        let h = ed_hcursor e + 1;
            e1 = (if h \<ge> uint (ed_count e) then shell_replace_line [] (shell_move_cursor_to_end (e\<lparr>ed_hcursor := -1\<rparr>))
                  else shell_replace_line (ed_history e ! nat h) (shell_move_cursor_to_end (e\<lparr>ed_hcursor := h\<rparr>)))
        in e1\<lparr>ed_cursor := ed_len e1\<rparr>)"

definition key_left :: "editor \<Rightarrow> editor" where
  "key_left e = (if ed_cursor e > 0 then e\<lparr>ed_cursor := ed_cursor e - 1, ed_vga := vga_backspace (ed_vga e)\<rparr> else e)"

definition key_right :: "editor \<Rightarrow> editor" where
  "key_right e =
     (if ed_cursor e < ed_len e
      then e\<lparr>ed_vga := vga_putc (ed_line e ! unat (ed_cursor e)) (ed_vga e), ed_cursor := ed_cursor e + 1\<rparr> else e)"

definition key_delete :: "editor \<Rightarrow> editor" where
  "key_delete e =
     (if ed_cursor e < ed_len e then
        let line = close_gap (unat (ed_cursor e)) (unat (ed_len e)) (ed_line e); len = ed_len e - 1
        in shell_redraw_line (e\<lparr>ed_line := line[unat len := NUL], ed_len := len\<rparr>)
      else e)"

definition key_backspace :: "editor \<Rightarrow> editor" where
  "key_backspace e =
     (if ed_cursor e > 0 then
        if ed_cursor e = ed_len e then
          let len = ed_len e - 1
          in e\<lparr>ed_line := (ed_line e)[unat len := NUL], ed_len := len, ed_cursor := ed_cursor e - 1, ed_vga := vga_backspace (ed_vga e)\<rparr>
        else
          let line = close_gap (unat (ed_cursor e - 1)) (unat (ed_len e)) (ed_line e); len = ed_len e - 1
          in shell_redraw_line (e\<lparr>ed_line := line[unat len := NUL], ed_len := len, ed_cursor := ed_cursor e - 1\<rparr>)
      else e)"

definition key_char :: "char \<Rightarrow> editor \<Rightarrow> editor" where
  "key_char c e =
     (if ed_len e < SHELL_LINE_MAX - 1 then
        if ed_cursor e = ed_len e then
          let len = ed_len e + 1
          in e\<lparr>ed_line := (ed_line e)[unat (ed_len e) := c, unat len := NUL], ed_len := len, ed_cursor := ed_cursor e + 1,
               ed_vga := vga_putc c (ed_vga e)\<rparr>
        else
          let line = (open_gap (unat (ed_cursor e)) (unat (ed_len e)) (ed_line e))[unat (ed_cursor e) := c]; len = ed_len e + 1
          in shell_redraw_line (e\<lparr>ed_line := line[unat len := NUL], ed_len := len, ed_cursor := ed_cursor e + 1\<rparr>)
      else e)"

text \<open>One turn of the inner loop for a character from the keyboard; True when the line is complete.\<close>

definition shell_key :: "char \<Rightarrow> editor \<Rightarrow> bool \<times> editor" where
  "shell_key c e =
     (if c = KEY_SPECIAL_UP then (False, key_up e)
      else if c = KEY_SPECIAL_DOWN then (False, key_down e)
      else if c = KEY_SPECIAL_LEFT then (False, key_left e)
      else if c = KEY_SPECIAL_RIGHT then (False, key_right e)
      else if c = KEY_SPECIAL_DELETE then (False, key_delete e)
      else if c = CHR 0x0A then (True, e\<lparr>ed_line := (ed_line e)[unat (ed_len e) := NUL], ed_vga := vga_putc CHR 0x0A (ed_vga e)\<rparr>)
      else if c = CHR 0x08 then (False, key_backspace e)
      else (False, key_char c e))"

definition shell_prompt :: "editor \<Rightarrow> editor" where
  "shell_prompt e = e\<lparr>ed_vga := vga_puts ''mars> '' (ed_vga e), ed_len := 0, ed_cursor := 0, ed_line := (ed_line e)[0 := NUL],
     ed_hcursor := -1\<rparr>"

text \<open>The keys typed until the first newline; the rest of the keys stays in the keyboard buffer.\<close>

fun shell_read_line :: "string \<Rightarrow> editor \<Rightarrow> (string \<times> editor) option" where
  "shell_read_line [] e = None"
| "shell_read_line (c # cs) e = (case shell_key c e of (True, e') \<Rightarrow> Some (cs, e') | (False, e') \<Rightarrow> shell_read_line cs e')"

section \<open>The text and its history\<close>

record ed_spec =
  sp_text :: string
  sp_pos :: nat
  sp_hist :: "string list"
  sp_sel :: "nat option"

definition ed_abs :: "editor \<Rightarrow> ed_spec" where
  "ed_abs e = \<lparr>sp_text = take (unat (ed_len e)) (ed_line e), sp_pos = unat (ed_cursor e),
     sp_hist = map cstr (take (unat (ed_count e)) (ed_history e)),
     sp_sel = (if ed_hcursor e < 0 then None else Some (nat (ed_hcursor e)))\<rparr>"

definition sp_select :: "nat option \<Rightarrow> ed_spec \<Rightarrow> ed_spec" where
  "sp_select k s = (let t = (case k of None \<Rightarrow> [] | Some i \<Rightarrow> sp_hist s ! i) in s\<lparr>sp_text := t, sp_pos := length t, sp_sel := k\<rparr>)"

definition sp_key :: "char \<Rightarrow> ed_spec \<Rightarrow> ed_spec" where
  "sp_key c s =
     (let t = sp_text s; p = sp_pos s in
      if c = KEY_SPECIAL_UP then
        (if sp_hist s = [] then s
         else sp_select (Some (case sp_sel s of None \<Rightarrow> length (sp_hist s) - 1 | Some k \<Rightarrow> k - 1)) s)
      else if c = KEY_SPECIAL_DOWN then
        (case sp_sel s of None \<Rightarrow> s
         | Some k \<Rightarrow> sp_select (if k + 1 < length (sp_hist s) then Some (k + 1) else None) s)
      else if c = KEY_SPECIAL_LEFT then s\<lparr>sp_pos := p - 1\<rparr>
      else if c = KEY_SPECIAL_RIGHT then s\<lparr>sp_pos := min (p + 1) (length t)\<rparr>
      else if c = KEY_SPECIAL_DELETE then s\<lparr>sp_text := take p t @ drop (p + 1) t\<rparr>
      else if c = CHR 0x0A then s
      else if c = CHR 0x08 then (if p = 0 then s else s\<lparr>sp_text := take (p - 1) t @ drop p t, sp_pos := p - 1\<rparr>)
      else if length t < 127 then s\<lparr>sp_text := take p t @ c # drop p t, sp_pos := p + 1\<rparr> else s)"

definition sp_store :: "string \<Rightarrow> string list \<Rightarrow> string list" where
  "sp_store t h = (if t = [] \<or> (h \<noteq> [] \<and> last h = t) then h else drop (length h + 1 - 8) (h @ [t]))"

definition ed_inv :: "editor \<Rightarrow> bool" where
  "ed_inv e \<longleftrightarrow> length (ed_line e) = 128 \<and> ed_len e \<le> 127 \<and> ed_cursor e \<le> ed_len e \<and>
     NUL \<notin> set (take (unat (ed_len e)) (ed_line e)) \<and> ed_line e ! unat (ed_len e) = NUL \<and>
     length (ed_history e) = 8 \<and> (\<forall>r \<in> set (ed_history e). length r = 128) \<and> ed_count e \<le> 8 \<and>
     (\<forall>i < unat (ed_count e). NUL \<in> set (ed_history e ! i)) \<and>
     - 1 \<le> ed_hcursor e \<and> ed_hcursor e < uint (ed_count e)"

lemma close_gap_nth:
  assumes "len \<le> length line"
  shows "length (close_gap k len line) = length line"
    and "j < length line \<Longrightarrow> close_gap k len line ! j = (if k \<le> j \<and> j + 1 < len then line ! (j + 1) else line ! j)"
proof -
  have "length (fold (\<lambda>i l. l[i := l ! (i + 1)]) [k..<n] line) = length line \<and>
    (\<forall>j < length line. fold (\<lambda>i l. l[i := l ! (i + 1)]) [k..<n] line ! j = (if k \<le> j \<and> j < n then line ! (j + 1) else line ! j))"
    if "n < length line" for n
    using that by (induction n) (auto simp: nth_list_update)
  moreover have "len - 1 < length line \<or> len - 1 = 0" using assms by linarith
  ultimately show "length (close_gap k len line) = length line"
    and "j < length line \<Longrightarrow> close_gap k len line ! j = (if k \<le> j \<and> j + 1 < len then line ! (j + 1) else line ! j)"
    unfolding close_gap_def by auto
qed

lemma open_gap_step:
  assumes "k \<le> n"
  shows "open_gap k (Suc n) l = open_gap k n (l[Suc n := l ! n])"
proof -
  have "rev [k + 1..<Suc n + 1] = Suc n # rev [k + 1..<n + 1]" using assms by simp
  then show ?thesis by (simp only: open_gap_def fold_simps diff_Suc_1)
qed

lemma open_gap_nth:
  assumes "len < length line"
  shows "length (open_gap k len line) = length line"
    and "j < length line \<Longrightarrow> open_gap k len line ! j = (if k < j \<and> j \<le> len then line ! (j - 1) else line ! j)"
proof -
  have "length (open_gap k n l) = length l \<and>
    (j < length l \<longrightarrow> open_gap k n l ! j = (if k < j \<and> j \<le> n then l ! (j - 1) else l ! j))"
    if "n < length l" for n and l :: string
    using that
  proof (induction n arbitrary: l)
    case 0
    then show ?case by (auto simp: open_gap_def)
  next
    case (Suc n)
    let ?l = "l[Suc n := l ! n]"
    show ?case
    proof (cases "k \<le> n")
      case True
      have "n < length ?l" using Suc.prems by simp
      note ih = Suc.IH [OF this]
      show ?thesis unfolding open_gap_step [OF True] using ih True Suc.prems by (cases "j = Suc n") (auto simp: nth_list_update)
    next
      case False
      then have "open_gap k (Suc n) l = l" by (simp add: open_gap_def)
      moreover have "\<not> (k < j \<and> j \<le> Suc n)" using False by simp
      ultimately show ?thesis by auto
    qed
  qed
  from this [OF assms] show "length (open_gap k len line) = length line"
    and "j < length line \<Longrightarrow> open_gap k len line ! j = (if k < j \<and> j \<le> len then line ! (j - 1) else line ! j)"
    by blast+
qed

text \<open>The invariant and the abstraction depend only on the fields that the echo does not change.\<close>

lemma ed_vga_simps [simp]: "ed_abs (e\<lparr>ed_vga := v\<rparr>) = ed_abs e" "ed_inv (e\<lparr>ed_vga := v\<rparr>) = ed_inv e"
  by (simp_all add: ed_abs_def ed_inv_def)

lemma redraw_simps [simp]: "ed_abs (shell_redraw_line e) = ed_abs e" "ed_inv (shell_redraw_line e) = ed_inv e"
  by (simp_all add: shell_redraw_line_def Let_def)

lemma len_arith:
  assumes "(x :: u32) \<le> 127"
  shows "unat x \<le> 127" "unat (x + 1) = unat x + 1" "0 < x \<Longrightarrow> unat (x - 1) = unat x - 1" "x < 127 \<longleftrightarrow> unat x < 127"
    "x + 1 \<le> 127 \<longleftrightarrow> unat x < 127"
proof -
  show u: "unat x \<le> 127" using assms by (simp add: word_le_nat_alt)
  then show s: "unat (x + 1) = unat x + 1" by (simp add: unat_word_ariths)
  show "0 < x \<Longrightarrow> unat (x - 1) = unat x - 1" by (rule unat_minus_one) (simp add: word_gt_0)
  show "x < 127 \<longleftrightarrow> unat x < 127" by (simp add: word_less_nat_alt)
  show "x + 1 \<le> 127 \<longleftrightarrow> unat x < 127" by (simp only: word_le_nat_alt s) auto
qed

lemma ed_invD:
  assumes "ed_inv e"
  shows "length (ed_line e) = 128" "unat (ed_len e) \<le> 127" "unat (ed_cursor e) \<le> unat (ed_len e)"
    "NUL \<notin> set (take (unat (ed_len e)) (ed_line e))" "ed_line e ! unat (ed_len e) = NUL"
    "unat (ed_len e + 1) = unat (ed_len e) + 1" "unat (ed_cursor e + 1) = unat (ed_cursor e) + 1"
    "0 < ed_len e \<Longrightarrow> unat (ed_len e - 1) = unat (ed_len e) - 1" "0 < ed_cursor e \<Longrightarrow> unat (ed_cursor e - 1) = unat (ed_cursor e) - 1"
    "ed_cursor e \<le> 127"
proof -
  have le: "ed_len e \<le> 127" "ed_cursor e \<le> ed_len e" using assms by (simp_all add: ed_inv_def)
  then show c: "ed_cursor e \<le> 127" by (rule order_trans [rotated])
  show "length (ed_line e) = 128" "NUL \<notin> set (take (unat (ed_len e)) (ed_line e))" "ed_line e ! unat (ed_len e) = NUL"
    using assms by (simp_all add: ed_inv_def)
  show "unat (ed_cursor e) \<le> unat (ed_len e)" using le(2) by (simp add: word_le_nat_alt)
  note len_arith [OF le(1)] len_arith [OF c]
  then show "unat (ed_len e) \<le> 127" "unat (ed_len e + 1) = unat (ed_len e) + 1" "unat (ed_cursor e + 1) = unat (ed_cursor e) + 1"
    "0 < ed_len e \<Longrightarrow> unat (ed_len e - 1) = unat (ed_len e) - 1" "0 < ed_cursor e \<Longrightarrow> unat (ed_cursor e - 1) = unat (ed_cursor e) - 1"
    by blast+
qed

text \<open>A step that replaces the line, its length and the cursor, given by the text it leaves.\<close>

lemma ed_set_line:
  assumes inv: "ed_inv e" and len: "length line = 128" "unat n \<le> 127" "unat p \<le> unat n"
    and t: "take (unat n) line = t" "NUL \<notin> set t" "line ! unat n = NUL"
  shows "ed_inv (e\<lparr>ed_line := line, ed_len := n, ed_cursor := p\<rparr>)"
    and "ed_abs (e\<lparr>ed_line := line, ed_len := n, ed_cursor := p\<rparr>) = (ed_abs e)\<lparr>sp_text := t, sp_pos := unat p\<rparr>"
  using assms by (simp_all add: ed_inv_def ed_abs_def word_le_nat_alt)

lemma take_close_gap:
  assumes "k < len" "len \<le> length line"
  shows "take (len - 1) (close_gap k len line) = take k (take len line) @ drop (k + 1) (take len line)"
  using assms by (intro nth_equalityI) (auto simp: close_gap_nth nth_append)

lemma take_open_gap:
  assumes "k \<le> len" "len < length line"
  shows "take (len + 1) ((open_gap k len line)[k := c]) = take k (take len line) @ c # drop k (take len line)"
  using assms by (intro nth_equalityI) (auto simp: open_gap_nth nth_append nth_list_update nth_Cons')

text \<open>Replacing the text and moving the cursor, with the terminator stored after the text.\<close>

lemma ed_store_text:
  assumes inv: "ed_inv e" and n: "unat n \<le> 127" "unat p \<le> unat n" and l: "length line = 128"
    and t: "take (unat n) line = t" "NUL \<notin> set t"
  shows "ed_inv (e\<lparr>ed_line := line[unat n := NUL], ed_len := n, ed_cursor := p\<rparr>)"
    and "ed_abs (e\<lparr>ed_line := line[unat n := NUL], ed_len := n, ed_cursor := p\<rparr>) = (ed_abs e)\<lparr>sp_text := t, sp_pos := unat p\<rparr>"
  using assms by (simp_all add: ed_set_line)

lemma key_char_refines:
  assumes inv: "ed_inv e" and c: "c \<noteq> NUL"
  shows "ed_inv (key_char c e) \<and> ed_abs (key_char c e) = (let s = ed_abs e; t = sp_text s; p = sp_pos s in
      if length t < 127 then s\<lparr>sp_text := take p t @ c # drop p t, sp_pos := p + 1\<rparr> else s)"
proof -
  note d = ed_invD [OF inv]
  let ?n = "unat (ed_len e)" and ?p = "unat (ed_cursor e)" and ?t = "take (unat (ed_len e)) (ed_line e)"
  have t: "sp_text (ed_abs e) = ?t" "sp_pos (ed_abs e) = ?p" "length ?t = ?n" using d(1,2) by (simp_all add: ed_abs_def)
  have lt: "ed_len e < 127 \<longleftrightarrow> ?n < 127" by (simp add: word_less_nat_alt)
  define t' where "t' = take ?p ?t @ c # drop ?p ?t"
  have nn: "NUL \<notin> set t'"
    using set_take_subset [of ?p ?t] set_drop_subset [of ?p ?t] d(4) c unfolding t'_def set_append list.set by blast
  have "ed_inv (key_char c e) \<and> ed_abs (key_char c e) = (if ?n < 127 then (ed_abs e)\<lparr>sp_text := t', sp_pos := ?p + 1\<rparr> else ed_abs e)"
  proof (cases "?n < 127")
    case False
    then have "key_char c e = e" using lt by (simp add: key_char_def)
    then show ?thesis using inv False by simp
  next
    case True
    note st = ed_store_text [OF inv, of "ed_len e + 1" "ed_cursor e + 1", unfolded d(6,7)]
    show ?thesis
    proof (cases "ed_cursor e = ed_len e")
      case eq: True
      have "take (?n + 1) ((ed_line e)[?n := c]) = t'"
        using d(1) True by (simp add: t'_def eq take_Suc_conv_app_nth)
      note st' = st [OF _ _ _ this nn]
      have "key_char c e = e\<lparr>ed_line := (ed_line e)[?n := c, ?n + 1 := NUL], ed_len := ed_len e + 1, ed_cursor := ed_cursor e + 1\<rparr>
          \<lparr>ed_vga := vga_putc c (ed_vga e)\<rparr>"
        using True lt eq d(6) by (simp add: key_char_def Let_def)
      then show ?thesis using st' True d(1) eq by (simp only: ed_vga_simps) simp
    next
      case ne: False
      let ?line = "(open_gap ?p ?n (ed_line e))[?p := c]"
      have "take (?n + 1) ?line = t'" unfolding t'_def using d(1,3) True by (intro take_open_gap) simp_all
      note st' = st [OF _ _ _ this nn]
      have "key_char c e = shell_redraw_line
          (e\<lparr>ed_line := ?line[?n + 1 := NUL], ed_len := ed_len e + 1, ed_cursor := ed_cursor e + 1\<rparr>)"
        using True lt ne d(6) by (simp add: key_char_def Let_def)
      then show ?thesis using st' True d(1,3) open_gap_nth(1) [of ?n "ed_line e" ?p] by (simp only: redraw_simps) simp
    qed
  qed
  then show ?thesis by (simp only: t t'_def Let_def)
qed

lemma ed_gap_text:
  assumes inv: "ed_inv e" and k: "k < unat (ed_len e)" "unat p \<le> unat (ed_len e) - 1"
  defines "t \<equiv> take (unat (ed_len e)) (ed_line e)"
  shows "ed_inv (e\<lparr>ed_line := (close_gap k (unat (ed_len e)) (ed_line e))[unat (ed_len e - 1) := NUL], ed_len := ed_len e - 1, ed_cursor := p\<rparr>)"
    and "ed_abs (e\<lparr>ed_line := (close_gap k (unat (ed_len e)) (ed_line e))[unat (ed_len e - 1) := NUL], ed_len := ed_len e - 1, ed_cursor := p\<rparr>) =
      (ed_abs e)\<lparr>sp_text := take k t @ drop (k + 1) t, sp_pos := unat p\<rparr>"
proof -
  note d = ed_invD [OF inv]
  have "0 < ed_len e" using k(1) by (simp add: word_gt_0 unat_gt_0 [symmetric])
  note n = d(8) [OF this]
  have "take (unat (ed_len e - 1)) (close_gap k (unat (ed_len e)) (ed_line e)) = take k t @ drop (k + 1) t"
    unfolding n t_def using k(1) d(1,2) by (intro take_close_gap) simp_all
  moreover have "NUL \<notin> set (take k t @ drop (k + 1) t)"
    using set_take_subset [of k t] set_drop_subset [of "k + 1" t] d(4) unfolding set_append t_def by blast
  moreover have "length (close_gap k (unat (ed_len e)) (ed_line e)) = 128" using d(1,2) by (simp add: close_gap_nth)
  moreover have "unat (ed_len e - 1) \<le> 127" "unat p \<le> unat (ed_len e - 1)" using n d(2) k(2) by simp_all
  ultimately show "ed_inv (e\<lparr>ed_line := (close_gap k (unat (ed_len e)) (ed_line e))[unat (ed_len e - 1) := NUL], ed_len := ed_len e - 1, ed_cursor := p\<rparr>)"
    and "ed_abs (e\<lparr>ed_line := (close_gap k (unat (ed_len e)) (ed_line e))[unat (ed_len e - 1) := NUL], ed_len := ed_len e - 1, ed_cursor := p\<rparr>) =
      (ed_abs e)\<lparr>sp_text := take k t @ drop (k + 1) t, sp_pos := unat p\<rparr>"
    using ed_store_text [OF inv, of "ed_len e - 1" p "close_gap k (unat (ed_len e)) (ed_line e)" "take k t @ drop (k + 1) t"]
    by blast+
qed

lemma ed_abs_parts:
  "sp_text (ed_abs e) = take (unat (ed_len e)) (ed_line e)" "sp_pos (ed_abs e) = unat (ed_cursor e)"
  by (simp_all add: ed_abs_def)

lemma key_delete_refines:
  assumes inv: "ed_inv e"
  shows "ed_inv (key_delete e) \<and> ed_abs (key_delete e) = (let s = ed_abs e; t = sp_text s; p = sp_pos s in
      s\<lparr>sp_text := take p t @ drop (p + 1) t\<rparr>)"
proof -
  note d = ed_invD [OF inv]
  let ?t = "take (unat (ed_len e)) (ed_line e)" and ?p = "unat (ed_cursor e)"
  show ?thesis
  proof (cases "ed_cursor e < ed_len e")
    case True
    then have lt: "?p < unat (ed_len e)" by (simp add: word_less_nat_alt)
    note g = ed_gap_text [OF inv lt, of "ed_cursor e"]
    have k: "key_delete e = shell_redraw_line (e\<lparr>ed_line := (close_gap ?p (unat (ed_len e)) (ed_line e))[unat (ed_len e - 1) := NUL],
        ed_len := ed_len e - 1, ed_cursor := ed_cursor e\<rparr>)" using True by (simp add: key_delete_def Let_def)
    have "?p \<le> unat (ed_len e) - 1" using lt by simp
    note g = ed_gap_text [OF inv lt this]
    have "(ed_abs e)\<lparr>sp_text := x, sp_pos := ?p\<rparr> = (ed_abs e)\<lparr>sp_text := x\<rparr>" for x by (simp add: ed_abs_def)
    then show ?thesis unfolding k redraw_simps Let_def ed_abs_parts using g by simp
  next
    case False
    then have p: "?p = unat (ed_len e)" using d(3) by (simp add: word_less_nat_alt)
    have "key_delete e = e" using False by (simp add: key_delete_def)
    moreover have "take ?p ?t @ drop (?p + 1) ?t = ?t" by (simp add: p)
    moreover have "(ed_abs e)\<lparr>sp_text := ?t\<rparr> = ed_abs e" by (simp add: ed_abs_def)
    ultimately show ?thesis using inv by (simp only: Let_def ed_abs_parts)
  qed
qed

lemma key_backspace_refines:
  assumes inv: "ed_inv e"
  shows "ed_inv (key_backspace e) \<and> ed_abs (key_backspace e) = (let s = ed_abs e; t = sp_text s; p = sp_pos s in
      if p = 0 then s else s\<lparr>sp_text := take (p - 1) t @ drop p t, sp_pos := p - 1\<rparr>)"
proof -
  note d = ed_invD [OF inv]
  let ?t = "take (unat (ed_len e)) (ed_line e)" and ?p = "unat (ed_cursor e)" and ?n = "unat (ed_len e)"
  show ?thesis
  proof (cases "ed_cursor e > 0")
    case False
    then have "ed_cursor e = 0" by (simp add: word_gt_0)
    then show ?thesis using inv by (simp add: key_backspace_def ed_abs_parts Let_def)
  next
    case True
    then have p0: "0 < ?p" by (simp add: word_gt_0 unat_gt_0)
    then have lt: "?p - 1 < ?n" "unat (ed_cursor e - 1) \<le> ?n - 1" "?p - 1 + 1 = ?p" "?p \<noteq> 0" using d(3,9) True by simp_all
    note g = ed_gap_text [OF inv lt(1,2), unfolded lt(3) d(9) [OF True]]
    show ?thesis
    proof (cases "ed_cursor e = ed_len e")
      case eq: True
      have "close_gap (?p - 1) ?n (ed_line e) = ed_line e" unfolding eq by (simp add: close_gap_def)
      then have "key_backspace e = e\<lparr>ed_line := (close_gap (?p - 1) ?n (ed_line e))[unat (ed_len e - 1) := NUL],
          ed_len := ed_len e - 1, ed_cursor := ed_cursor e - 1\<rparr>\<lparr>ed_vga := vga_backspace (ed_vga e)\<rparr>"
        using True eq by (simp add: key_backspace_def Let_def)
      then show ?thesis using g lt(4) by (simp only: ed_vga_simps Let_def ed_abs_parts) simp
    next
      case ne: False
      have "key_backspace e = shell_redraw_line (e\<lparr>ed_line := (close_gap (?p - 1) ?n (ed_line e))[unat (ed_len e - 1) := NUL],
          ed_len := ed_len e - 1, ed_cursor := ed_cursor e - 1\<rparr>)"
        using True ne d(9) by (simp add: key_backspace_def Let_def)
      then show ?thesis using g lt(4) by (simp only: redraw_simps Let_def ed_abs_parts) simp
    qed
  qed
qed

lemma replace_loop_eq:
  assumes "unat n \<le> 127" "length line = 128" "replace_loop t line n v = (line', n', v')"
  shows "unat n' \<le> 127 \<and> length line' = 128 \<and> line' ! unat n' = NUL \<and> take (unat n') line' = take (unat n) line @ take (127 - unat n) (cstr t)"
  using assms
proof (induction t arbitrary: line n v)
  case Nil
  then show ?case by auto
next
  case (Cons c t)
  have lt: "n < 127 \<longleftrightarrow> unat n < 127" by (simp add: word_less_nat_alt)
  show ?case
  proof (cases "c \<noteq> NUL \<and> unat n < 127")
    case True
    have n1: "unat (n + 1) = unat n + 1" using True by (simp add: unat_word_ariths)
    have r: "replace_loop t (line[unat n := c]) (n + 1) (vga_putc c v) = (line', n', v')" using Cons.prems(3) True lt by simp
    have "unat (n + 1) \<le> 127" "length (line[unat n := c]) = 128" using n1 True Cons.prems(2) by simp_all
    note ih = Cons.IH [OF this r, unfolded n1]
    have "127 - unat n = Suc (127 - (unat n + 1))" using conjunct2 [OF True] by linarith
    then have "take (127 - unat n) (cstr (c # t)) = c # take (127 - (unat n + 1)) (cstr t)" using True by (simp add: cstr_Cons)
    moreover have "take (unat n + 1) (line[unat n := c]) = take (unat n) line @ [c]"
      using True Cons.prems(2) by (simp add: take_Suc_conv_app_nth)
    ultimately show ?thesis using ih by simp
  next
    case False
    then have "take (127 - unat n) (cstr (c # t)) = []" using Cons.prems(1) by (auto simp: cstr_Cons)
    moreover have "line' = line[unat n := NUL]" "n' = n" using Cons.prems(3) False lt by (auto split: if_splits)
    ultimately show ?thesis using Cons.prems(1,2) by simp
  qed
qed

text \<open>The two keys that recall a line end in the same step.\<close>

definition recall :: "string \<Rightarrow> int \<Rightarrow> editor \<Rightarrow> editor" where
  "recall t h e = (let e1 = shell_replace_line t (shell_move_cursor_to_end (e\<lparr>ed_hcursor := h\<rparr>)) in e1\<lparr>ed_cursor := ed_len e1\<rparr>)"

lemma recall_refines:
  assumes inv: "ed_inv e" and h: "- 1 \<le> h" "h < uint (ed_count e)" and t: "length (cstr t) \<le> 127"
  shows "ed_inv (recall t h e) \<and> ed_abs (recall t h e) =
    (ed_abs e)\<lparr>sp_text := cstr t, sp_pos := length (cstr t), sp_sel := (if h < 0 then None else Some (nat h))\<rparr>"
proof -
  note d = ed_invD [OF inv]
  define v where "v = (vga_backspace ^^ unat (ed_len e))
    (fold (\<lambda>i. vga_putc (ed_line e ! i)) [unat (ed_cursor e)..<unat (ed_len e)] (ed_vga e))"
  obtain line n v' where r: "replace_loop t (ed_line e) 0 v = (line, n, v')" by (cases "replace_loop t (ed_line e) 0 v") auto
  have l: "unat n \<le> 127" "length line = 128" "line ! unat n = NUL" "take (unat n) line = cstr t"
    using replace_loop_eq [OF _ d(1) r] t by simp_all
  have "length (take (unat n) line) = unat n" using l(1,2) by simp
  then have n: "unat n = length (cstr t)" unfolding l(4) by simp
  have e: "recall t h e = (e\<lparr>ed_hcursor := h\<rparr>)\<lparr>ed_line := line, ed_len := n, ed_cursor := n\<rparr>\<lparr>ed_vga := v'\<rparr>"
    using r by (simp add: recall_def shell_replace_line_def shell_move_cursor_to_end_def Let_def v_def)
  have "ed_inv (e\<lparr>ed_hcursor := h\<rparr>)" using inv h by (simp add: ed_inv_def)
  from ed_set_line [OF this l(2,1) order_refl l(4) cstr_no_NUL l(3)] show ?thesis
    unfolding e ed_vga_simps by (simp add: n ed_abs_def)
qed

definition row_ok :: "string \<Rightarrow> bool" where
  "row_ok r \<longleftrightarrow> length r = 128 \<and> NUL \<in> set r"

lemma row_ok_cstr: "row_ok r \<Longrightarrow> length (cstr r) \<le> 127"
proof -
  assume r: "row_ok r"
  have "cstr r \<noteq> r" using r cstr_no_NUL [of r] by (auto simp: row_ok_def)
  then have "length (cstr r) \<noteq> length r" unfolding cstr_def by (metis takeWhile_eq_take take_all order_refl)
  moreover have "length (cstr r) \<le> length r" by (simp add: cstr_def length_takeWhile_le)
  ultimately show ?thesis using r by (simp add: row_ok_def)
qed

lemma history_row:
  assumes inv: "ed_inv e" and i: "i < unat (ed_count e)"
  shows "length (cstr (ed_history e ! i)) \<le> 127" "sp_hist (ed_abs e) ! i = cstr (ed_history e ! i)"
proof -
  have c: "unat (ed_count e) \<le> 8" using inv by (simp add: ed_inv_def word_le_nat_alt)
  then have "row_ok (ed_history e ! i)" using inv i by (auto simp: ed_inv_def row_ok_def)
  then show "length (cstr (ed_history e ! i)) \<le> 127" by (rule row_ok_cstr)
  show "sp_hist (ed_abs e) ! i = cstr (ed_history e ! i)" using inv i c by (simp add: ed_abs_def ed_inv_def)
qed

lemma sp_hist_length: "ed_inv e \<Longrightarrow> length (sp_hist (ed_abs e)) = unat (ed_count e)"
  by (simp add: ed_abs_def ed_inv_def word_le_nat_alt)

lemma key_up_refines:
  assumes inv: "ed_inv e"
  shows "ed_inv (key_up e) \<and> ed_abs (key_up e) = sp_key KEY_SPECIAL_UP (ed_abs e)"
proof -
  note hl = sp_hist_length [OF inv]
  let ?c = "unat (ed_count e)"
  show ?thesis
  proof (cases "ed_count e = 0")
    case True
    then show ?thesis using inv hl by (simp add: key_up_def sp_key_def)
  next
    case False
    then have c: "0 < ?c" "uint (ed_count e) = int ?c" by (simp_all add: unat_gt_0)
    define h where "h = (if ed_hcursor e < 0 then uint (ed_count e) - 1 else if ed_hcursor e > 0 then ed_hcursor e - 1 else ed_hcursor e)"
    have "0 < uint (ed_count e)" unfolding c(2) using c(1) by (simp only: of_nat_0_less_iff)
    then have hb: "0 \<le> h" "h < int ?c" using inv unfolding c(2) [symmetric] by (auto simp: h_def ed_inv_def)
    then have n: "nat h < ?c" by linarith
    have sel: "nat h = (case sp_sel (ed_abs e) of None \<Rightarrow> length (sp_hist (ed_abs e)) - 1 | Some k \<Rightarrow> k - 1)"
    proof -
      have "nat (int ?c - 1) = ?c - 1" using c(1) by linarith
      then show ?thesis unfolding hl h_def c(2) using c(1) by (simp only: ed_abs_def ed_spec.simps) auto
    qed
    have k: "key_up e = recall (ed_history e ! nat h) h e"
      using False by (simp only: key_up_def recall_def h_def [symmetric] Let_def if_False)
    have hu: "h < uint (ed_count e)" "- 1 \<le> h" "\<not> h < 0" using hb c(2) by linarith+
    have "ed_inv (key_up e) \<and> ed_abs (key_up e) = sp_select (Some (nat h)) (ed_abs e)"
      using recall_refines [OF inv hu(2,1) history_row(1) [OF inv n]] history_row(2) [OF inv n] hu(3)
      by (simp only: k sp_select_def Let_def option.case if_False)
    moreover have "sp_hist (ed_abs e) \<noteq> []" using hl c(1) by auto
    ultimately show ?thesis by (simp only: sp_key_def Let_def sel if_False if_True simp_thms)
  qed
qed

lemma sp_key_down:
  "sp_key KEY_SPECIAL_DOWN s = (case sp_sel s of None \<Rightarrow> s
     | Some k \<Rightarrow> sp_select (if k + 1 < length (sp_hist s) then Some (k + 1) else None) s)"
  by (simp add: sp_key_def Let_def key_specials split: option.split)

lemma key_down_refines:
  assumes inv: "ed_inv e"
  shows "ed_inv (key_down e) \<and> ed_abs (key_down e) = sp_key KEY_SPECIAL_DOWN (ed_abs e)"
proof -
  note hl = sp_hist_length [OF inv]
  let ?c = "unat (ed_count e)" and ?h = "ed_hcursor e"
  have cc: "uint (ed_count e) = int ?c" by simp
  show ?thesis
  proof (cases "?h < 0")
    case True
    then have "sp_sel (ed_abs e) = None" by (simp add: ed_abs_def)
    then show ?thesis using True inv by (simp add: key_down_def sp_key_down)
  next
    case False
    have "?h < uint (ed_count e)" using inv by (simp add: ed_inv_def)
    then have hc: "0 \<le> ?h" "?h < int ?c" using False cc by linarith+
    then have "0 < ?c" by linarith
    then have c0: "\<not> (ed_count e = 0 \<or> ?h < 0)" using unat_gt_0 [of "ed_count e"] False by blast
    have sel: "sp_sel (ed_abs e) = Some (nat ?h)" using False by (simp add: ed_abs_def)
    show ?thesis
    proof (cases "?h + 1 \<ge> uint (ed_count e)")
      case True
      then have k: "key_down e = recall [] (- 1) e" using c0 by (simp only: key_down_def recall_def Let_def if_True if_False)
      have "\<not> nat ?h + 1 < ?c" using True hc cc by linarith
      then have "sp_key KEY_SPECIAL_DOWN (ed_abs e) = sp_select None (ed_abs e)" by (simp add: sp_key_down sel hl)
      moreover have "- 1 < uint (ed_count e)" using hc cc by linarith
      ultimately show ?thesis using recall_refines [OF inv, of "- 1" "[]"] unfolding k by (simp add: sp_select_def)
    next
      case lt: False
      then have n: "nat (?h + 1) < ?c" "nat ?h + 1 = nat (?h + 1)" "- 1 \<le> ?h + 1" "?h + 1 < uint (ed_count e)" "\<not> ?h + 1 < 0"
        using hc cc by linarith+
      have k: "key_down e = recall (ed_history e ! nat (?h + 1)) (?h + 1) e"
        using c0 lt by (simp only: key_down_def recall_def Let_def if_False)
      have "sp_key KEY_SPECIAL_DOWN (ed_abs e) = sp_select (Some (nat (?h + 1))) (ed_abs e)"
        using n(1) by (simp only: sp_key_down sel hl option.case n(2) if_True)
      then show ?thesis using recall_refines [OF inv n(3,4) history_row(1) [OF inv n(1)]] history_row(2) [OF inv n(1)] n(5)
        by (simp only: k sp_select_def Let_def option.case if_False)
    qed
  qed
qed

lemma key_move_refines:
  assumes inv: "ed_inv e"
  shows "ed_inv (key_left e) \<and> ed_abs (key_left e) = (ed_abs e)\<lparr>sp_pos := sp_pos (ed_abs e) - 1\<rparr>"
    and "ed_inv (key_right e) \<and> ed_abs (key_right e) = (ed_abs e)\<lparr>sp_pos := min (sp_pos (ed_abs e) + 1) (length (sp_text (ed_abs e)))\<rparr>"
proof -
  note d = ed_invD [OF inv]
  have *: "ed_inv (e\<lparr>ed_cursor := p, ed_vga := v\<rparr>) \<and> ed_abs (e\<lparr>ed_cursor := p, ed_vga := v\<rparr>) = (ed_abs e)\<lparr>sp_pos := unat p\<rparr>"
    if "unat p \<le> unat (ed_len e)" for p v
    using ed_set_line [OF inv d(1,2) that refl d(4,5)] by (simp add: ed_abs_def ed_inv_def)
  have id: "(ed_abs e)\<lparr>sp_pos := sp_pos (ed_abs e)\<rparr> = ed_abs e" by simp
  show "ed_inv (key_left e) \<and> ed_abs (key_left e) = (ed_abs e)\<lparr>sp_pos := sp_pos (ed_abs e) - 1\<rparr>"
  proof (cases "0 < ed_cursor e")
    case True
    then show ?thesis using * [of "ed_cursor e - 1" "vga_backspace (ed_vga e)"] d(3,9) by (simp add: key_left_def ed_abs_parts)
  next
    case False
    then have "ed_cursor e = 0" by (simp add: word_gt_0)
    then show ?thesis using inv by (simp add: key_left_def ed_abs_def)
  qed
  have l: "length (sp_text (ed_abs e)) = unat (ed_len e)" using d(1,2) by (simp add: ed_abs_def)
  show "ed_inv (key_right e) \<and> ed_abs (key_right e) = (ed_abs e)\<lparr>sp_pos := min (sp_pos (ed_abs e) + 1) (length (sp_text (ed_abs e)))\<rparr>"
  proof (cases "ed_cursor e < ed_len e")
    case True
    then have "unat (ed_cursor e) < unat (ed_len e)" by (simp add: word_less_nat_alt)
    moreover have "key_right e = e\<lparr>ed_cursor := ed_cursor e + 1, ed_vga := vga_putc (ed_line e ! unat (ed_cursor e)) (ed_vga e)\<rparr>"
      using True by (simp add: key_right_def)
    ultimately show ?thesis using * [of "ed_cursor e + 1" "vga_putc (ed_line e ! unat (ed_cursor e)) (ed_vga e)"] d(7)
      unfolding l by (simp add: ed_abs_parts)
  next
    case False
    then have "unat (ed_cursor e) = unat (ed_len e)" using d(3) by (simp add: word_less_nat_alt)
    then show ?thesis using False inv unfolding l by (simp add: key_right_def ed_abs_def)
  qed
qed

lemma ed_line_cstr:
  assumes "ed_inv e"
  shows "cstr (ed_line e) = sp_text (ed_abs e)"
proof -
  note d = ed_invD [OF assms]
  have "ed_line e = take (unat (ed_len e)) (ed_line e) @ NUL # drop (unat (ed_len e) + 1) (ed_line e)"
    using d(1,2,5) by (simp add: id_take_nth_drop [symmetric] flip: d(5))
  then show ?thesis using cstr_append_NUL [OF d(4)] by (metis ed_abs_parts(1))
qed

lemma shell_key_refines:
  assumes inv: "ed_inv e" and c: "c \<noteq> NUL"
  shows "fst (shell_key c e) \<longleftrightarrow> c = CHR 0x0A" "ed_inv (snd (shell_key c e))"
    "ed_abs (snd (shell_key c e)) = sp_key c (ed_abs e)"
proof -
  show "fst (shell_key c e) \<longleftrightarrow> c = CHR 0x0A" by (simp add: shell_key_def key_specials)
  have nl: "(ed_line e)[unat (ed_len e) := NUL] = ed_line e" using ed_invD(5) [OF inv] by (metis list_update_id)
  note k = key_up_refines [OF inv] key_down_refines [OF inv] key_move_refines [OF inv] key_delete_refines [OF inv]
    key_backspace_refines [OF inv] key_char_refines [OF inv c]
  have "ed_inv (snd (shell_key c e)) \<and> ed_abs (snd (shell_key c e)) = sp_key c (ed_abs e)"
  proof (cases "c = KEY_SPECIAL_UP \<or> c = KEY_SPECIAL_DOWN")
    case True
    then show ?thesis using k(1,2) by (auto simp: shell_key_def)
  next
    case False
    then show ?thesis using k(3-7) inv unfolding shell_key_def sp_key_def Let_def nl by simp
  qed
  then show "ed_inv (snd (shell_key c e))" "ed_abs (snd (shell_key c e)) = sp_key c (ed_abs e)" by simp_all
qed

lemma read_line_refines:
  assumes "ed_inv e" "NUL \<notin> set cs" "CHR 0x0A \<notin> set cs"
  shows "\<exists>e'. shell_read_line (cs @ CHR 0x0A # rest) e = Some (rest, e') \<and> ed_inv e' \<and> ed_abs e' = fold sp_key cs (ed_abs e)"
  using assms
proof (induction cs arbitrary: e)
  case Nil
  obtain b e' where k: "shell_key CHR 0x0A e = (b, e')" by (cases "shell_key CHR 0x0A e")
  then show ?case using shell_key_refines [OF Nil.prems(1), of "CHR 0x0A"] by (simp add: sp_key_def Let_def key_specials)
next
  case (Cons c cs)
  obtain b e' where k: "shell_key c e = (b, e')" by (cases "shell_key c e")
  have "c \<noteq> NUL" "c \<noteq> CHR 0x0A" using Cons.prems by auto
  then have "\<not> b" "ed_inv e'" "ed_abs e' = sp_key c (ed_abs e)" using shell_key_refines [OF Cons.prems(1), of c] k by auto
  then show ?case using Cons.IH [of e'] Cons.prems k by simp
qed

section \<open>History\<close>

lemma copy_row_eq:
  "col \<le> length (cstr src) \<Longrightarrow> length (cstr src) < n \<Longrightarrow> copy_row_loop dst src col = fst (str_copy_loop dst src n col)"
proof (induction "length (cstr src) - col" arbitrary: col dst)
  case 0
  then have "c_at src col = NUL" by (simp add: c_at_NUL_iff)
  then show ?case by (simp add: copy_row_loop.simps [of dst] str_copy_loop.simps [of dst] Let_def)
next
  case (Suc k)
  then have "c_at src col \<noteq> NUL" "col + 1 < n" by (auto simp: c_at_NUL_iff)
  then show ?case using Suc by (simp add: copy_row_loop.simps [of dst] str_copy_loop.simps [of dst] Let_def)
qed

lemma store_row:
  assumes "length dst = 128" "length (cstr src) \<le> 127"
  shows "row_ok (fst (str_copy_loop dst src 128 0))" "cstr (fst (str_copy_loop dst src 128 0)) = cstr src"
proof -
  show "cstr (fst (str_copy_loop dst src 128 0)) = cstr src" using cstr_str_copy(1) [of 128 dst src] assms by simp
  show "row_ok (fst (str_copy_loop dst src 128 0))"
    using assms by (simp add: row_ok_def str_copy_loop_0 Let_def)
qed

definition shift_rows :: "nat \<Rightarrow> string list \<Rightarrow> string list" where
  "shift_rows k h = fold (\<lambda>row h. h[row - 1 := copy_row_loop (h ! (row - 1)) (h ! row) 0]) [1..<k] h"

lemma shift_rows_nth:
  assumes h: "length h = 8" "\<forall>r \<in> set h. row_ok r" and k: "k < 8"
  shows "length (shift_rows (Suc k) h) = 8 \<and> (\<forall>j < k. row_ok (shift_rows (Suc k) h ! j) \<and> cstr (shift_rows (Suc k) h ! j) = cstr (h ! (j + 1))) \<and>
    (\<forall>j. k \<le> j \<and> j < 8 \<longrightarrow> shift_rows (Suc k) h ! j = h ! j)"
  using k
proof (induction k)
  case 0
  then show ?case using h by (simp add: shift_rows_def)
next
  case (Suc k)
  let ?h = "shift_rows (Suc k) h"
  have ih: "length ?h = 8" "\<And>j. j < k \<Longrightarrow> row_ok (?h ! j) \<and> cstr (?h ! j) = cstr (h ! (j + 1))" "\<And>j. k \<le> j \<Longrightarrow> j < 8 \<Longrightarrow> ?h ! j = h ! j"
    using Suc by auto
  have st: "shift_rows (Suc (Suc k)) h = ?h[k := copy_row_loop (?h ! k) (?h ! Suc k) 0]" by (simp add: shift_rows_def)
  have r: "row_ok (h ! k)" "row_ok (h ! Suc k)" using h Suc.prems by simp_all
  have "copy_row_loop (?h ! k) (?h ! Suc k) 0 = fst (str_copy_loop (h ! k) (h ! Suc k) 128 0)"
    using ih(3) [of k] ih(3) [of "Suc k"] Suc.prems copy_row_eq [of 0 "h ! Suc k" 128 "h ! k"] row_ok_cstr [OF r(2)] by simp
  moreover have "length (h ! k) = 128" using r(1) by (simp add: row_ok_def)
  ultimately have new: "row_ok (copy_row_loop (?h ! k) (?h ! Suc k) 0)" "cstr (copy_row_loop (?h ! k) (?h ! Suc k) 0) = cstr (h ! Suc k)"
    using store_row [of "h ! k" "h ! Suc k"] row_ok_cstr [OF r(2)] by simp_all
  have "k < length ?h" using ih(1) Suc.prems by simp
  then show ?case unfolding st using ih new by (auto simp: nth_list_update less_Suc_eq)
qed

definition hist_inv :: "string list \<Rightarrow> u32 \<Rightarrow> bool" where
  "hist_inv h n \<longleftrightarrow> length h = 8 \<and> (\<forall>r \<in> set h. length r = 128) \<and> (\<forall>i < unat n. NUL \<in> set (h ! i)) \<and> n \<le> 8"

definition hist_abs :: "string list \<Rightarrow> u32 \<Rightarrow> string list" where
  "hist_abs h n = map cstr (take (unat n) h)"

lemma hist_inv_le: "hist_inv h n \<Longrightarrow> unat n \<le> 8" "hist_inv h n \<Longrightarrow> length (hist_abs h n) = unat n"
  by (simp_all add: hist_inv_def hist_abs_def word_le_nat_alt)

lemma hist_append:
  assumes inv: "hist_inv h n" and lt: "unat n < 8" and r: "row_ok r"
  shows "hist_inv (h[unat n := r]) (n + 1)" "hist_abs (h[unat n := r]) (n + 1) = hist_abs h n @ [cstr r]"
proof -
  have h: "length h = 8" "\<forall>r \<in> set h. length r = 128" "\<forall>i < unat n. NUL \<in> set (h ! i)" using inv by (simp_all add: hist_inv_def)
  have n1: "unat (n + 1) = unat n + 1" using lt by (simp add: unat_word_ariths)
  have "n + 1 \<le> 8" unfolding word_le_nat_alt n1 using lt by simp
  moreover have "\<forall>x \<in> set (h[unat n := r]). length x = 128"
    using h(2) r set_update_subset_insert [of h "unat n" r] by (auto simp: row_ok_def)
  moreover have "\<forall>i < unat n + 1. NUL \<in> set (h[unat n := r] ! i)"
    using h(1,3) r lt by (auto simp: nth_list_update row_ok_def less_Suc_eq)
  ultimately show "hist_inv (h[unat n := r]) (n + 1)" unfolding hist_inv_def n1 using h(1) by simp
  show "hist_abs (h[unat n := r]) (n + 1) = hist_abs h n @ [cstr r]"
    unfolding hist_abs_def n1 using h(1) lt by (simp add: take_Suc_conv_app_nth)
qed

lemma hist_full_rows: "hist_inv h 8 \<Longrightarrow> \<forall>r \<in> set h. row_ok r"
  unfolding hist_inv_def row_ok_def all_set_conv_all_nth by simp

lemma hist_shift:
  assumes inv: "hist_inv h 8" and r: "row_ok r"
  shows "hist_inv ((shift_rows 8 h)[7 := r]) 8" "hist_abs ((shift_rows 8 h)[7 := r]) 8 = tl (hist_abs h 8) @ [cstr r]"
proof -
  have "\<forall>r \<in> set h. row_ok r" using inv by (rule hist_full_rows)
  moreover have "length h = 8" using inv by (simp add: hist_inv_def)
  ultimately have h: "length h = 8" "\<forall>r \<in> set h. row_ok r" by blast+
  let ?g = "shift_rows 8 h"
  have "Suc 7 = (8 :: nat)" by simp
  note sh = shift_rows_nth [OF h, of 7, unfolded this]
  have g: "length ?g = 8" "\<And>j. j < 7 \<Longrightarrow> row_ok (?g ! j) \<and> cstr (?g ! j) = cstr (h ! (j + 1))" using sh by auto
  have nth: "row_ok (?g[7 := r] ! j)" "cstr (?g[7 := r] ! j) = (tl (map cstr h) @ [cstr r]) ! j" if "j < 8" for j
    using that g r h(1) by (cases "j = 7"; simp add: nth_append nth_tl)+
  show "hist_inv (?g[7 := r]) 8"
    unfolding hist_inv_def all_set_conv_all_nth using nth(1) g(1) by (simp add: row_ok_def)
  show "hist_abs (?g[7 := r]) 8 = tl (hist_abs h 8) @ [cstr r]"
    unfolding hist_abs_def using nth(2) g(1) h(1) by (intro nth_equalityI) simp_all
qed

lemma hist_last:
  assumes inv: "hist_inv h n" and n: "0 < n"
  shows "last (hist_abs h n) = cstr (h ! unat (n - 1))" "hist_abs h n \<noteq> []"
proof -
  note l = hist_inv_le [OF inv]
  have u: "unat (n - 1) = unat n - 1" "0 < unat n" using n by (simp_all add: unat_minus_one word_gt_0 unat_gt_0)
  then show ne: "hist_abs h n \<noteq> []" using l(2) by auto
  show "last (hist_abs h n) = cstr (h ! unat (n - 1))"
    unfolding last_conv_nth [OF ne] l(2) u(1) using u(2) l(1) inv by (simp add: hist_abs_def hist_inv_def)
qed

lemma store_history_refines:
  assumes inv: "hist_inv h n" and l: "length (cstr line) \<le> 127" and st: "shell_store_history h n line = (h', n')"
  shows "hist_inv h' n'" "hist_abs h' n' = sp_store (cstr line) (hist_abs h n)"
proof -
  let ?hs = "hist_abs h n"
  have skip: "c_at line 0 = NUL \<or> (n > 0 \<and> streq (h ! unat (n - 1)) line) \<longleftrightarrow> cstr line = [] \<or> (?hs \<noteq> [] \<and> last ?hs = cstr line)"
  proof (cases "n > 0")
    case True
    then show ?thesis using hist_last [OF inv True] by (simp add: empty_cstr streq_cstr)
  next
    case False
    then have "?hs = []" using hist_inv_le(2) [OF inv] by (simp add: word_gt_0)
    then show ?thesis using False by (simp add: empty_cstr)
  qed
  have len: "length (h ! j) = 128" if "j < 8" for j using that inv by (simp add: hist_inv_def)
  have "hist_inv h' n' \<and> hist_abs h' n' = sp_store (cstr line) ?hs"
  proof (cases "c_at line 0 = NUL \<or> (n > 0 \<and> streq (h ! unat (n - 1)) line)")
    case True
    then have "h' = h" "n' = n" using st by (auto simp: shell_store_history_def split: if_splits)
    moreover have "sp_store (cstr line) ?hs = ?hs" using True unfolding skip by (simp add: sp_store_def)
    ultimately show ?thesis using inv by simp
  next
    case False
    then have sp: "sp_store (cstr line) ?hs = drop (length ?hs + 1 - 8) (?hs @ [cstr line])" unfolding skip sp_store_def by (simp only: if_False)
    show ?thesis
    proof (cases "n < 8")
      case True
      then have lt: "unat n < 8" by (simp add: word_less_nat_alt)
      have e: "h' = h[unat n := fst (str_copy_loop (h ! unat n) line 128 0)]" "n' = n + 1"
        using st False True by (auto simp: shell_store_history_def Let_def)
      show ?thesis unfolding e sp using hist_append [OF inv lt store_row(1) [OF len [OF lt] l]] store_row(2) [OF len [OF lt] l]
          hist_inv_le(2) [OF inv] lt by simp
    next
      case full: False
      then have n8: "n = 8" using inv by (simp add: hist_inv_def)
      have i8: "hist_inv h 8" using inv n8 by simp
      have g: "length (shift_rows 8 h ! 7) = 128"
        using shift_rows_nth [OF _ hist_full_rows [OF i8], of 7] i8 len [of 7] by (simp add: hist_inv_def)
      have e: "h' = (shift_rows 8 h)[7 := fst (str_copy_loop (shift_rows 8 h ! 7) line 128 0)]" "n' = 8"
        using st False full n8 by (auto simp: shell_store_history_def Let_def shift_rows_def)
      show ?thesis unfolding e sp unfolding n8 using hist_shift [OF i8 store_row(1) [OF g l]] store_row(2) [OF g l] hist_inv_le(2) [OF i8]
        by (simp add: drop_Suc)
    qed
  qed
  then show "hist_inv h' n'" "hist_abs h' n' = sp_store (cstr line) ?hs" by simp_all
qed

lemma ed_inv_hist: "ed_inv e \<Longrightarrow> hist_inv (ed_history e) (ed_count e)" "sp_hist (ed_abs e) = hist_abs (ed_history e) (ed_count e)"
  by (simp_all add: ed_inv_def hist_inv_def ed_abs_def hist_abs_def)

lemma prompt_refines:
  assumes "ed_inv e"
  shows "ed_inv (shell_prompt e)" "ed_abs (shell_prompt e) = \<lparr>sp_text = [], sp_pos = 0, sp_hist = sp_hist (ed_abs e), sp_sel = None\<rparr>"
proof -
  have "(0 :: int) \<le> uint (ed_count e)" by simp
  then have "- 1 < uint (ed_count e)" by linarith
  then show "ed_inv (shell_prompt e)" using assms by (simp add: ed_inv_def shell_prompt_def)
  show "ed_abs (shell_prompt e) = \<lparr>sp_text = [], sp_pos = 0, sp_hist = sp_hist (ed_abs e), sp_sel = None\<rparr>"
    by (simp add: ed_abs_def shell_prompt_def)
qed

section \<open>Properties\<close>

text \<open>C16. 
  The line editor implements a text with a position: whatever keys are typed after a prompt, the first
  newline ends the line, the line that the command interpreter gets is the text that inserting, deleting,
  moving and recalling leave, and the stored history is the list of the last eight different lines.  The
  128-byte line and the history rows are never exceeded and stay terminated.
\<close>

theorem shell_line_refines:
  assumes inv: "ed_inv e" and keys: "NUL \<notin> set cs" "CHR 0x0A \<notin> set cs"
  shows "\<exists>e' h n. shell_read_line (cs @ CHR 0x0A # rest) (shell_prompt e) = Some (rest, e') \<and> ed_inv e' \<and>
    cstr (ed_line e') = sp_text (fold sp_key cs \<lparr>sp_text = [], sp_pos = 0, sp_hist = sp_hist (ed_abs e), sp_sel = None\<rparr>) \<and>
    shell_store_history (ed_history e') (ed_count e') (ed_line e') = (h, n) \<and> hist_inv h n \<and>
    hist_abs h n = sp_store (cstr (ed_line e')) (sp_hist (ed_abs e'))"
proof -
  note p = prompt_refines [OF inv]
  obtain e' where e: "shell_read_line (cs @ CHR 0x0A # rest) (shell_prompt e) = Some (rest, e')" "ed_inv e'"
    "ed_abs e' = fold sp_key cs (ed_abs (shell_prompt e))" using read_line_refines [OF p(1) keys] by blast
  obtain h n where h: "shell_store_history (ed_history e') (ed_count e') (ed_line e') = (h, n)" by fastforce
  have "length (cstr (ed_line e')) \<le> 127"
    unfolding ed_line_cstr [OF e(2)] using ed_invD(2) [OF e(2)] by (simp add: ed_abs_parts)
  note st = store_history_refines [OF ed_inv_hist(1) [OF e(2)] this h]
  show ?thesis using e h st ed_line_cstr [OF e(2)] p(2) by (simp add: ed_inv_hist(2))
qed

definition demo_editor :: editor where
  "demo_editor = \<lparr>ed_line = replicate 128 NUL, ed_len = 0, ed_cursor = 0, ed_history = replicate 8 (replicate 128 NUL),
     ed_count = 0, ed_hcursor = - 1, ed_vga = \<lparr>vg_cells = (\<lambda>_. vga_cell CHR '' ''), vg_row = 0, vg_col = 0\<rparr>\<rparr>"

lemma demo_editor_inv: "ed_inv demo_editor"
  by (simp add: demo_editor_def ed_inv_def)

text \<open>Typing \<open>lx\<close>, the left arrow and \<open>s\<close> gives the line \<open>lsx\<close>; it becomes the first line of the history.\<close>

theorem shell_line_refines_witness:
  "\<exists>e' h n. shell_read_line (''lx'' @ KEY_SPECIAL_LEFT # ''s'' @ [CHR 0x0A]) (shell_prompt demo_editor) = Some ([], e') \<and>
     cstr (ed_line e') = ''lsx'' \<and> shell_store_history (ed_history e') (ed_count e') (ed_line e') = (h, n) \<and>
     last (hist_abs h n) = ''lsx''"
proof -
  let ?cs = "''lx'' @ KEY_SPECIAL_LEFT # ''s''"
  have k: "NUL \<notin> set ?cs" "CHR 0x0A \<notin> set ?cs" by (simp_all add: key_specials)
  obtain e' h n where e: "shell_read_line (?cs @ CHR 0x0A # []) (shell_prompt demo_editor) = Some ([], e')"
    "cstr (ed_line e') = sp_text (fold sp_key ?cs \<lparr>sp_text = [], sp_pos = 0, sp_hist = sp_hist (ed_abs demo_editor), sp_sel = None\<rparr>)"
    "shell_store_history (ed_history e') (ed_count e') (ed_line e') = (h, n)"
    "hist_abs h n = sp_store (cstr (ed_line e')) (sp_hist (ed_abs e'))"
    using shell_line_refines [OF demo_editor_inv k, of "[]"] by blast
  have t: "cstr (ed_line e') = ''lsx''" unfolding e(2) by (simp add: sp_key_def key_specials Let_def)
  then have "last (hist_abs h n) = ''lsx''" unfolding e(4) t sp_store_def by (simp add: drop_eq_Nil)
  then show ?thesis using e(1,3) t by auto
qed

section \<open>The echo\<close>

text \<open>The row of the cursor shows a text up to the cursor and is blank from there on.\<close>

definition screen_shows :: "string \<Rightarrow> vga \<Rightarrow> bool" where
  "screen_shows s v \<longleftrightarrow> vga_inv v \<and> unat (vg_col v) = length s \<and>
     te_rows (vga_abs v) ! unat (vg_row v) = map vga_cell s @ replicate (80 - length s) blank"

lemma shows_putc:
  assumes "screen_shows s v" "length s < 80" "c \<noteq> CHR 0x0A" "c \<noteq> CHR 0x08"
  shows "screen_shows (s @ [c]) (vga_putc c v)"
proof -
  have inv: "vga_inv v" and col: "unat (vg_col v) = length s" and r: "unat (vg_row v) < 25" using assms(1) by (auto simp: screen_shows_def inv_unat)
  note pr = putc_refines [OF inv, of c]
  have t: "te_row (vga_abs (vga_putc c v)) = unat (vg_row v)" "te_col (vga_abs (vga_putc c v)) = length s + 1"
    "te_rows (vga_abs (vga_putc c v)) = te_put (unat (vg_row v)) (length s) (vga_cell c) (te_rows (vga_abs v))"
    using pr assms(2-4) col by (simp_all add: te_putc_def vga_abs_cursor Let_def)
  have "replicate (80 - length s) blank = blank # replicate (80 - length (s @ [c])) blank"
    using assms(2) by (simp add: Suc_diff_Suc flip: replicate_Suc)
  then have "te_rows (vga_abs (vga_putc c v)) ! unat (vg_row v) = map vga_cell (s @ [c]) @ replicate (80 - length (s @ [c])) blank"
    using assms(1) r unfolding t(3) by (simp add: te_put_def te_rows_nth(2) screen_shows_def list_update_append)
  moreover have "unat (vg_row (vga_putc c v)) = unat (vg_row v)" "unat (vg_col (vga_putc c v)) = length s + 1"
    using t(1,2) by (simp_all only: vga_abs_cursor)
  ultimately show ?thesis using pr by (simp add: screen_shows_def)
qed

lemma shows_back:
  assumes "screen_shows (s @ [c]) v" "length s < 80"
  shows "screen_shows s (vga_backspace v)"
proof -
  have inv: "vga_inv v" and col: "unat (vg_col v) = Suc (length s)" and r: "unat (vg_row v) < 25" using assms(1) by (auto simp: screen_shows_def inv_unat)
  note br = back_refines [OF inv]
  have t: "te_row (vga_abs (vga_backspace v)) = unat (vg_row v)" "te_col (vga_abs (vga_backspace v)) = length s"
    "te_rows (vga_abs (vga_backspace v)) = te_put (unat (vg_row v)) (length s) blank (te_rows (vga_abs v))"
    using br col by (simp_all add: te_back_def vga_abs_cursor)
  have "replicate (80 - length s) blank = blank # replicate (80 - Suc (length s)) blank"
    using assms(2) by (simp add: Suc_diff_Suc flip: replicate_Suc)
  then have "te_rows (vga_abs (vga_backspace v)) ! unat (vg_row v) = map vga_cell s @ replicate (80 - length s) blank"
    using assms(1) r unfolding t(3) by (simp add: te_put_def te_rows_nth(2) screen_shows_def list_update_append)
  moreover have "unat (vg_row (vga_backspace v)) = unat (vg_row v)" "unat (vg_col (vga_backspace v)) = length s"
    using t(1,2) by (simp_all only: vga_abs_cursor)
  ultimately show ?thesis using br by (simp add: screen_shows_def)
qed

lemma shows_puts:
  assumes "screen_shows s v" "length s + length t \<le> 80" "CHR 0x0A \<notin> set t" "CHR 0x08 \<notin> set t"
  shows "screen_shows (s @ t) (fold vga_putc t v)"
  using assms
proof (induction t arbitrary: s v)
  case (Cons c t)
  have "screen_shows (s @ [c]) (vga_putc c v)" using Cons.prems by (intro shows_putc) auto
  then show ?case using Cons.IH [of "s @ [c]" "vga_putc c v"] Cons.prems by simp
qed simp

lemma shows_backs:
  assumes "screen_shows s v" "length s \<le> 80" "n \<le> length s"
  shows "screen_shows (take (length s - n) s) ((vga_backspace ^^ n) v)"
  using assms(3)
proof (induction n)
  case 0
  then show ?case using assms(1) by simp
next
  case (Suc n)
  let ?k = "length s - Suc n"
  have "take (length s - n) s = take ?k s @ [s ! ?k]" using Suc.prems take_Suc_conv_app_nth [of ?k s] by (simp add: Suc_diff_Suc)
  then show ?case using Suc shows_back [of "take ?k s" "s ! ?k"] assms(2) by simp
qed

definition plain_key :: "char \<Rightarrow> bool" where
  "plain_key c \<longleftrightarrow> c \<notin> {KEY_SPECIAL_UP, KEY_SPECIAL_DOWN, KEY_SPECIAL_LEFT, KEY_SPECIAL_RIGHT, KEY_SPECIAL_DELETE, CHR 0x0A, CHR 0x08, NUL}"

text \<open>A line with its cursor, displayed as it should be: prompt, text up to the cursor.\<close>

definition shown :: "string \<Rightarrow> nat \<Rightarrow> editor \<Rightarrow> bool" where
  "shown t p e \<longleftrightarrow> ed_inv e \<and> sp_text (ed_abs e) = t \<and> sp_pos (ed_abs e) = p \<and> screen_shows (''mars> '' @ take p t) (ed_vga e)"

lemma shownD:
  assumes "shown t p e"
  shows "ed_inv e" "unat (ed_len e) = length t" "unat (ed_cursor e) = p" "screen_shows (''mars> '' @ take p t) (ed_vga e)"
    "sp_text (ed_abs e) = t" "sp_pos (ed_abs e) = p"
proof -
  show i: "ed_inv e" "sp_text (ed_abs e) = t" "sp_pos (ed_abs e) = p" "screen_shows (''mars> '' @ take p t) (ed_vga e)"
    using assms by (simp_all add: shown_def)
  show "unat (ed_cursor e) = p" using i(3) by (simp add: ed_abs_def)
  show "unat (ed_len e) = length t" using i(2) ed_invD(1,2) [OF i(1)] by (auto simp: ed_abs_def)
qed

lemma shown_prompt:
  assumes "ed_inv e" "screen_shows [] (ed_vga e)"
  shows "shown [] 0 (shell_prompt e)"
proof -
  have "screen_shows (''mars> '') (vga_puts ''mars> '' (ed_vga e))"
    using shows_puts [OF assms(2), of "''mars> ''"] by (simp add: vga_puts_def cstr_def)
  then show ?thesis using prompt_refines [OF assms(1)] by (simp add: shown_def) (simp add: shell_prompt_def)
qed

lemma shown_char:
  assumes s: "shown t (length t) e" and c: "plain_key c" and n: "length t < 74"
  shows "shown (t @ [c]) (length t + 1) (snd (shell_key c e))"
proof -
  note d = shownD [OF s]
  have k: "shell_key c e = (False, key_char c e)" using c by (simp add: shell_key_def plain_key_def)
  have eq: "ed_cursor e = ed_len e" using d(2,3) by (simp add: word_unat_eq_iff)
  have lt: "ed_len e < 127" using d(2) n by (simp add: word_less_nat_alt)
  have "ed_vga (key_char c e) = vga_putc c (ed_vga e)" using eq lt by (simp add: key_char_def Let_def)
  moreover have "screen_shows (''mars> '' @ t @ [c]) (vga_putc c (ed_vga e))"
    using shows_putc [OF d(4), of c] n c by (simp add: plain_key_def)
  moreover have "c \<noteq> NUL" using c by (simp add: plain_key_def)
  then have "ed_inv (key_char c e)" "sp_text (ed_abs (key_char c e)) = t @ [c]" "sp_pos (ed_abs (key_char c e)) = length t + 1"
    using key_char_refines [OF d(1)] d(5,6) n by (simp_all add: Let_def)
  ultimately show ?thesis by (simp add: k shown_def)
qed

lemma shown_typed:
  assumes "shown [] 0 e" "list_all plain_key t" "length t \<le> 74"
  shows "shown t (length t) (fold (\<lambda>c e. snd (shell_key c e)) t e)"
  using assms(2,3)
proof (induction t rule: rev_induct)
  case Nil
  then show ?case using assms(1) by simp
next
  case (snoc c t)
  then show ?case using shown_char [of t "fold (\<lambda>c e. snd (shell_key c e)) t e" c] by simp
qed

lemma shown_left:
  assumes s: "shown t (Suc p) e" and n: "length t \<le> 74" "p < length t"
  shows "shown t p (snd (shell_key KEY_SPECIAL_LEFT e))"
proof -
  note d = shownD [OF s]
  have k: "shell_key KEY_SPECIAL_LEFT e = (False, key_left e)" by (simp add: shell_key_def key_specials)
  have "0 < ed_cursor e" using d(3) by (simp add: word_less_nat_alt)
  then have "ed_vga (key_left e) = vga_backspace (ed_vga e)" by (simp add: key_left_def)
  moreover have "screen_shows (''mars> '' @ take p t) (vga_backspace (ed_vga e))"
    using shows_back [of "''mars> '' @ take p t" "t ! p" "ed_vga e"] d(4) n by (simp add: take_Suc_conv_app_nth)
  ultimately show ?thesis using key_move_refines(1) [OF d(1)] d(5,6) by (simp add: k shown_def)
qed

lemma shown_lefts:
  assumes "shown t (length t) e" "length t \<le> 74" "k \<le> length t"
  shows "shown t (length t - k) (fold (\<lambda>c e. snd (shell_key c e)) (replicate k KEY_SPECIAL_LEFT) e)"
  using assms(3)
proof (induction k)
  case 0
  then show ?case using assms(1) by simp
next
  case (Suc k)
  have "replicate (Suc k) KEY_SPECIAL_LEFT = replicate k KEY_SPECIAL_LEFT @ [KEY_SPECIAL_LEFT]" by (simp add: replicate_append_same)
  then show ?case
    using Suc assms(2) shown_left [of t "length t - Suc k" "fold (\<lambda>c e. snd (shell_key c e)) (replicate k KEY_SPECIAL_LEFT) e"]
    by (simp add: Suc_diff_Suc)
qed

text \<open>The redraw after an insertion \<open>k\<close> places before the end of the line.\<close>

lemma inserted_screen:
  assumes s: "shown t p e" and p: "p < length t" "length t - p \<le> 5" and n: "length t < 74"
    and x: "plain_key x" "list_all plain_key t"
  shows "screen_shows (take (5 - (length t - p)) ''mars> '' @ take p t @ [x]) (ed_vga (snd (shell_key x e)))"
proof -
  note d = shownD [OF s]
  let ?k = "length t - p" and ?new = "take p t @ x # drop p t"
  define e1 where "e1 = e\<lparr>ed_line := ((open_gap p (length t) (ed_line e))[p := x])[length t + 1 := NUL], ed_len := ed_len e + 1,
    ed_cursor := ed_cursor e + 1\<rparr>"
  have le: "unat (ed_len e + 1) = length t + 1" "unat (ed_cursor e + 1) = p + 1" using d(2,3) ed_invD(6,7) [OF d(1)] by simp_all
  have ne: "ed_cursor e \<noteq> ed_len e" "ed_len e < 127" using d(2,3) p(1) n by (auto simp: word_less_nat_alt)
  have k: "shell_key x e = (False, shell_redraw_line e1)"
    using x(1) ne d(2,3) le(1) by (simp add: shell_key_def plain_key_def key_char_def Let_def e1_def)
  have "sp_text (ed_abs e1) = ?new"
    using key_char_refines [OF d(1), of x] x(1) k d(5,6) n by (simp add: shell_key_def plain_key_def Let_def)
  then have new: "take (length t + 1) (ed_line e1) = ?new" by (simp add: ed_abs_def) (simp add: e1_def le(1))
  have "length (take (length t + 1) (ed_line e1)) = length t + 1" unfolding new using p(1) by simp
  then have len: "length t + 1 \<le> length (ed_line e1)" by simp
  have "fold (\<lambda>i. vga_putc (ed_line e1 ! i)) [0..<length t + 1] = fold vga_putc (map ((!) (ed_line e1)) [0..<length t + 1])"
    by (simp add: fold_map comp_def fun_eq_iff)
  also have "map ((!) (ed_line e1)) [0..<length t + 1] = ?new"
    unfolding new [symmetric] using len by (intro nth_equalityI) (simp_all del: upt_Suc)
  finally have puts: "fold (\<lambda>i. vga_putc (ed_line e1 ! i)) [0..<length t + 1] = fold vga_putc ?new" .
  have "ed_vga (shell_redraw_line e1) = (vga_backspace ^^ ?k) (fold vga_putc ?new ((vga_backspace ^^ (length t + 1)) (ed_vga e)))"
    unfolding shell_redraw_line_def Let_def using le puts by (simp add: e1_def)
  moreover have "length (''mars> '' @ take p t) - (length t + 1) = 5 - ?k" using p by simp
  then have "take (length (''mars> '' @ take p t) - (length t + 1)) (''mars> '' @ take p t) = take (5 - ?k) ''mars> ''"
    by (simp only: take_append) simp
  then have "screen_shows (take (5 - ?k) ''mars> '') ((vga_backspace ^^ (length t + 1)) (ed_vga e))"
    using shows_backs [OF d(4), of "length t + 1"] p n by (simp only:) simp
  then have "screen_shows (take (5 - ?k) ''mars> '' @ ?new)
      (fold vga_putc ?new ((vga_backspace ^^ (length t + 1)) (ed_vga e)))"
    by (rule shows_puts) (use p n x in \<open>auto simp: plain_key_def list_all_iff dest: in_set_takeD in_set_dropD\<close>)
  from shows_backs [OF this, of ?k]
  have "screen_shows (take (5 - ?k + (p + 1)) (take (5 - ?k) ''mars> '' @ ?new))
      ((vga_backspace ^^ ?k) (fold vga_putc ?new ((vga_backspace ^^ (length t + 1)) (ed_vga e))))"
    using p n by simp
  moreover have "take (5 - ?k + (p + 1)) (take (5 - ?k) ''mars> '' @ ?new) = take (5 - ?k) ''mars> '' @ take p t @ [x]"
    using p by simp
  ultimately show ?thesis using k by simp
qed

text \<open>C38. 
  The echo does not keep up with the cursor.  \<open>KEY_SPECIAL_LEFT\<close> is echoed by \<open>vga_backspace\<close>, which blanks the cell
  it moves to, and \<open>shell_redraw_line\<close> steps back by the length of the line from wherever the cursor is.  Type
  any line of at most 73 plain characters at the prompt on a blank row, go left over its last 1 to 5 characters
  and insert a character: the line is the right one, but on the screen the prompt is shorter by as many
  characters and one, the line starts that much too early, and the characters gone over are missing.
\<close>

theorem shell_left_echo_damaged:
  assumes "ed_inv e" and "screen_shows [] (ed_vga e)" and "list_all plain_key (x # t)" and "length t < 74"
    and "1 \<le> k" and "k \<le> 5" and "k \<le> length t"
  defines "e' \<equiv> fold (\<lambda>c e. snd (shell_key c e)) (t @ replicate k KEY_SPECIAL_LEFT @ [x]) (shell_prompt e)"
  shows "sp_text (ed_abs e') = take (length t - k) t @ x # drop (length t - k) t \<and> sp_pos (ed_abs e') = length t - k + 1 \<and>
    screen_shows (take (5 - k) ''mars> '' @ take (length t - k) t @ [x]) (ed_vga e')"
proof -
  let ?type = "fold (\<lambda>c e. snd (shell_key c e))" and ?p = "length t - k"
  define e1 where "e1 = ?type (replicate k KEY_SPECIAL_LEFT) (?type t (shell_prompt e))"
  have e': "e' = snd (shell_key x e1)" by (simp add: e'_def e1_def)
  have s: "shown t ?p e1"
    unfolding e1_def using assms(3,4,7) by (intro shown_lefts shown_typed shown_prompt [OF assms(1,2)]) simp_all
  note d = shownD [OF s]
  have x: "plain_key x" "list_all plain_key t" using assms(3) by simp_all
  then have "ed_abs e' = sp_key x (ed_abs e1)" unfolding e' by (intro shell_key_refines(3) [OF d(1)]) (simp add: plain_key_def)
  then have "sp_text (ed_abs e') = take ?p t @ x # drop ?p t" "sp_pos (ed_abs e') = ?p + 1"
    using x(1) d(5,6) assms(4) by (simp_all add: sp_key_def plain_key_def Let_def)
  moreover have "length t - ?p = k" using assms(7) by simp
  then have "screen_shows (take (5 - k) ''mars> '' @ take ?p t @ [x]) (ed_vga e')"
    using inserted_screen [OF s _ _ assms(4) x] assms(5-7) unfolding e' by simp
  ultimately show ?thesis by blast
qed

text \<open>After \<open>ab\<close>, the left arrow and \<open>X\<close> the line is \<open>aXb\<close> and the screen reads \<open>marsaX\<close>.\<close>

theorem shell_left_echo_damaged_witness:
  "let e' = fold (\<lambda>c e. snd (shell_key c e)) (''ab'' @ [KEY_SPECIAL_LEFT] @ ''X'') (shell_prompt demo_editor) in
   sp_text (ed_abs e') = ''aXb'' \<and> screen_shows ''marsaX'' (ed_vga e')"
proof -
  have "map (cell_at (ed_vga demo_editor) 0) [0..<80] = replicate 80 blank"
    by (intro nth_equalityI) (simp_all add: demo_editor_def cell_at_def)
  then have "screen_shows [] (ed_vga demo_editor)"
    using te_rows_nth(1) [of 0 "ed_vga demo_editor"] by (simp add: screen_shows_def demo_editor_def vga_inv_def)
  moreover have "list_all plain_key (CHR ''X'' # ''ab'')" by (simp add: plain_key_def key_specials)
  ultimately show ?thesis
    using shell_left_echo_damaged [OF demo_editor_inv, of "CHR ''X''" "''ab''" 1] by (simp add: Let_def)
qed

end
