(* ===== verification/Shell_Commands.thy ===== *)
theory Shell_Commands
  imports Traps Shell_Text
begin

text \<open>
  The commands of the shell: \<open>run_command\<close> of \<open>kernel.c\<close> and the functions it calls there.  The chain of
  comparisons at the head of each command is \<open>command_of\<close>, which gives the command and its argument; the
  commands that the shell completes by itself (\<open>direct\<close>) have one definition each over the machine.  The
  others hand the processor to code outside the shell and are only recognised: tasks that run between two
  yields (\<open>taskdemo\<close>, \<open>selftest\<close>, \<open>stressproc\<close>), a ring 3 program (\<open>usertest\<close>), a faulting store (\<open>vmfault\<close>), system
  calls on pointers to the shell's own variables (\<open>syscallfs\<close>, \<open>sysrun\<close>), timer waits, whose length and loop are
  modelled below, and the reset of the machine.
\<close>

section \<open>Recognising a command\<close>

datatype direct =
    Help | Clear | Mem | Mmap | Pmm_info | Heap_info | Kmalloc string | Syscall_info | Tasks | Ps | Spawnproc | Psx | Progs
  | Run string | Send string | Recv | Ipc_info | Upings | Aspace | Userprep | Ls | Cat string | Write string | Vm_info
  | Vmmap string | Vmunmap string | Vmxlate string | Alloc | Allocn string | Free string | Uptime | Time | Ticks
  | Echo string | Unknown string

datatype handover = Syscallfs | Taskdemo | Sysrun string | Selftest | Stressproc string | Usertest | Vmfault
  | Sleep string | Sleepms string | Reboot

datatype command = Nothing | Direct direct | Handover handover

definition command_of :: "string \<Rightarrow> command" where
  "command_of line =
     (if c_at line 0 = NUL then Nothing
      else if streq line ''help'' then Direct Help
      else if streq line ''clear'' then Direct Clear
      else if streq line ''mem'' then Direct Mem
      else if streq line ''mmap'' then Direct Mmap
      else if streq line ''pmm'' then Direct Pmm_info
      else if streq line ''heap'' then Direct Heap_info
      else if starts_with line ''kmalloc '' then Direct (Kmalloc (drop 8 line))
      else if streq line ''syscall'' then Direct Syscall_info
      else if streq line ''syscallfs'' then Handover Syscallfs
      else if streq line ''tasks'' then Direct Tasks
      else if streq line ''taskdemo'' then Handover Taskdemo
      else if streq line ''ps'' then Direct Ps
      else if streq line ''spawnproc'' then Direct Spawnproc
      else if streq line ''psx'' then Direct Psx
      else if streq line ''progs'' then Direct Progs
      else if starts_with line ''run '' then Direct (Run (drop 4 line))
      else if starts_with line ''sysrun '' then Handover (Sysrun (drop 7 line))
      else if starts_with line ''send '' then Direct (Send (drop 5 line))
      else if streq line ''recv'' then Direct Recv
      else if streq line ''ipc'' then Direct Ipc_info
      else if streq line ''upings'' then Direct Upings
      else if streq line ''selftest'' then Handover Selftest
      else if starts_with line ''stressproc'' then Handover (Stressproc (drop 10 line))
      else if streq line ''aspace'' then Direct Aspace
      else if streq line ''userprep'' then Direct Userprep
      else if streq line ''usertest'' then Handover Usertest
      else if streq line ''ls'' then Direct Ls
      else if starts_with line ''cat '' then Direct (Cat (drop 4 line))
      else if starts_with line ''write '' then Direct (Write (drop 6 line))
      else if streq line ''vm'' then Direct Vm_info
      else if starts_with line ''vmmap '' then Direct (Vmmap (drop 6 line))
      else if starts_with line ''vmunmap '' then Direct (Vmunmap (drop 8 line))
      else if starts_with line ''vmxlate '' then Direct (Vmxlate (drop 8 line))
      else if streq line ''vmfault'' then Handover Vmfault
      else if streq line ''alloc'' then Direct Alloc
      else if starts_with line ''allocn '' then Direct (Allocn (drop 7 line))
      else if starts_with line ''free '' then Direct (Free (drop 5 line))
      else if streq line ''uptime'' then Direct Uptime
      else if streq line ''time'' then Direct Time
      else if streq line ''ticks'' then Direct Ticks
      else if starts_with line ''sleep '' then Handover (Sleep (drop 6 line))
      else if starts_with line ''sleepms '' then Handover (Sleepms (drop 8 line))
      else if streq line ''reboot'' then Handover Reboot
      else if starts_with line ''echo '' then Direct (Echo (drop 5 line))
      else Direct (Unknown line))"

section \<open>Memory map\<close>

text \<open>
  The Multiboot structures are read from physical memory, which is identity mapped.  An entry whose size
  wraps the address back can keep the counting loop running for ever; that is the value None.
\<close>

partial_function (option) mmap_count :: "mem \<Rightarrow> u32 \<Rightarrow> u32 \<Rightarrow> u32 \<Rightarrow> u32 \<Rightarrow> (u32 \<times> u32) option" where
  "mmap_count m mmap_end entry entries usable_entries =
     (if entry < mmap_end then
        let e = mmap_entry_at m entry in
        mmap_count m mmap_end (entry + me_size e + 4) (entries + 1)
          (if me_type e = 1 then usable_entries + 1 else usable_entries)
      else Some (entries, usable_entries))"

definition print_mem_info :: "u32 \<Rightarrow> machine \<Rightarrow> machine option" where
  "print_mem_info mbi m =
     (let mem = vm_mem (vm_of (sys_of m)); i = mbi_at mem mbi;
          m1 = (if mbi_flags i AND 1 \<noteq> 0
                then print [Str ''mem lower KB: '', Dec (mbi_mem_lower i), Chr CHR 0x0A,
                            Str ''mem upper KB: '', Dec (mbi_mem_upper i), Chr CHR 0x0A] m
                else print [Str ''mem info not provided\<newline>''] m)
      in if mbi_flags i AND 64 \<noteq> 0
         then map_option (\<lambda>(entries, usable_entries).
                print [Str ''mmap entries: '', Dec entries, Chr CHR 0x0A,
                       Str ''usable entries: '', Dec usable_entries, Chr CHR 0x0A] m1)
              (mmap_count mem (mbi_mmap_addr i + mbi_mmap_length i) (mbi_mmap_addr i) 0 0)
         else Some (print [Str ''mmap not provided\<newline>''] m1))"

function mmap_lines :: "mem \<Rightarrow> u32 \<Rightarrow> u32 \<Rightarrow> nat \<Rightarrow> out list" where
  "mmap_lines m mmap_end entry shown =
     (if entry < mmap_end then
        let e = mmap_entry_at m entry;
            xs = [Str ''#'', Dec (of_nat shown), Str '' base='', Hex64 (me_addr e), Str '' len='', Hex64 (me_len e),
                  Str '' type='', Dec (me_type e), Chr CHR 0x0A]
        in if shown + 1 \<ge> 8 then xs @ [Str ''...\<newline>'']
           else xs @ mmap_lines m mmap_end (entry + me_size e + 4) (shown + 1)
      else [])"
  by pat_completeness auto
termination
  by (relation "measure (\<lambda>(m, e, a, shown). 8 - shown)") auto

declare mmap_lines.simps [simp del]

definition print_mmap_regions :: "u32 \<Rightarrow> machine \<Rightarrow> machine" where
  "print_mmap_regions mbi m =
     (let mem = vm_mem (vm_of (sys_of m)); i = mbi_at mem mbi in
      if mbi_flags i AND 64 = 0 then print [Str ''mmap not provided\<newline>''] m
      else print (mmap_lines mem (mbi_mmap_addr i + mbi_mmap_length i) (mbi_mmap_addr i) 0) m)"

section \<open>Commands\<close>

definition on_machine_vm :: "(vm \<Rightarrow> vm) \<Rightarrow> machine \<Rightarrow> machine" where
  "on_machine_vm f m = set_sys (on_vm f (sys_of m)) m"

abbreviation machine_vm :: "machine \<Rightarrow> vm" where "machine_vm m \<equiv> vm_of (sys_of m)"

text \<open>\<open>int $0x80\<close> from the shell: the registers other than \<open>eax\<close> are whatever they are.\<close>

definition int80 :: "symbols \<Rightarrow> (nat \<Rightarrow> u32) \<Rightarrow> u32 \<Rightarrow> machine \<Rightarrow> (u32 \<times> machine) option" where
  "int80 sy regs no m = map_option (\<lambda>(v, k). (v, m\<lparr>ma_kernel := k\<rparr>)) (syscall_dispatch sy (regs(7 := no)) (ma_kernel m))"

definition cmd_help :: "machine \<Rightarrow> machine" where
  "cmd_help = print
     [Str (''commands: help clear mem mmap pmm heap kmalloc syscall syscallfs tasks taskdemo ps '' @
           ''spawnproc progs run sysrun send recv ipc upings selftest stressproc userprep usertest '' @
           ''psx ls cat write aspace alloc allocn free vm vmmap vmunmap vmxlate '' @
           ''vmfault uptime time ticks sleep sleepms reboot echo\<newline>''),
      Str ''editing: up/down for history\<newline>'']"

definition cmd_pmm :: "machine \<Rightarrow> machine" where
  "cmd_pmm m =
     (let p = vm_pmm (machine_vm m) in
      if \<not> pmm_ready p then print [Str ''pmm: not initialized\<newline>''] m
      else print [Str ''pmm total frames: '', Dec (pmm_total_frames p), Chr CHR 0x0A,
                  Str ''pmm used frames: '', Dec (pmm_used_frames p), Chr CHR 0x0A,
                  Str ''pmm free frames: '', Dec (pmm_free_frames p), Chr CHR 0x0A] m)"

definition cmd_heap :: "machine \<Rightarrow> machine" where
  "cmd_heap m = print [Str ''heap total bytes: '', Dec (kheap_total_bytes (km_of (sys_of m))), Chr CHR 0x0A,
                       Str ''heap used bytes: '', Dec (kheap_used_bytes (km_of (sys_of m))), Chr CHR 0x0A] m"

definition cmd_kmalloc :: "string \<Rightarrow> machine \<Rightarrow> machine option" where
  "cmd_kmalloc arg m =
     (case parse_u32 arg of
        None \<Rightarrow> Some (print [Str ''usage: kmalloc <bytes>\<newline>''] m)
      | Some bytes \<Rightarrow>
          (case kmalloc bytes (km_of (sys_of m)) of
             None \<Rightarrow> None
           | Some (ptr, km) \<Rightarrow>
               let m1 = set_sys (set_km km (sys_of m)) m in
               if ptr = 0 then Some (print [Str ''kmalloc failed\<newline>''] m1)
               else
                 let m2 = print [Str ''kmalloc ptr: '', Hex ptr, Chr CHR 0x0A] m1;
                     m3 = set_sys (set_km (kfree ptr (km_of (sys_of m2))) (sys_of m2)) m2
                 in Some (print [Str ''kfree done\<newline>''] m3)))"

definition cmd_syscall :: "symbols \<Rightarrow> (nat \<Rightarrow> u32) \<Rightarrow> machine \<Rightarrow> machine option" where
  "cmd_syscall sy regs m0 = do {
     (ticks, m1) \<leftarrow> int80 sy regs 0 m0;
     (heap_total, m2) \<leftarrow> int80 sy regs 1 m1;
     (heap_used, m3) \<leftarrow> int80 sy regs 2 m2;
     Some (print [Str ''sys ticks: '', Dec ticks, Chr CHR 0x0A, Str ''sys heap total: '', Dec heap_total, Chr CHR 0x0A,
                  Str ''sys heap used: '', Dec heap_used, Chr CHR 0x0A] m3)
   }"

definition cmd_tasks :: "machine \<Rightarrow> machine" where
  "cmd_tasks m = print [Str ''tasks total: '', Dec (scheduler_task_count (ks_sched (sys_of m))), Chr CHR 0x0A,
                        Str ''tasks runnable: '', Dec (scheduler_runnable_count (ks_sched (sys_of m))), Chr CHR 0x0A] m"

text \<open>\<open>for (i = 0; i < cnt; i++) { ... }\<close> over a printing body.\<close>

definition for_each :: "u32 \<Rightarrow> (u32 \<Rightarrow> out list) \<Rightarrow> out list" where
  "for_each cnt body = concat (map (\<lambda>i. body (of_nat i)) [0..<unat cnt])"

definition ps_line :: "proctab \<Rightarrow> u32 \<Rightarrow> out list" where
  "ps_line t i =
     (case process_pid_at i (Some 0) (Some []) t of
        (True, Some pid, Some name) \<Rightarrow> [Str ''pid='', Dec pid, Str '' name='', Str name, Chr CHR 0x0A]
      | _ \<Rightarrow> [])"

definition cmd_ps :: "machine \<Rightarrow> machine" where
  "cmd_ps m =
     (let t = ks_procs (sys_of m); cnt = process_count t
      in print ([Str ''processes: '', Dec cnt, Chr CHR 0x0A] @ for_each cnt (ps_line t)) m)"

definition cmd_spawnproc :: "symbols \<Rightarrow> u32 \<Rightarrow> machine \<Rightarrow> machine option" where
  "cmd_spawnproc sy demo_task m = do {
     (p1, s1) \<leftarrow> process_spawn_kernel sy (Some ''proc1'') demo_task 0x101 (sys_of m);
     (p2, s2) \<leftarrow> process_spawn_kernel sy (Some ''proc2'') demo_task 0x102 s1;
     let m1 = set_sys s2 m;
     if p1 < 0 \<or> p2 < 0 then Some (print [Str ''spawnproc failed\<newline>''] m1)
     else Some (print [Str ''spawned pids: '', Dec (of_int p1), Str '', '', Dec (of_int p2), Chr CHR 0x0A] m1)
   }"

definition psx_lines :: "proctab \<Rightarrow> u32 \<Rightarrow> out list" where
  "psx_lines t i =
     (case process_info_at i (Some \<lparr>pi_pid = 0, pi_tid = 0, pi_cr3 = 0, pi_user_code_frame = 0, pi_user_stack_frame = 0,
             pi_user_entry = 0, pi_syscall_mask_low = 0, pi_is_kernel = 0\<rparr>) t of
        (True, Some info) \<Rightarrow>
          [Str ''pid='', Dec (pi_pid info), Str '' tid='', Dec (pi_tid info), Str '' kind='',
           Str (if pi_is_kernel info \<noteq> 0 then ''kernel'' else ''user''), Chr CHR 0x0A,
           Str ''  cr3='', Hex (pi_cr3 info), Str '' ucode='', Hex (pi_user_code_frame info),
           Str '' ustack='', Hex (pi_user_stack_frame info), Str '' uentry='', Hex (pi_user_entry info), Chr CHR 0x0A,
           Str ''  mask='', Hex (pi_syscall_mask_low info), Chr CHR 0x0A]
      | _ \<Rightarrow> [])"

definition cmd_psx :: "machine \<Rightarrow> machine" where
  "cmd_psx m = (let t = ks_procs (sys_of m) in print (for_each (process_count t) (psx_lines t)) m)"

definition list_line :: "string option \<Rightarrow> out list" where
  "list_line name = (case name of None \<Rightarrow> [] | Some n \<Rightarrow> [Str ''- '', Str n, Chr CHR 0x0A])"

definition cmd_progs :: "symbols \<Rightarrow> machine \<Rightarrow> machine" where
  "cmd_progs sy m =
     (let cnt = exec_program_count sy
      in print ([Str ''programs: '', Dec cnt, Chr CHR 0x0A] @ for_each cnt (\<lambda>i. list_line (exec_program_name_at sy i))) m)"

text \<open>The token buffers are local arrays; only the terminated text in them is used.\<close>

definition cmd_run :: "symbols \<Rightarrow> string \<Rightarrow> machine \<Rightarrow> machine option" where
  "cmd_run sy arg m =
     (let name = snd (read_token arg (replicate 40 NUL) 40) in
      if c_at name 0 = NUL then Some (print [Str ''usage: run <program>\<newline>''] m)
      else do {
        (pid, s) \<leftarrow> exec_spawn sy (Some name) (sys_of m);
        if pid < 0 then Some (print [Str ''run failed\<newline>''] (set_sys s m))
        else Some (print [Str ''run pid: '', Dec (of_int pid), Chr CHR 0x0A] (set_sys s m))
      })"

definition cmd_send :: "string \<Rightarrow> machine \<Rightarrow> machine" where
  "cmd_send arg m =
     (let (p, pid_tok) = read_token arg (replicate 16 NUL) 16; msg = skip_spaces p; k = ma_kernel m in
      case parse_u32 pid_tok of
        None \<Rightarrow> print [Str ''usage: send <pid> <message>\<newline>''] m
      | Some to_pid \<Rightarrow>
          if c_at msg 0 = NUL then print [Str ''usage: send <pid> <message>\<newline>''] m
          else let (q, ok) = ipc_send (caller_pid k) to_pid (Some msg) (kn_ipc k); m1 = m\<lparr>ma_kernel := k\<lparr>kn_ipc := q\<rparr>\<rparr>
               in if \<not> ok then print [Str ''send failed\<newline>''] m1 else print [Str ''sent\<newline>''] m1)"

definition cmd_recv :: "machine \<Rightarrow> machine" where
  "cmd_recv m =
     (let k = ma_kernel m; (q, msg, from_pid, received) = ipc_recv (caller_pid k) (Some (replicate 64 NUL)) 64 (Some 0) (kn_ipc k);
          m1 = m\<lparr>ma_kernel := k\<lparr>kn_ipc := q\<rparr>\<rparr>
      in if received < 0 then print [Str ''recv failed\<newline>''] m1
         else if received = 0 then print [Str ''no messages\<newline>''] m1
         else print [Str ''from '', Dec (the from_pid), Str '': '', Str (the msg), Chr CHR 0x0A] m1)"

definition cmd_ipc :: "machine \<Rightarrow> machine" where
  "cmd_ipc m = print [Str ''ipc pending: '', Dec (ipc_pending_count (kn_ipc (ma_kernel m))), Chr CHR 0x0A] m"

definition cmd_upings :: "symbols \<Rightarrow> (nat \<Rightarrow> u32) \<Rightarrow> machine \<Rightarrow> machine option" where
  "cmd_upings sy regs m = do {
     (cnt, m1) \<leftarrow> int80 sy regs 18 m;
     Some (print [Str ''user ping count: '', Dec cnt, Chr CHR 0x0A] m1)
   }"

definition cmd_aspace :: "machine \<Rightarrow> machine" where
  "cmd_aspace m = print [Str ''cr3 current: '', Hex (paging_current_directory_phys (machine_vm m)), Chr CHR 0x0A,
                         Str ''cr3 kernel: '', Hex (paging_kernel_directory_phys (machine_vm m)), Chr CHR 0x0A] m"

definition cmd_userprep :: "machine \<Rightarrow> machine option" where
  "cmd_userprep m = do {
     (ok, m1) \<leftarrow> usermode_prepare m;
     Some (print [Str (if ok then ''userprep ok\<newline>'' else ''userprep failed\<newline>'')] m1)
   }"

definition cmd_ls :: "machine \<Rightarrow> machine" where
  "cmd_ls m =
     (let fs = ks_fs (sys_of m); cnt = vfs_file_count fs
      in print ([Str ''files: '', Dec cnt, Chr CHR 0x0A] @ for_each cnt (\<lambda>i. list_line (vfs_file_name_at i fs))) m)"

text \<open>\<open>vga_puts\<close> on a pointer into the heap: the bytes up to the terminator, None when there is none.\<close>

partial_function (option) heap_text :: "(u32 \<Rightarrow> char) \<Rightarrow> u32 \<Rightarrow> string option" where
  "heap_text b a = (if b a = NUL then Some [] else Option.bind (heap_text b (a + 1)) (\<lambda>t. Some (b a # t)))"

definition cmd_cat :: "string \<Rightarrow> machine \<Rightarrow> machine option" where
  "cmd_cat arg m =
     (let name = snd (read_token arg (replicate 40 NUL) 40); fs = ks_fs (sys_of m) in
      if c_at name 0 = NUL then Some (print [Str ''usage: cat <name>\<newline>''] m)
      else let content = vfs_read_file (Some name) fs in
        if content = 0 then Some (print [Str ''cat: file not found\<newline>''] m)
        else map_option (\<lambda>t. print [Str t, Chr CHR 0x0A] m) (heap_text (fs_bytes fs) content))"

definition cmd_write :: "string \<Rightarrow> machine \<Rightarrow> machine option" where
  "cmd_write arg m =
     (let (p, name) = read_token arg (replicate 40 NUL) 40; t = skip_spaces p in
      if c_at name 0 = NUL \<or> c_at t 0 = NUL then Some (print [Str ''usage: write <name> <text>\<newline>''] m)
      else do {
        (ok, fs) \<leftarrow> vfs_write_file (Some name) (Some t) (ks_fs (sys_of m));
        let m1 = set_sys ((sys_of m)\<lparr>ks_fs := fs\<rparr>) m;
        Some (print [Str (if ok then ''write ok\<newline>'' else ''write failed\<newline>'')] m1)
      })"

definition cmd_vm :: "machine \<Rightarrow> machine" where
  "cmd_vm m = print [Str ''paging: '', Str (if paging_enabled (machine_vm m) then ''enabled\<newline>'' else ''disabled\<newline>'')] m"

definition cmd_vmmap :: "string \<Rightarrow> machine \<Rightarrow> machine" where
  "cmd_vmmap arg m =
     (let (p, tok1) = read_token arg (replicate 32 NUL) 32; (p', tok2) = read_token p (replicate 32 NUL) 32 in
      case (parse_u32_auto tok1, parse_u32_auto tok2) of
        (Some virt, Some phys) \<Rightarrow>
          let (ok, v) = paging_map_page virt phys (PAGING_FLAG_PRESENT OR PAGING_FLAG_RW) (machine_vm m);
              m1 = on_machine_vm (\<lambda>_. v) m
          in if \<not> ok then print [Str ''vmmap failed\<newline>''] m1
             else print [Str ''mapped '', Hex (virt AND 0xFFFFF000), Str '' -> '', Hex (phys AND 0xFFFFF000), Chr CHR 0x0A] m1
      | _ \<Rightarrow> print [Str ''usage: vmmap <virt> <phys>\<newline>''] m)"

definition cmd_vmunmap :: "string \<Rightarrow> machine \<Rightarrow> machine" where
  "cmd_vmunmap arg m =
     (case parse_u32_auto arg of
        None \<Rightarrow> print [Str ''usage: vmunmap <virt>\<newline>''] m
      | Some virt \<Rightarrow>
          let (ok, v) = paging_unmap_page virt (machine_vm m); m1 = on_machine_vm (\<lambda>_. v) m
          in if \<not> ok then print [Str ''vmunmap: not mapped\<newline>''] m1
             else print [Str ''unmapped '', Hex (virt AND 0xFFFFF000), Chr CHR 0x0A] m1)"

definition cmd_vmxlate :: "string \<Rightarrow> machine \<Rightarrow> machine" where
  "cmd_vmxlate arg m =
     (case parse_u32_auto arg of
        None \<Rightarrow> print [Str ''usage: vmxlate <virt>\<newline>''] m
      | Some virt \<Rightarrow>
          (case paging_translate virt (machine_vm m) of
             None \<Rightarrow> print [Str ''vmxlate: unmapped\<newline>''] m
           | Some phys \<Rightarrow> print [Str ''phys: '', Hex phys, Chr CHR 0x0A] m))"

definition cmd_alloc :: "machine \<Rightarrow> machine" where
  "cmd_alloc m =
     (let (frame, v) = vm_alloc (machine_vm m); m1 = on_machine_vm (\<lambda>_. v) m
      in if frame = 0 then print [Str ''alloc failed\<newline>''] m1 else print [Str ''frame: '', Hex frame, Chr CHR 0x0A] m1)"

definition cmd_allocn :: "string \<Rightarrow> machine \<Rightarrow> machine" where
  "cmd_allocn arg m =
     (case parse_u32 arg of
        None \<Rightarrow> print [Str ''usage: allocn <count>\<newline>''] m
      | Some cnt \<Rightarrow>
          let (frames, v) = alloc_many vm_alloc (unat cnt) (machine_vm m)
          in print [Str ''allocated frames: '', Dec (of_nat (length frames)), Chr CHR 0x0A] (on_machine_vm (\<lambda>_. v) m))"

definition cmd_free :: "string \<Rightarrow> machine \<Rightarrow> machine" where
  "cmd_free arg m =
     (case parse_u32_auto arg of
        None \<Rightarrow> print [Str ''usage: free <frame_addr>\<newline>''] m
      | Some frame \<Rightarrow>
          let (ok, p) = pmm_free_frame frame (vm_pmm (machine_vm m)); m1 = on_machine_vm (\<lambda>v. v\<lparr>vm_pmm := p\<rparr>) m
          in if \<not> ok then print [Str ''free failed\<newline>''] m1
             else print [Str ''freed frame: '', Hex (frame AND 0xFFFFF000), Chr CHR 0x0A] m1)"

definition cmd_uptime :: "machine \<Rightarrow> machine" where
  "cmd_uptime m = print [Str ''uptime: '', Dec (timer_get_uptime_seconds (kn_timer (ma_kernel m))), Str '' s\<newline>''] m"

definition cmd_time :: "machine \<Rightarrow> machine" where
  "cmd_time m =
     (let t = kn_timer (ma_kernel m)
      in print [Str ''hz: '', Dec (timer_get_hz t), Str '', ticks: '', Dec (timer_get_ticks32 t), Str '', uptime: '',
                Dec (timer_get_uptime_seconds t), Str '' s\<newline>''] m)"

definition cmd_ticks :: "machine \<Rightarrow> machine" where
  "cmd_ticks m = print [Str ''ticks: '', Dec (timer_get_ticks32 (kn_timer (ma_kernel m))), Chr CHR 0x0A] m"

record shell_env =
  sh_symbols :: symbols
  sh_demo_task :: u32
  sh_mbi :: u32
  sh_regs :: "nat \<Rightarrow> u32"

fun run_direct :: "shell_env \<Rightarrow> direct \<Rightarrow> machine \<Rightarrow> machine option" where
  "run_direct env Help m = Some (cmd_help m)"
| "run_direct env Clear m = Some (m\<lparr>ma_vga := vga_clear (ma_vga m)\<rparr>)"
| "run_direct env Mem m = print_mem_info (sh_mbi env) m"
| "run_direct env Mmap m = Some (print_mmap_regions (sh_mbi env) m)"
| "run_direct env Pmm_info m = Some (cmd_pmm m)"
| "run_direct env Heap_info m = Some (cmd_heap m)"
| "run_direct env (Kmalloc arg) m = cmd_kmalloc arg m"
| "run_direct env Syscall_info m = cmd_syscall (sh_symbols env) (sh_regs env) m"
| "run_direct env Tasks m = Some (cmd_tasks m)"
| "run_direct env Ps m = Some (cmd_ps m)"
| "run_direct env Spawnproc m = cmd_spawnproc (sh_symbols env) (sh_demo_task env) m"
| "run_direct env Psx m = Some (cmd_psx m)"
| "run_direct env Progs m = Some (cmd_progs (sh_symbols env) m)"
| "run_direct env (Run arg) m = cmd_run (sh_symbols env) arg m"
| "run_direct env (Send arg) m = Some (cmd_send arg m)"
| "run_direct env Recv m = Some (cmd_recv m)"
| "run_direct env Ipc_info m = Some (cmd_ipc m)"
| "run_direct env Upings m = cmd_upings (sh_symbols env) (sh_regs env) m"
| "run_direct env Aspace m = Some (cmd_aspace m)"
| "run_direct env Userprep m = cmd_userprep m"
| "run_direct env Ls m = Some (cmd_ls m)"
| "run_direct env (Cat arg) m = cmd_cat arg m"
| "run_direct env (Write arg) m = cmd_write arg m"
| "run_direct env Vm_info m = Some (cmd_vm m)"
| "run_direct env (Vmmap arg) m = Some (cmd_vmmap arg m)"
| "run_direct env (Vmunmap arg) m = Some (cmd_vmunmap arg m)"
| "run_direct env (Vmxlate arg) m = Some (cmd_vmxlate arg m)"
| "run_direct env Alloc m = Some (cmd_alloc m)"
| "run_direct env (Allocn arg) m = Some (cmd_allocn arg m)"
| "run_direct env (Free arg) m = Some (cmd_free arg m)"
| "run_direct env Uptime m = Some (cmd_uptime m)"
| "run_direct env Time m = Some (cmd_time m)"
| "run_direct env Ticks m = Some (cmd_ticks m)"
| "run_direct env (Echo arg) m = Some (print [Str arg, Chr CHR 0x0A] m)"
| "run_direct env (Unknown line) m = Some (print [Str ''unknown command: '', Str line, Chr CHR 0x0A] m)"

section \<open>Waiting\<close>

definition sleep_seconds_ticks :: "u32 \<Rightarrow> u32 \<Rightarrow> u32" where
  "sleep_seconds_ticks hz seconds = (if seconds > UINT32_MAX div hz then UINT32_MAX else seconds * hz)"

definition sleep_milliseconds_ticks :: "u32 \<Rightarrow> u32 \<Rightarrow> u32" where
  "sleep_milliseconds_ticks hz milliseconds =
     (let wait_ticks = (if milliseconds > UINT32_MAX div hz then UINT32_MAX div 1000 else (milliseconds * hz) div 1000)
      in if wait_ticks = 0 \<and> milliseconds > 0 then 1 else wait_ticks)"

text \<open>\<open>while ((timer_get_ticks32() - start) < wait_ticks) hlt;\<close> with the counter at each reading as an argument.\<close>

partial_function (option) sleep_wait :: "(nat \<Rightarrow> u32) \<Rightarrow> u32 \<Rightarrow> u32 \<Rightarrow> nat \<Rightarrow> nat option" where
  "sleep_wait ticks start wait_ticks n = (if ticks n - start < wait_ticks then sleep_wait ticks start wait_ticks (n + 1) else Some n)"

section \<open>Lemmas\<close>

lemma command_text [simp]:
  "command_of (''write '' @ t) = Direct (Write t)" "command_of (''cat '' @ t) = Direct (Cat t)"
  "command_of (''free '' @ t) = Direct (Free t)" "command_of ''alloc'' = Direct Alloc"
  by (simp_all add: command_of_def streq_cstr starts_with_cstr cstr_Cons c_at_def)

lemma on_machine_vm_simps [simp]:
  "machine_vm (on_machine_vm f m) = f (machine_vm m)" "ma_vga (on_machine_vm f m) = ma_vga m"
  "machine_vm (print xs m) = machine_vm m"
  by (simp_all add: on_machine_vm_def on_vm_def)

lemma word_char_no_NUL: "list_all word_char name \<Longrightarrow> cstr name = name"
  by (intro cstr_id) (auto simp: list_all_iff word_char_def)

lemma word_token:
  assumes "list_all word_char name" "name \<noteq> []" "length name < 40" "rest = [] \<or> hd rest = CHR '' ''"
  shows "fst (read_token (name @ rest) (replicate 40 NUL) 40) = rest"
    and "cstr (snd (read_token (name @ rest) (replicate 40 NUL) 40)) = name"
proof -
  have "hd name \<noteq> CHR '' ''" using assms(1,2) by (cases name) (auto simp: word_char_def)
  then have s: "skip_spaces (name @ rest) = name @ rest" using assms(2) by (cases name) simp_all
  have r: "takeWhile word_char rest = []" "dropWhile word_char rest = rest"
    using assms(4) by (cases rest; simp add: word_char_def)+
  have n: "\<And>x. x \<in> set name \<Longrightarrow> word_char x" using assms(1) by (simp add: list_all_iff)
  have "takeWhile word_char (name @ rest) = name" "dropWhile word_char (name @ rest) = rest"
    using takeWhile_append2 [of name word_char rest] dropWhile_append2 [of name word_char rest] n r by simp_all
  then show "fst (read_token (name @ rest) (replicate 40 NUL) 40) = rest"
    and "cstr (snd (read_token (name @ rest) (replicate 40 NUL) 40)) = name"
    using read_token_eq(1,2) [of 40 "replicate 40 NUL" "name @ rest"] assms(3) by (simp_all add: s)
qed

lemma heap_text_eq:
  "(\<And>j. j < n \<Longrightarrow> b (a + of_nat j) \<noteq> NUL) \<Longrightarrow> b (a + of_nat n) = NUL \<Longrightarrow> heap_text b a = Some (map (\<lambda>j. b (a + of_nat j)) [0..<n])"
proof (induction n arbitrary: a)
  case 0
  then show ?case by (simp add: heap_text.simps [of b a])
next
  case (Suc n)
  have "heap_text b (a + 1) = Some (map (\<lambda>j. b (a + 1 + of_nat j)) [0..<n])"
    using Suc.prems(1) [of "Suc _"] Suc.prems(2) by (intro Suc.IH) (simp_all add: add.assoc)
  moreover have "b a \<noteq> NUL" using Suc.prems(1) [of 0] by simp
  moreover have "map (\<lambda>j. b (a + of_nat j)) [0..<Suc n] = b a # map (\<lambda>j. b (a + 1 + of_nat j)) [0..<n]"
    by (simp add: upt_conv_Cons map_Suc_upt [symmetric] add.assoc del: upt_Suc)
  ultimately show ?case by (simp add: heap_text.simps [of b a])
qed

lemma vfs_text:
  assumes inv: "vfs_inv s" and "fs_ready s" "vfs_name_valid (Some name)" and t: "vfs_map s (cstr name) = Some t"
  shows "vfs_read_file (Some name) s \<noteq> 0" "heap_text (fs_bytes s) (vfs_read_file (Some name) s) = Some t"
proof -
  obtain i where i: "vfs_find_file name (fs_files s) = Some i"
    using t by (cases "vfs_find_file name (fs_files s)") (simp_all add: find_file_lookup vfs_map_def vfs_slots.table_map_def)
  define e where "e = fs_files s ! i"
  have e: "i < length (fs_files s)" "vf_used e \<noteq> 0" using i vfs_slots.lookup_SomeD by (auto simp: find_file_lookup e_def)
  have ok: "file_ok s e" and h: "heap_inv (fs_km s)" using inv e(1) by (simp_all add: vfs_inv_def e_def)
  have te: "t = text_in (fs_bytes s) (vf_data e) (vf_len e)"
    using t i by (simp add: find_file_lookup vfs_map_def vfs_slots.table_map_def e_def)
  have r: "vfs_read_file (Some name) s = vf_data e" using assms(2,3) i by (simp add: vfs_read_file_def e_def)
  obtain k where k: "(unat (vf_data e), k) \<in> live (fs_km s)" using ok e(2) by (auto simp: file_ok_def block_of_def)
  show "vfs_read_file (Some name) s \<noteq> 0" using kheap_alloc.blocks_bound [OF h k] by (auto simp: r)
  have "fs_bytes s (vf_data e + of_nat j) \<noteq> NUL" if "j < unat (vf_len e)" for j
  proof -
    have "NUL \<notin> set (text_in (fs_bytes s) (vf_data e) (vf_len e))" using ok e(2) by (simp add: file_ok_def)
    moreover have "fs_bytes s (vf_data e + of_nat j) \<in> set (text_in (fs_bytes s) (vf_data e) (vf_len e))"
      using that by (simp add: text_in_def)
    ultimately show ?thesis by metis
  qed
  moreover have "fs_bytes s (vf_data e + of_nat (unat (vf_len e))) = NUL" using ok e(2) by (simp add: file_ok_def)
  ultimately show "heap_text (fs_bytes s) (vfs_read_file (Some name) s) = Some t"
    unfolding r te text_in_def by (rule heap_text_eq)
qed

text \<open>With one tick per wake-up a wait of \<open>w\<close> ticks ends after exactly \<open>w\<close> of them, also across the wrap of the counter.\<close>

lemma sleep_wait_exact:
  assumes "\<And>n. ticks n = start + of_nat n" "n \<le> unat w"
  shows "sleep_wait ticks start w n = Some (unat w)"
  using assms(2)
proof (induction "unat w - n" arbitrary: n)
  case 0
  then have "n = unat w" by simp
  then have "\<not> ticks n - start < w" by (simp add: assms(1))
  then show ?case using 0 by (subst sleep_wait.simps) simp
next
  case (Suc k)
  have "unat (of_nat n :: u32) = n" using Suc unat_u32_less [of w] by (simp add: unat_of_nat)
  then have "(of_nat n :: u32) < w" using Suc by (simp add: word_less_nat_alt)
  then show ?case using Suc by (simp add: sleep_wait.simps [of ticks _ _ n] assms(1))
qed

section \<open>Properties\<close>

text \<open>C39. 
  From the command line to the heap and back: \<open>write name text\<close> either reports a failure and leaves the files as
  they were, or stores exactly the text under exactly the name, and then \<open>cat name\<close> prints that text and a
  newline and changes nothing but the screen.
\<close>

theorem shell_write_cat:
  assumes inv: "vfs_inv (ks_fs (sys_of m))" "fs_ready (ks_fs (sys_of m))"
    and name: "list_all word_char name" "name \<noteq> []" "length name < 32"
    and t: "NUL \<notin> set t" "t \<noteq> []" "hd t \<noteq> CHR '' ''" "length t < 4294967296"
  shows "command_of (''write '' @ name @ '' '' @ t) = Direct (Write (name @ '' '' @ t)) \<and>
    command_of (''cat '' @ name) = Direct (Cat name) \<and>
    (\<exists>ok m'. run_direct env (Write (name @ '' '' @ t)) m = Some m' \<and>
      ma_vga m' = vga_puts (if ok then ''write ok\<newline>'' else ''write failed\<newline>'') (ma_vga m) \<and>
      vfs_inv (ks_fs (sys_of m')) \<and>
      vfs_map (ks_fs (sys_of m')) = (if ok then (vfs_map (ks_fs (sys_of m)))(name \<mapsto> t) else vfs_map (ks_fs (sys_of m))) \<and>
      (ok \<longrightarrow> run_direct env (Cat name) m' = Some (m'\<lparr>ma_vga := vga_putc CHR 0x0A (vga_puts t (ma_vga m'))\<rparr>)))"
proof -
  let ?fs = "ks_fs (sys_of m)" and ?tok = "snd (read_token (name @ '' '' @ t) (replicate 40 NUL) 40)"
  let ?ctok = "snd (read_token name (replicate 40 NUL) 40)"
  have tok: "fst (read_token (name @ '' '' @ t) (replicate 40 NUL) 40) = '' '' @ t" "cstr ?tok = name"
    using word_token [OF name(1,2), of "'' '' @ t"] name(3) by simp_all
  have ctok: "cstr ?ctok = name" using word_token [OF name(1,2), of "[]"] name(3) by simp
  have ct: "cstr t = t" using t(1) by (rule cstr_id)
  have sk: "skip_spaces ('' '' @ t) = t" using t(2,3) by (cases t) simp_all
  have ne: "c_at ?tok 0 \<noteq> NUL" "c_at ?ctok 0 \<noteq> NUL" "c_at t 0 \<noteq> NUL"
    using tok(2) ctok ct name(2) t(2) by (simp_all add: empty_cstr)
  obtain ok fs where w: "vfs_write_file (Some ?tok) (Some t) ?fs = Some (ok, fs)" "write_step name t ?fs ok fs"
    using vfs_write_ex [OF inv, of ?tok t] tok(2) ct name(3) t(4) by auto
  define m' where "m' = print [Str (if ok then ''write ok\<newline>'' else ''write failed\<newline>'')] (set_sys ((sys_of m)\<lparr>ks_fs := fs\<rparr>) m)"
  have run: "run_direct env (Write (name @ '' '' @ t)) m = Some m'"
    using tok(1) sk ne w(1) by (simp add: cmd_write_def case_prod_unfold Let_def m'_def)
  have fs: "ks_fs (sys_of m') = fs" "ma_vga m' = vga_puts (if ok then ''write ok\<newline>'' else ''write failed\<newline>'') (ma_vga m)"
    by (simp_all add: m'_def)
  have ws: "vfs_inv fs" "fs_ready fs" "vfs_map fs = (if ok then (vfs_map ?fs)(name \<mapsto> t) else vfs_map ?fs)"
    using w(2) inv(2) by (simp_all add: write_step_def)
  have "run_direct env (Cat name) m' = Some (m'\<lparr>ma_vga := vga_putc CHR 0x0A (vga_puts t (ma_vga m'))\<rparr>)" if ok
  proof -
    have "vfs_name_valid (Some ?ctok)" using name(2,3) by (simp add: name_valid_iff ctok)
    moreover have "vfs_map fs (cstr ?ctok) = Some t" using ws(3) that ctok by simp
    ultimately show ?thesis using vfs_text [OF ws(1,2), of ?ctok t] ne(2) by (simp add: cmd_cat_def Let_def fs(1) print_def)
  qed
  then show ?thesis using run fs ws by (intro conjI command_text exI [of _ ok] exI [of _ m']) simp_all
qed

text \<open>C40. 
  The line \<open>alloc\<close> takes a frame out of the available ones and shows its address.  The frame is given back by typing the shown address after \<open>free\<close>: the set
  of available frames is again what it was.
\<close>

theorem shell_alloc_free:
  assumes ok: "pmm_ok (vm_pmm (machine_vm m))" and av: "avail_frames (vm_pmm (machine_vm m)) \<noteq> {}"
  shows "\<exists>f m1 m2. command_of ''alloc'' = Direct Alloc \<and> run_direct env Alloc m = Some m1 \<and>
    ma_vga m1 = vga_print [Str ''frame: '', Hex f, Chr CHR 0x0A] (ma_vga m) \<and>
    f \<in> avail_frames (vm_pmm (machine_vm m)) \<and> f \<notin> avail_frames (vm_pmm (machine_vm m1)) \<and>
    command_of (''free '' @ hex_text f) = Direct (Free (hex_text f)) \<and>
    run_direct env (Free (hex_text f)) m1 = Some m2 \<and>
    ma_vga m2 = vga_print [Str ''freed frame: '', Hex f, Chr CHR 0x0A] (ma_vga m1) \<and>
    avail_frames (vm_pmm (machine_vm m2)) = avail_frames (vm_pmm (machine_vm m))"
proof -
  obtain f p where a: "pmm_alloc_frame (vm_pmm (machine_vm m)) = (f, p)" by fastforce
  have f0: "f \<noteq> 0" using pmm_frames.alloc_zero_iff [OF ok a] av by blast
  note fr = pmm_frames.alloc_fresh [OF ok a f0]
  obtain b q where r: "pmm_free_frame f p = (b, q)" by fastforce
  have rel: b "avail_frames q = avail_frames (vm_pmm (machine_vm m))" using pmm_frames.alloc_release [OF ok a f0 r] by blast+
  have pf: "f AND 0xFFFFF000 = f" using fr(3) by (rule page_addr_and_high)
  define m1 where "m1 = print [Str ''frame: '', Hex f, Chr CHR 0x0A] (on_machine_vm (\<lambda>_. (machine_vm m)\<lparr>vm_pmm := p\<rparr>) m)"
  define m2 where "m2 = print [Str ''freed frame: '', Hex f, Chr CHR 0x0A] (on_machine_vm (\<lambda>v. v\<lparr>vm_pmm := q\<rparr>) m1)"
  have run: "run_direct env Alloc m = Some m1" using a f0 by (simp add: cmd_alloc_def vm_alloc_def Let_def m1_def)
  have p: "vm_pmm (machine_vm m1) = p" "vm_pmm (machine_vm m2) = q" by (simp_all add: m1_def m2_def)
  have "cmd_free (hex_text f) m1 = m2"
    unfolding cmd_free_def parse_hex_text option.case p(1) r using rel(1) by (simp only: Let_def prod.case pf m2_def simp_thms if_False)
  then have "run_direct env (Free (hex_text f)) m1 = Some m2" by simp
  moreover have "ma_vga m1 = vga_print [Str ''frame: '', Hex f, Chr CHR 0x0A] (ma_vga m)"
    "ma_vga m2 = vga_print [Str ''freed frame: '', Hex f, Chr CHR 0x0A] (ma_vga m1)" unfolding m1_def m2_def by simp_all
  ultimately show ?thesis using run fr(4,5) rel(2) p
    by (intro exI [of _ f] exI [of _ m1] exI [of _ m2] conjI command_text) simp_all
qed

theorem shell_write_cat_witness:
  "\<exists>env m m'. vfs_inv (ks_fs (sys_of m)) \<and> vfs_map (ks_fs (sys_of m)) = Map.empty \<and>
     command_of (''write a '' @ replicate 63 CHR ''b'') = Direct (Write (''a '' @ replicate 63 CHR ''b'')) \<and>
     run_direct env (Write (''a '' @ replicate 63 CHR ''b'')) m = Some m' \<and>
     vfs_map (ks_fs (sys_of m')) = [''a'' \<mapsto> replicate 63 CHR ''b''] \<and>
     run_direct env (Cat ''a'') m' = Some (m'\<lparr>ma_vga := vga_putc CHR 0x0A (vga_puts (replicate 63 CHR ''b'') (ma_vga m'))\<rparr>)"
proof -
  fix env
  obtain p where p: "vfs_inv (demo_fs p)" "fs_ready (demo_fs p)" "vfs_map (demo_fs p) = Map.empty"
    "\<forall>n. vfs_name_valid (Some n) \<longrightarrow> (\<exists>s'. vfs_write_file (Some n) (Some (replicate 63 CHR ''b'')) (demo_fs p) = Some (True, s'))"
    by (rule demo_fs_write)
  let ?t = "replicate 63 CHR ''b''" and ?m = "demo_machine (demo_sys p)"
  let ?tok = "snd (read_token (''a'' @ '' '' @ ?t) (replicate 40 NUL) 40)"
  have fs: "ks_fs (sys_of ?m) = demo_fs p" by (simp add: demo_sys_def scheduler_init_def Let_def)
  have tok: "fst (read_token (''a'' @ '' '' @ ?t) (replicate 40 NUL) 40) = '' '' @ ?t" "cstr ?tok = ''a''"
    by (rule word_token; simp add: word_char_def)+
  then have v: "vfs_name_valid (Some ?tok)" using name_valid_iff [of ?tok] by simp
  obtain s' where s': "vfs_write_file (Some ?tok) (Some ?t) (demo_fs p) = Some (True, s')" using p(4) v by blast
  have ct: "cstr ?t = ?t" by (simp add: cstr_id)
  then have "write_step ''a'' ?t (demo_fs p) True s'" using vfs_write_ex [OF p(1,2), of ?tok ?t] s' tok(2) by auto
  then have s'a: "vfs_map s' ''a'' = Some ?t" by (simp add: write_step_def)
  have sk: "skip_spaces ('' '' @ ?t) = ?t" by (simp add: numeral_eq_Suc)
  have ne: "c_at ?tok 0 \<noteq> NUL" "c_at ?t 0 \<noteq> NUL" by (simp_all only: empty_cstr tok(2) ct) simp_all
  have w: "\<exists>m'. run_direct env (Write (''a'' @ '' '' @ ?t)) ?m = Some m' \<and> ks_fs (sys_of m') = s'"
    using tok(1) sk ne s' by (simp add: cmd_write_def case_prod_unfold Let_def fs [simplified])
  have pre: "list_all word_char ''a''" "''a'' \<noteq> []" "length ''a'' < 32" "NUL \<notin> set ?t" "?t \<noteq> []" "hd ?t \<noteq> CHR '' ''"
    "length ?t < 4294967296" by (simp_all add: word_char_def)
  note th = shell_write_cat [of ?m "''a''" ?t env, unfolded fs, OF p(1,2) pre]
  then obtain ok m' where m': "run_direct env (Write (''a'' @ '' '' @ ?t)) ?m = Some m'"
    "vfs_map (ks_fs (sys_of m')) = (if ok then (vfs_map (demo_fs p))(''a'' \<mapsto> ?t) else vfs_map (demo_fs p))"
    "ok \<longrightarrow> run_direct env (Cat ''a'') m' = Some (m'\<lparr>ma_vga := vga_putc CHR 0x0A (vga_puts ?t (ma_vga m'))\<rparr>)" by blast
  have "ks_fs (sys_of m') = s'" using w m'(1) by auto
  then have ok using m'(2) s'a p(3) by (cases ok) auto
  then show ?thesis using m' th p(1,3) fs by (intro exI [of _ env] exI [of _ ?m] exI [of _ m']) simp
qed

theorem shell_alloc_free_witness:
  "\<exists>env m m1 m2. run_direct env Alloc m = Some m1 \<and> avail_frames (vm_pmm (machine_vm m)) = {0x200000} \<and>
     0x200000 \<notin> avail_frames (vm_pmm (machine_vm m1)) \<and>
     run_direct env (Free (hex_text 0x200000)) m1 = Some m2 \<and> avail_frames (vm_pmm (machine_vm m2)) = {0x200000}"
proof -
  fix env
  obtain s where ok: "pmm_ok s" "avail_frames s = {0x200000}" by (rule demo_init)
  define m where "m = on_machine_vm (\<lambda>v. v\<lparr>vm_pmm := s\<rparr>) (demo_machine (demo_sys s))"
  have v: "vm_pmm (machine_vm m) = s" by (simp add: m_def)
  have "avail_frames (vm_pmm (machine_vm m)) \<noteq> {}" using v ok(2) by simp
  then obtain f m1 m2 where f: "run_direct env Alloc m = Some m1" "f \<in> avail_frames (vm_pmm (machine_vm m))"
    "f \<notin> avail_frames (vm_pmm (machine_vm m1))" "run_direct env (Free (hex_text f)) m1 = Some m2"
    "avail_frames (vm_pmm (machine_vm m2)) = avail_frames (vm_pmm (machine_vm m))"
    using shell_alloc_free [of m env] v ok(1) by blast
  have e: "avail_frames (vm_pmm (machine_vm m)) = {0x200000}" unfolding v by (rule ok(2))
  then have "f = 0x200000" using f(2) by simp
  with f(1,3,4,5) e show ?thesis by blast
qed

end
